(* ===== verification/Prelude.thy ===== *)
theory Prelude
  imports Main "HOL-Library.Word" "HOL-Library.Sublist"
begin

text \<open>
  What every component of the gate's model shares: the names of the machine integers, the
  collections that carry the proofs, and the facts on lists and bytes that the Go standard
  library models and the components rest on.

  A Go string is a sequence of bytes, so it is modelled by HOL's \<open>string\<close>, a list of
  8-bit characters; \<open>byte\<close> reads a character as a number.
\<close>

section \<open>Types and collections\<close>

type_synonym uint64 = "64 word"
type_synonym int64 = "64 word"

named_theorems gostr "rewriting facts on Go's string operations"
named_theorems gate_simps "rewriting facts on the gate's constants and records"

abbreviation byte :: "char \<Rightarrow> nat" where
  "byte c \<equiv> of_char c"

abbreviation chr :: "nat \<Rightarrow> char" where
  "chr n \<equiv> char_of n"

section \<open>Errors as values\<close>

text \<open>
  A Go function that returns a value and an error is a sum, \<open>Inl\<close> the error. \<open>bindE\<close>
  is the check \<open>if err != nil { return err }\<close> and \<open>traverse\<close> a loop that stops at the
  first element in error.
\<close>

definition bindE :: "'e + 'a \<Rightarrow> ('a \<Rightarrow> 'e + 'b) \<Rightarrow> 'e + 'b" where
  "bindE x f = (case x of Inl e \<Rightarrow> Inl e | Inr a \<Rightarrow> f a)"

definition guardE :: "bool \<Rightarrow> 'e \<Rightarrow> ('e + 'b) \<Rightarrow> 'e + 'b" where
  "guardE bad e k = (if bad then Inl e else k)"

fun traverse :: "('a \<Rightarrow> 'e + 'b) \<Rightarrow> 'a list \<Rightarrow> 'e + 'b list" where
  "traverse f [] = Inr []"
| "traverse f (x # xs) = bindE (f x) (\<lambda>y. bindE (traverse f xs) (\<lambda>ys. Inr (y # ys)))"

lemma bindE_simps [simp]:
  "bindE (Inl e) f = Inl e"
  "bindE (Inr a) f = f a"
  by (simp_all add: bindE_def)

lemma bindE_Inr_iff: "bindE x f = Inr b \<longleftrightarrow> (\<exists>a. x = Inr a \<and> f a = Inr b)"
  by (auto simp: bindE_def split: sum.splits)

lemma guardE_Inr_iff: "guardE bad e k = Inr b \<longleftrightarrow> \<not> bad \<and> k = Inr b"
  by (simp add: guardE_def)

lemma guardE_simps [simp]:
  "guardE True e k = Inl e"
  "guardE False e k = k"
  by (simp_all add: guardE_def)

lemma traverse_Inr_iff: "traverse f xs = Inr ys \<longleftrightarrow> list_all2 (\<lambda>x y. f x = Inr y) xs ys"
  by (induction xs arbitrary: ys)
    (auto simp: bindE_Inr_iff list_all2_Cons1 list_all2_Nil)

lemma traverse_Inr_pred:
  assumes "traverse f xs = Inr ys" and "\<And>x y. f x = Inr y \<Longrightarrow> P y"
  shows "list_all P ys"
  using assms(1) unfolding traverse_Inr_iff
  by (induction rule: list_all2_induct) (auto intro: assms(2))

lemma traverse_id: "(\<And>x. x \<in> set xs \<Longrightarrow> f x = Inr x) \<Longrightarrow> traverse f xs = Inr xs"
  by (induction xs) auto

section \<open>Bytes\<close>

lemma byte_less_256 [simp]: "byte c < 256"
  by (metis of_char_mod_256 mod_less_divisor zero_less_numeral)

lemma byte_eq_iff: "byte c = byte d \<longleftrightarrow> c = d"
  by (rule of_char_eq_iff)

lemma byte_chr [simp]: "n < 256 \<Longrightarrow> byte (chr n) = n"
  by simp

lemma chr_eqI: "byte c = n \<Longrightarrow> c = chr n"
  by auto

section \<open>Lists\<close>

lemma list_all_ex_append_Cons:
  "x \<in> set xs \<Longrightarrow> \<exists>ys zs. xs = ys @ x # zs \<and> x \<notin> set ys"
  by (metis split_list_first)

lemma append_eq_drop: "xs = ys @ zs \<Longrightarrow> drop (length ys) xs = zs"
  by simp

lemma set_butlastD: "x \<in> set (butlast xs) \<Longrightarrow> x \<in> set xs"
  by (rule in_set_butlastD)

lemma last_in_set_append: "ys \<noteq> [] \<Longrightarrow> last ys \<in> set (xs @ ys)"
  by simp

end
