(* ===== verification/GoStrings.thy ===== *)
theory GoStrings
  imports Prelude
begin

text \<open>
  The parts of Go's \<open>strings\<close> and \<open>strconv\<close> packages that the gate calls, on
  byte strings, with the package's own names. Everything is exact but for the case maps of
  strings that hold a non-ASCII byte: \<open>unicode.ToLower\<close> and \<open>unicode.ToUpper\<close> are
  tables of the Unicode standard, so they are the two fields of a record \<open>casemap\<close>, an
  argument of the definitions that fold case. ASCII strings never reach it.
\<close>

section \<open>Prefixes, suffixes, search\<close>

definition HasPrefix :: "string \<Rightarrow> string \<Rightarrow> bool" where
  "HasPrefix s p \<longleftrightarrow> take (length p) s = p"

definition HasSuffix :: "string \<Rightarrow> string \<Rightarrow> bool" where
  "HasSuffix s p \<longleftrightarrow> length p \<le> length s \<and> drop (length s - length p) s = p"

definition CutPrefix :: "string \<Rightarrow> string \<Rightarrow> string option" where
  "CutPrefix s p = (if HasPrefix s p then Some (drop (length p) s) else None)"

definition CutSuffix :: "string \<Rightarrow> string \<Rightarrow> string option" where
  "CutSuffix s p = (if HasSuffix s p then Some (take (length s - length p) s) else None)"

fun Contains :: "string \<Rightarrow> string \<Rightarrow> bool" where
  "Contains [] p = (p = [])"
| "Contains (c # s) p = (HasPrefix (c # s) p \<or> Contains s p)"

text \<open>\<open>strings.Split\<close> with a one-byte separator: always at least one piece.\<close>

fun Split :: "string \<Rightarrow> char \<Rightarrow> string list" where
  "Split [] sep = [[]]"
| "Split (c # s) sep =
     (if c = sep then [] # Split s sep
      else (case Split s sep of [] \<Rightarrow> [[c]] | w # ws \<Rightarrow> (c # w) # ws))"

fun Join :: "string list \<Rightarrow> char \<Rightarrow> string" where
  "Join [] sep = []"
| "Join [w] sep = w"
| "Join (w # v # ws) sep = w @ sep # Join (v # ws) sep"

fun IndexByte :: "string \<Rightarrow> char \<Rightarrow> nat option" where
  "IndexByte [] b = None"
| "IndexByte (c # s) b = (if c = b then Some 0 else map_option Suc (IndexByte s b))"

fun LastIndexByte :: "string \<Rightarrow> char \<Rightarrow> nat option" where
  "LastIndexByte [] b = None"
| "LastIndexByte (c # s) b =
     (case LastIndexByte s b of
        Some i \<Rightarrow> Some (Suc i)
      | None \<Rightarrow> (if c = b then Some 0 else None))"

lemma HasPrefix_iff: "HasPrefix s p \<longleftrightarrow> (\<exists>r. s = p @ r)"
  unfolding HasPrefix_def by (metis append_eq_conv_conj append_take_drop_id)

lemma HasPrefix_prefix: "HasPrefix s p \<longleftrightarrow> prefix p s"
  by (auto simp: HasPrefix_iff prefix_def)

lemma HasSuffix_iff: "HasSuffix s p \<longleftrightarrow> (\<exists>r. s = r @ p)"
proof
  assume "HasSuffix s p"
  then have "drop (length s - length p) s = p" by (simp add: HasSuffix_def)
  then show "\<exists>r. s = r @ p" by (metis append_take_drop_id)
qed (auto simp: HasSuffix_def)

lemma HasPrefix_append [gostr, simp]: "HasPrefix (p @ r) p"
  by (auto simp: HasPrefix_iff)

lemma HasPrefix_Nil [gostr, simp]: "HasPrefix s []"
  by (simp add: HasPrefix_def)

lemma HasSuffix_append [gostr, simp]: "HasSuffix (r @ p) p"
  by (auto simp: HasSuffix_iff)

lemma HasSuffix_Cons_last: "HasSuffix s [c] \<longleftrightarrow> s \<noteq> [] \<and> last s = c"
  by (metis HasSuffix_iff append_butlast_last_id last_snoc snoc_eq_iff_butlast)

lemma HasPrefix_single: "HasPrefix s [c] \<longleftrightarrow> s \<noteq> [] \<and> hd s = c"
  by (cases s) (auto simp: HasPrefix_def)

lemma CutPrefix_Some_iff: "CutPrefix s p = Some r \<longleftrightarrow> s = p @ r"
  by (auto simp: CutPrefix_def HasPrefix_iff)

lemma CutPrefix_None_iff: "CutPrefix s p = None \<longleftrightarrow> \<not> HasPrefix s p"
  by (auto simp: CutPrefix_def)

lemma CutSuffix_Some_iff: "CutSuffix s p = Some r \<longleftrightarrow> s = r @ p"
  by (auto simp: CutSuffix_def HasSuffix_iff)

lemma CutSuffix_None_iff: "CutSuffix s p = None \<longleftrightarrow> \<not> HasSuffix s p"
  by (auto simp: CutSuffix_def)

lemma Contains_iff: "Contains s p \<longleftrightarrow> (\<exists>l r. s = l @ p @ r)"
proof (induction s)
  case (Cons c s)
  show ?case
  proof
    assume "Contains (c # s) p"
    then consider "HasPrefix (c # s) p" | "Contains s p" by auto
    then show "\<exists>l r. c # s = l @ p @ r"
    proof cases
      case 1
      then obtain r where "c # s = [] @ p @ r" by (auto simp: HasPrefix_iff)
      then show ?thesis by blast
    next
      case 2
      with Cons.IH obtain l r where "s = l @ p @ r" by blast
      then have "c # s = (c # l) @ p @ r" by simp
      then show ?thesis by blast
    qed
  next
    assume "\<exists>l r. c # s = l @ p @ r"
    then obtain l r where lr: "c # s = l @ p @ r" by blast
    show "Contains (c # s) p"
    proof (cases l)
      case Nil
      with lr have "HasPrefix (c # s) p" by (auto simp: HasPrefix_iff)
      then show ?thesis by simp
    next
      case (Cons d l')
      with lr have "s = l' @ p @ r" by simp
      then show ?thesis using Cons.IH by auto
    qed
  qed
qed auto

lemma Contains_single: "Contains s [c] \<longleftrightarrow> c \<in> set s"
  unfolding Contains_iff by (simp add: in_set_conv_decomp)

section \<open>Splitting and joining\<close>

lemma Split_not_Nil [gostr, simp]: "Split s sep \<noteq> []"
  by (cases s) (auto split: list.splits)

lemma Join_Split [gostr, simp]: "Join (Split s sep) sep = s"
proof (induction s)
  case (Cons c s)
  then show ?case
    by (cases "Split s sep"; cases "tl (Split s sep)") (auto split: list.splits)
qed simp

lemma Split_pieces: "w \<in> set (Split s sep) \<Longrightarrow> sep \<notin> set w"
proof (induction s arbitrary: w)
  case (Cons a s)
  obtain v vs where v: "Split s sep = v # vs" by (cases "Split s sep") auto
  with Cons.IH have "sep \<notin> set v" and "\<And>w. w \<in> set vs \<Longrightarrow> sep \<notin> set w" by auto
  with Cons.prems v show ?case by (auto split: if_splits)
qed simp

lemma Split_no_sep: "sep \<notin> set w \<Longrightarrow> Split w sep = [w]"
  by (induction w) auto

lemma Split_append_sep: "sep \<notin> set w \<Longrightarrow> Split (w @ sep # s) sep = w # Split s sep"
  by (induction w) (auto split: list.splits)

lemma Split_Join:
  "ws \<noteq> [] \<Longrightarrow> \<forall>w \<in> set ws. sep \<notin> set w \<Longrightarrow> Split (Join ws sep) sep = ws"
proof (induction ws sep rule: Join.induct)
  case (3 w v ws sep)
  then show ?case by (simp add: Split_append_sep)
qed (auto simp: Split_no_sep)

lemma Split_append:
  "Split (s @ sep # t) sep = Split s sep @ Split t sep"
  by (induction s) (auto split: list.splits simp: append_eq_Cons_conv)

section \<open>Case folding\<close>

record casemap =
  low_map :: "string \<Rightarrow> string"
  upp_map :: "string \<Rightarrow> string"

definition ascii :: "string \<Rightarrow> bool" where
  "ascii s \<longleftrightarrow> list_all (\<lambda>c. byte c < 128) s"

definition lower_char :: "char \<Rightarrow> char" where
  "lower_char c = (if 65 \<le> byte c \<and> byte c \<le> 90 then chr (byte c + 32) else c)"

definition upper_char :: "char \<Rightarrow> char" where
  "upper_char c = (if 97 \<le> byte c \<and> byte c \<le> 122 then chr (byte c - 32) else c)"

definition ToLower :: "casemap \<Rightarrow> string \<Rightarrow> string" where
  "ToLower cm s = (if ascii s then map lower_char s else low_map cm s)"

definition ToUpper :: "casemap \<Rightarrow> string \<Rightarrow> string" where
  "ToUpper cm s = (if ascii s then map upper_char s else upp_map cm s)"

text \<open>The case maps that leave a non-ASCII string alone; witnesses use them.\<close>

definition plain_casemap :: casemap where
  "plain_casemap = \<lparr>low_map = id, upp_map = id\<rparr>"

lemma byte_lower_char:
  "byte (lower_char c) = (if 65 \<le> byte c \<and> byte c \<le> 90 then byte c + 32 else byte c)"
  by (auto simp: lower_char_def)

lemma byte_upper_char:
  "byte (upper_char c) = (if 97 \<le> byte c \<and> byte c \<le> 122 then byte c - 32 else byte c)"
  by (auto simp: upper_char_def)

lemma lower_char_idem [simp]: "lower_char (lower_char c) = lower_char c"
  by (subst byte_eq_iff [symmetric]) (simp add: byte_lower_char)

lemma upper_char_idem [simp]: "upper_char (upper_char c) = upper_char c"
  by (subst byte_eq_iff [symmetric]) (simp add: byte_upper_char, linarith)

lemma lower_char_nonletter: "byte c < 65 \<or> 90 < byte c \<Longrightarrow> lower_char c = c"
  by (auto simp: lower_char_def)

lemma ascii_map_lower [simp]: "ascii s \<Longrightarrow> ascii (map lower_char s)"
  by (auto simp: ascii_def list_all_iff byte_lower_char)

lemma ascii_map_upper [simp]: "ascii s \<Longrightarrow> ascii (map upper_char s)"
  by (auto simp: ascii_def list_all_iff byte_upper_char)

lemma ToLower_ascii [gostr]: "ascii s \<Longrightarrow> ToLower cm s = map lower_char s"
  by (simp add: ToLower_def)

lemma ToUpper_ascii [gostr]: "ascii s \<Longrightarrow> ToUpper cm s = map upper_char s"
  by (simp add: ToUpper_def)

lemma ToLower_idem: "ascii s \<Longrightarrow> ToLower cm (ToLower cm s) = ToLower cm s"
  by (simp add: ToLower_def o_def)

lemma ToUpper_idem: "ascii s \<Longrightarrow> ToUpper cm (ToUpper cm s) = ToUpper cm s"
  by (simp add: ToUpper_def o_def)

lemma ascii_append [simp]: "ascii (s @ t) \<longleftrightarrow> ascii s \<and> ascii t"
  by (simp add: ascii_def)

lemma ascii_Nil [simp]: "ascii []"
  by (simp add: ascii_def)

lemma ascii_Cons: "ascii (c # s) \<longleftrightarrow> byte c < 128 \<and> ascii s"
  by (simp add: ascii_def)

section \<open>White space\<close>

text \<open>
  The UTF-8 encodings of the runes \<open>unicode.IsSpace\<close> accepts: tab, line feed, vertical
  tab, form feed, carriage return and space, then U+0085, U+00A0, U+1680, U+2000 to U+200A,
  U+2028, U+2029, U+202F, U+205F and U+3000. \<open>strings.TrimSpace\<close> drops them from both ends.
\<close>

definition space_runes :: "string list" where
  "space_runes = map (map chr)
     ([[9], [10], [11], [12], [13], [32], [194, 133], [194, 160], [225, 154, 128]]
      @ map (\<lambda>k. [226, 128, k])
          [128, 129, 130, 131, 132, 133, 134, 135, 136, 137, 138, 168, 169, 175]
      @ [[226, 129, 159], [227, 128, 128]])"

definition space_head :: "string \<Rightarrow> string option" where
  "space_head s = find (HasPrefix s) space_runes"

definition space_last :: "string \<Rightarrow> string option" where
  "space_last s = find (HasSuffix s) space_runes"

lemma space_runes_nonempty: "e \<in> set space_runes \<Longrightarrow> 0 < length e"
  by (auto simp: space_runes_def)

lemma find_space_runes: "find P space_runes = Some e \<Longrightarrow> P e \<and> 0 < length e"
  using space_runes_nonempty nth_mem by (fastforce simp: find_Some_iff)

lemma space_head_Some:
  "space_head s = Some e \<Longrightarrow> HasPrefix s e \<and> 0 < length e \<and> length e \<le> length s"
  using find_space_runes [of "HasPrefix s" e]
  by (auto simp: space_head_def HasPrefix_iff)

lemma space_last_Some:
  "space_last s = Some e \<Longrightarrow> HasSuffix s e \<and> 0 < length e \<and> length e \<le> length s"
  using find_space_runes [of "HasSuffix s" e]
  by (auto simp: space_last_def HasSuffix_iff)

function TrimLeftSpace :: "string \<Rightarrow> string" where
  "TrimLeftSpace s =
     (case space_head s of None \<Rightarrow> s | Some e \<Rightarrow> TrimLeftSpace (drop (length e) s))"
  by pat_completeness auto
termination
proof (relation "measure length")
  fix s e
  assume "space_head s = Some e"
  then show "(drop (length e) s, s) \<in> measure length"
    using space_head_Some [of s e] by (cases s) auto
qed simp

function TrimRightSpace :: "string \<Rightarrow> string" where
  "TrimRightSpace s =
     (case space_last s of None \<Rightarrow> s
      | Some e \<Rightarrow> TrimRightSpace (take (length s - length e) s))"
  by pat_completeness auto
termination
proof (relation "measure length")
  fix s e
  assume "space_last s = Some e"
  then show "(take (length s - length e) s, s) \<in> measure length"
    using space_last_Some [of s e] by (cases s) auto
qed simp

declare TrimLeftSpace.simps [simp del] TrimRightSpace.simps [simp del]

definition TrimSpace :: "string \<Rightarrow> string" where
  "TrimSpace s = TrimRightSpace (TrimLeftSpace s)"

text \<open>A string that neither begins nor ends with white space is left as it is.\<close>

definition trimmed :: "string \<Rightarrow> bool" where
  "trimmed s \<longleftrightarrow> space_head s = None \<and> space_last s = None"

lemma space_runes_shape:
  "list_all (\<lambda>e. length e = 1 \<and> byte (hd e) < 33
       \<or> e \<noteq> [] \<and> 128 \<le> byte (hd e) \<and> 128 \<le> byte (last e)) space_runes"
  by (simp add: space_runes_def)

text \<open>A string whose first and last bytes are printable ASCII is trimmed.\<close>

lemma trimmedI:
  assumes "t \<noteq> []" "33 \<le> byte (hd t)" "33 \<le> byte (last t)"
    and hl: "byte (hd t) < 128" "byte (last t) < 128"
  shows "trimmed t"
proof -
  have "\<not> HasPrefix t e \<and> \<not> HasSuffix t e" if "e \<in> set space_runes" for e
  proof -
    from that space_runes_shape
    have e: "length e = 1 \<and> byte (hd e) < 33 \<or> e \<noteq> [] \<and> 128 \<le> byte (hd e) \<and> 128 \<le> byte (last e)"
      by (simp add: list_all_iff)
    then have "e \<noteq> []" "hd e \<noteq> hd t"
      using hl assms(2) by auto
    moreover have "last e = hd e" if "length e = 1"
      using that by (cases e) auto
    then have "last e \<noteq> last t" using e hl assms(3) by auto
    ultimately show ?thesis
      by (auto simp: HasPrefix_iff HasSuffix_iff)
  qed
  then show ?thesis
    by (auto simp: trimmed_def space_head_def space_last_def find_None_iff)
qed

lemma TrimSpace_trimmed [gostr]: "trimmed s \<Longrightarrow> TrimSpace s = s"
  by (simp add: TrimSpace_def trimmed_def TrimLeftSpace.simps TrimRightSpace.simps)

lemma TrimLeftSpace_suffix: "\<exists>l. s = l @ TrimLeftSpace s"
proof (induction s rule: TrimLeftSpace.induct)
  case (1 s)
  show ?case
  proof (cases "space_head s")
    case None
    then show ?thesis by (simp add: TrimLeftSpace.simps [of s])
  next
    case (Some e)
    with 1 obtain l where "drop (length e) s = l @ TrimLeftSpace (drop (length e) s)" by blast
    then have "s = (take (length e) s @ l) @ TrimLeftSpace (drop (length e) s)"
      by (metis append.assoc append_take_drop_id)
    with Some show ?thesis unfolding TrimLeftSpace.simps [of s] by (simp del: append_assoc) blast
  qed
qed

lemma TrimRightSpace_prefix: "\<exists>r. s = TrimRightSpace s @ r"
proof (induction s rule: TrimRightSpace.induct)
  case (1 s)
  show ?case
  proof (cases "space_last s")
    case None
    then show ?thesis by (simp add: TrimRightSpace.simps [of s])
  next
    case (Some e)
    let ?t = "take (length s - length e) s"
    from 1 Some obtain r where "?t = TrimRightSpace ?t @ r" by blast
    then have "s = TrimRightSpace ?t @ (r @ drop (length s - length e) s)"
      by (metis append.assoc append_take_drop_id)
    with Some show ?thesis unfolding TrimRightSpace.simps [of s] by (simp del: append_assoc) blast
  qed
qed

lemma TrimLeftSpace_head: "space_head (TrimLeftSpace s) = None"
proof (induction s rule: TrimLeftSpace.induct)
  case (1 s)
  then show ?case by (cases "space_head s") (simp_all add: TrimLeftSpace.simps [of s])
qed

lemma TrimRightSpace_last: "space_last (TrimRightSpace s) = None"
proof (induction s rule: TrimRightSpace.induct)
  case (1 s)
  then show ?case by (cases "space_last s") (simp_all add: TrimRightSpace.simps [of s])
qed

lemma space_head_prefix: "space_head (s @ r) = None \<Longrightarrow> space_head s = None"
  by (auto simp: space_head_def find_None_iff HasPrefix_iff)

lemma TrimSpace_is_trimmed: "trimmed (TrimSpace s)"
proof -
  obtain r where "TrimLeftSpace s = TrimSpace s @ r"
    unfolding TrimSpace_def using TrimRightSpace_prefix by blast
  then have "space_head (TrimSpace s) = None"
    using space_head_prefix TrimLeftSpace_head by metis
  moreover have "space_last (TrimSpace s) = None"
    by (simp add: TrimSpace_def TrimRightSpace_last)
  ultimately show ?thesis by (simp add: trimmed_def)
qed

lemma TrimSpace_idem [simp]: "TrimSpace (TrimSpace s) = TrimSpace s"
  by (rule TrimSpace_trimmed) (rule TrimSpace_is_trimmed)

lemma set_TrimSpace: "set (TrimSpace s) \<subseteq> set s"
proof -
  obtain l where l: "s = l @ TrimLeftSpace s" using TrimLeftSpace_suffix by blast
  obtain r where r: "TrimLeftSpace s = TrimSpace s @ r"
    unfolding TrimSpace_def using TrimRightSpace_prefix by blast
  from l r have "s = l @ TrimSpace s @ r" by simp
  then have "set s = set (l @ TrimSpace s @ r)" by simp
  then show ?thesis by auto
qed

lemma ascii_TrimSpace [simp]: "ascii s \<Longrightarrow> ascii (TrimSpace s)"
  using set_TrimSpace by (fastforce simp: ascii_def list_all_iff)

section \<open>Numbers\<close>

definition is_digit :: "char \<Rightarrow> bool" where
  "is_digit c \<longleftrightarrow> 48 \<le> byte c \<and> byte c \<le> 57"

definition digits_val :: "string \<Rightarrow> nat" where
  "digits_val s = foldl (\<lambda>v c. 10 * v + (byte c - 48)) 0 s"

text \<open>\<open>strconv.Atoi\<close> on a 64-bit \<open>int\<close>: an optional sign, then digits only.\<close>

definition Atoi :: "string \<Rightarrow> int option" where
  "Atoi s =
     (let neg = HasPrefix s ''-'';
          ds = (if neg \<or> HasPrefix s ''+'' then drop 1 s else s);
          v = (if neg then - int (digits_val ds) else int (digits_val ds))
      in if ds \<noteq> [] \<and> list_all is_digit ds \<and> - (2 ^ 63) \<le> v \<and> v < 2 ^ 63
         then Some v else None)"

fun dec :: "nat \<Rightarrow> string" where
  "dec n = (if n < 10 then [chr (48 + n)] else dec (n div 10) @ [chr (48 + n mod 10)])"

declare dec.simps [simp del]

text \<open>\<open>strconv.Itoa\<close> and the \<open>%d\<close> verb.\<close>

definition Itoa :: "int \<Rightarrow> string" where
  "Itoa i = (if i < 0 then CHR ''-'' # dec (nat (- i)) else dec (nat i))"

lemma digits_val_snoc: "digits_val (s @ [c]) = 10 * digits_val s + (byte c - 48)"
  by (simp add: digits_val_def)

lemma dec_not_Nil [simp]: "dec n \<noteq> []"
  by (subst dec.simps) simp

lemma dec_digits: "list_all is_digit (dec n)"
proof (induction n rule: dec.induct)
  case (1 n)
  show ?case
  proof (cases "n < 10")
    case True
    then show ?thesis by (simp add: dec.simps [of n] is_digit_def)
  next
    case False
    have "n mod 10 < 10" by simp
    with False 1 show ?thesis by (simp add: dec.simps [of n] is_digit_def)
  qed
qed

lemma digits_val_dec [simp]: "digits_val (dec n) = n"
proof (induction n rule: dec.induct)
  case (1 n)
  show ?case
  proof (cases "n < 10")
    case True
    then show ?thesis by (simp add: dec.simps [of n] digits_val_def)
  next
    case False
    have "n mod 10 < 10" by simp
    with False 1 show ?thesis by (simp add: dec.simps [of n] digits_val_snoc)
  qed
qed

lemma dec_hd_digit: "is_digit (hd (dec n))"
  using dec_digits [of n] by (cases "dec n") auto

lemma dec_hd_zero: "hd (dec n) = CHR ''0'' \<longleftrightarrow> n = 0"
proof (induction n rule: dec.induct)
  case (1 n)
  show ?case
  proof (cases "n < 10")
    case True
    then have "byte (hd (dec n)) = 48 + n" by (simp add: dec.simps [of n])
    moreover have "hd (dec n) = CHR ''0'' \<longleftrightarrow> byte (hd (dec n)) = 48"
      by (subst byte_eq_iff [symmetric]) simp
    ultimately show ?thesis by simp
  next
    case False
    with 1 show ?thesis by (simp add: dec.simps [of n])
  qed
qed

lemma not_digit_sign: "\<not> is_digit CHR ''-''" "\<not> is_digit CHR ''+''"
  by (simp_all add: is_digit_def)

lemma Atoi_dec: "n < 2 ^ 63 \<Longrightarrow> Atoi (dec n) = Some (int n)"
proof -
  assume n: "n < 2 ^ 63"
  have "\<not> HasPrefix (dec n) ''-''" "\<not> HasPrefix (dec n) ''+''"
    using dec_hd_digit [of n] not_digit_sign by (auto simp: HasPrefix_single)
  with n show ?thesis by (simp add: Atoi_def dec_digits)
qed

lemma Atoi_Itoa: "- (2 ^ 63) \<le> i \<Longrightarrow> i < 2 ^ 63 \<Longrightarrow> Atoi (Itoa i) = Some i"
proof (cases "i < 0")
  case True
  assume "- (2 ^ 63) \<le> i" "i < 2 ^ 63"
  with True show ?thesis
    by (simp add: Itoa_def Atoi_def dec_digits HasPrefix_def)
next
  case False
  assume "i < 2 ^ 63"
  with False show ?thesis by (simp add: Itoa_def Atoi_dec)
qed

lemma Atoi_range: "Atoi s = Some v \<Longrightarrow> - (2 ^ 63) \<le> v \<and> v < 2 ^ 63"
  by (auto simp: Atoi_def Let_def split: if_splits)

end
