(* ===== verification/Policy.thy ===== *)
theory Policy
  imports GoStrings
begin

text \<open>
  \<open>internal/policy/policy.go\<close>: the egress allowlist, its validation and its evaluation. A
  Go slice that may be nil is a \<open>'a slice\<close>, \<open>None\<close> for nil; the difference between nil
  and an empty slice is what \<open>writtenButEmpty\<close> reads. The YAML decoder is a parameter of
  \<open>Parse\<close>. Errors are values of \<open>policy_error\<close>, one constructor per message.
\<close>

section \<open>Data\<close>

type_synonym 'a slice = "'a list option"

definition elems :: "'a slice \<Rightarrow> 'a list" where
  "elems s = (case s of None \<Rightarrow> [] | Some xs \<Rightarrow> xs)"

lemma elems_simps [simp]: "elems None = []" "elems (Some xs) = xs"
  by (simp_all add: elems_def)

definition Allow :: string where
  "Allow = ''allow''"

definition Deny :: string where
  "Deny = ''deny''"

definition KindHTTP :: string where
  "KindHTTP = ''http''"

definition KindConnect :: string where
  "KindConnect = ''connect''"

lemma consts_distinct [gate_simps, simp]:
  "Allow \<noteq> Deny" "Deny \<noteq> Allow" "KindHTTP \<noteq> KindConnect" "KindConnect \<noteq> KindHTTP"
  "Allow \<noteq> []" "Deny \<noteq> []"
  by (simp_all add: Allow_def Deny_def KindHTTP_def KindConnect_def)

definition defaultPorts :: "int list" where
  "defaultPorts = [80, 443]"

definition knownMethods :: "string list" where
  "knownMethods =
     [''GET'', ''HEAD'', ''POST'', ''PUT'', ''PATCH'', ''DELETE'', ''OPTIONS'', ''TRACE'']"

record rule =
  r_name :: string
  r_hosts :: "string slice"
  r_methods :: "string slice"
  r_paths :: "string slice"
  r_ports :: "int slice"

record policy =
  p_version :: int
  p_default :: string
  p_rules :: "rule list"

record request =
  q_kind :: string
  q_host :: string
  q_port :: int
  q_method :: string
  q_path :: string

record decision =
  d_action :: string
  d_rule :: string
  d_reason :: string

definition constrained :: "rule \<Rightarrow> bool" where
  "constrained r \<longleftrightarrow> 0 < length (elems (r_methods r)) \<or> 0 < length (elems (r_paths r))"

section \<open>Validation\<close>

datatype policy_error =
    BadVersion int
  | BadDefault string
  | NameRequired nat
  | DuplicateName string
  | NoHosts string
  | EmptyHost string
  | WildcardForm string string
  | WildcardBare string string
  | EmptyMethods string
  | EmptyPaths string
  | EmptyPorts string
  | UnknownMethod string string
  | PathNoSlash string string
  | PortRange string int

definition writtenButEmpty :: "'a slice \<Rightarrow> bool" where
  "writtenButEmpty s \<longleftrightarrow> s \<noteq> None \<and> length (elems s) = 0"

text \<open>One host of a rule: lower-cased and trimmed, with the one wildcard form allowed.\<close>

definition validate_host :: "casemap \<Rightarrow> string \<Rightarrow> string \<Rightarrow> policy_error + string" where
  "validate_host cm name h0 =
     (let h = ToLower cm (TrimSpace h0)
      in guardE (h = []) (EmptyHost name)
        (if Contains h ''*'' then
           guardE (\<not> HasPrefix h ''*.'' \<or> Contains (drop 2 h) ''*'') (WildcardForm name h0)
           (guardE (h = ''*.'') (WildcardBare name h0)
           (Inr h))
         else Inr h))"

definition validate_method :: "casemap \<Rightarrow> string \<Rightarrow> string \<Rightarrow> policy_error + string" where
  "validate_method cm name m0 =
     (let m = ToUpper cm (TrimSpace m0)
      in guardE (m \<notin> set knownMethods) (UnknownMethod name m0) (Inr m))"

definition validate_path :: "string \<Rightarrow> string \<Rightarrow> policy_error + string" where
  "validate_path name path = guardE (\<not> HasPrefix path ''/'') (PathNoSlash name path) (Inr path)"

definition validate_port :: "string \<Rightarrow> int \<Rightarrow> policy_error + int" where
  "validate_port name port = guardE (port < 1 \<or> 65535 < port) (PortRange name port) (Inr port)"

definition traverse_slice :: "('a \<Rightarrow> 'e + 'b) \<Rightarrow> 'a slice \<Rightarrow> 'e + 'b slice" where
  "traverse_slice f s =
     (case s of None \<Rightarrow> Inr None | Some xs \<Rightarrow> bindE (traverse f xs) (\<lambda>ys. Inr (Some ys)))"

text \<open>
  The body of the loop over the rules, in the order of its checks. The loop stores the
  normalised hosts and methods back into the rule.
\<close>

definition validate_rule :: "casemap \<Rightarrow> nat \<Rightarrow> string list \<Rightarrow> rule \<Rightarrow> policy_error + rule" where
  "validate_rule cm i seen r =
     guardE (r_name r = []) (NameRequired i)
     (guardE (r_name r \<in> set seen) (DuplicateName (r_name r))
     (guardE (length (elems (r_hosts r)) = 0) (NoHosts (r_name r))
     (bindE (traverse_slice (validate_host cm (r_name r)) (r_hosts r)) (\<lambda>hosts.
      guardE (writtenButEmpty (r_methods r)) (EmptyMethods (r_name r))
     (guardE (writtenButEmpty (r_paths r)) (EmptyPaths (r_name r))
     (guardE (writtenButEmpty (r_ports r)) (EmptyPorts (r_name r))
     (bindE (traverse_slice (validate_method cm (r_name r)) (r_methods r)) (\<lambda>methods.
      bindE (traverse_slice (validate_path (r_name r)) (r_paths r)) (\<lambda>paths.
      bindE (traverse_slice (validate_port (r_name r)) (r_ports r)) (\<lambda>ports.
      Inr (r\<lparr>r_hosts := hosts, r_methods := methods\<rparr>)))))))))))"

fun validate_rules :: "casemap \<Rightarrow> nat \<Rightarrow> string list \<Rightarrow> rule list \<Rightarrow> policy_error + rule list" where
  "validate_rules cm i seen [] = Inr []"
| "validate_rules cm i seen (r # rs) =
     bindE (validate_rule cm i seen r) (\<lambda>r'.
     bindE (validate_rules cm (Suc i) (r_name r # seen) rs) (\<lambda>rs'.
     Inr (r' # rs')))"

definition validate :: "casemap \<Rightarrow> policy \<Rightarrow> policy_error + policy" where
  "validate cm p =
     guardE (p_version p \<noteq> 1) (BadVersion (p_version p))
     (guardE (p_default p \<noteq> Allow \<and> p_default p \<noteq> Deny) (BadDefault (p_default p))
     (bindE (validate_rules cm 0 [] (p_rules p)) (\<lambda>rs. Inr (p\<lparr>p_rules := rs\<rparr>))))"

section \<open>Parsing\<close>

text \<open>
  What the strict YAML decoder answers on a document: end of file on an empty one, an error,
  or the decoded policy with whether a second document follows it. The decoder is third-party
  code and a parameter of \<open>Parse\<close>.
\<close>

datatype yaml_result =
    YamlEOF
  | YamlError string
  | YamlDoc policy bool

datatype parse_error =
    YamlProblem string
  | MultipleDocuments
  | Invalid policy_error

definition zero_policy :: policy where
  "zero_policy = \<lparr>p_version = 0, p_default = [], p_rules = []\<rparr>"

definition invalid :: "policy_error + 'a \<Rightarrow> parse_error + 'a" where
  "invalid x = (case x of Inl e \<Rightarrow> Inl (Invalid e) | Inr a \<Rightarrow> Inr a)"

definition Parse :: "(string \<Rightarrow> yaml_result) \<Rightarrow> casemap \<Rightarrow> string \<Rightarrow> parse_error + policy" where
  "Parse yaml cm data =
     (case yaml data of
        YamlEOF \<Rightarrow> invalid (validate cm zero_policy)
      | YamlError e \<Rightarrow> Inl (YamlProblem e)
      | YamlDoc p extra \<Rightarrow> guardE extra MultipleDocuments (invalid (validate cm p)))"

section \<open>Evaluation\<close>

text \<open>
  \<open>hostMatches\<close>: equality, or the wildcard \<open>*.suffix\<close>, which stands for one or more
  labels, none of them empty.
\<close>

definition hostMatches :: "string \<Rightarrow> string \<Rightarrow> bool" where
  "hostMatches pattern host =
     (case CutPrefix pattern ''*.'' of
        Some suf \<Rightarrow>
          (case CutSuffix host (''.'' @ suf) of
             None \<Rightarrow> False
           | Some rest \<Rightarrow> list_all (\<lambda>label. label \<noteq> []) (Split rest CHR ''.''))
      | None \<Rightarrow> pattern = host)"

definition matchesHost :: "rule \<Rightarrow> string \<Rightarrow> bool" where
  "matchesHost r host = list_ex (\<lambda>pattern. hostMatches pattern host) (elems (r_hosts r))"

definition matchesPort :: "rule \<Rightarrow> int \<Rightarrow> bool" where
  "matchesPort r port =
     (let ports = (if length (elems (r_ports r)) = 0 then defaultPorts else elems (r_ports r))
      in list_ex (\<lambda>p. p = port) ports)"

definition matchesMethod :: "rule \<Rightarrow> string \<Rightarrow> bool" where
  "matchesMethod r method =
     (if length (elems (r_methods r)) = 0 then True
      else list_ex (\<lambda>m. m = method) (elems (r_methods r)))"

definition pathHasPrefix :: "string \<Rightarrow> string \<Rightarrow> bool" where
  "pathHasPrefix path pre =
     (if \<not> HasPrefix path pre then False
      else let rest = drop (length pre) path
           in rest = [] \<or> HasSuffix pre ''/'' \<or> HasPrefix rest ''/'')"

definition matchesPath :: "rule \<Rightarrow> string \<Rightarrow> bool" where
  "matchesPath r path =
     (if length (elems (r_paths r)) = 0 then True
      else list_ex (pathHasPrefix path) (elems (r_paths r)))"

definition allow_by :: "rule \<Rightarrow> decision" where
  "allow_by r = \<lparr>d_action = Allow, d_rule = r_name r, d_reason = ''matched rule '' @ r_name r\<rparr>"

text \<open>The loop of \<open>Evaluate\<close>: a decision, or the near miss it fell off the end with.\<close>

fun eval_rules :: "request \<Rightarrow> string \<Rightarrow> string \<Rightarrow> rule list \<Rightarrow> string + decision" where
  "eval_rules req host nearMiss [] = Inl nearMiss"
| "eval_rules req host nearMiss (r # rs) =
     (if \<not> matchesHost r host \<or> \<not> matchesPort r (q_port req) then eval_rules req host nearMiss rs
      else if q_kind req = KindConnect then
        (if constrained r then
           eval_rules req host (if nearMiss = [] then r_name r else nearMiss) rs
         else Inr (allow_by r))
      else if \<not> matchesMethod r (q_method req) \<or> \<not> matchesPath r (q_path req) then
        eval_rules req host nearMiss rs
      else Inr (allow_by r))"

definition near_miss_reason :: "string \<Rightarrow> string" where
  "near_miss_reason name =
     ''rule '' @ name
     @ '' matched host but constrains method or path, which cannot be enforced inside a tunnel''"

definition Evaluate :: "casemap \<Rightarrow> policy \<Rightarrow> request \<Rightarrow> decision" where
  "Evaluate cm p req =
     (case eval_rules req (ToLower cm (q_host req)) [] (p_rules p) of
        Inr d \<Rightarrow> d
      | Inl nearMiss \<Rightarrow>
          (if p_default p = Allow then
             \<lparr>d_action = Allow, d_rule = [], d_reason = ''default action is allow''\<rparr>
           else if nearMiss \<noteq> [] then
             \<lparr>d_action = Deny, d_rule = [], d_reason = near_miss_reason nearMiss\<rparr>
           else \<lparr>d_action = Deny, d_rule = [], d_reason = ''no rule matched''\<rparr>))"

section \<open>Host patterns\<close>

lemma Join_append:
  "xs \<noteq> [] \<Longrightarrow> ys \<noteq> [] \<Longrightarrow> Join (xs @ ys) sep = Join xs sep @ sep # Join ys sep"
proof (induction xs sep rule: Join.induct)
  case (2 w sep)
  then show ?case by (cases ys) auto
qed auto

lemma Join_eq_Split: "Split s sep = ws \<Longrightarrow> s = Join ws sep"
  by (metis Join_Split)

lemma hostMatches_exact: "\<not> HasPrefix pattern ''*.'' \<Longrightarrow> hostMatches pattern host \<longleftrightarrow> pattern = host"
  by (simp add: hostMatches_def CutPrefix_None_iff [THEN iffD2])

lemma hostMatches_star:
  "hostMatches (''*.'' @ suf) host \<longleftrightarrow>
     (\<exists>rest. host = rest @ ''.'' @ suf \<and> list_all (\<lambda>l. l \<noteq> []) (Split rest CHR ''.''))"
proof -
  have "CutPrefix (''*.'' @ suf) ''*.'' = Some suf" by (simp add: CutPrefix_Some_iff)
  then have "hostMatches (''*.'' @ suf) host \<longleftrightarrow>
      (\<exists>rest. CutSuffix host (''.'' @ suf) = Some rest
        \<and> list_all (\<lambda>l. l \<noteq> []) (Split rest CHR ''.''))"
    by (simp add: hostMatches_def split: option.splits)
  then show ?thesis by (simp add: CutSuffix_Some_iff)
qed

text \<open>C38. A wildcard pattern \<open>*.suffix\<close> matches exactly the names made of one or more labels,
  each non-empty and without a dot, followed by a dot and the suffix.
\<close>

theorem hostMatches_wildcard:
  "hostMatches (''*.'' @ suf) host \<longleftrightarrow>
     (\<exists>labels. labels \<noteq> [] \<and> list_all (\<lambda>l. l \<noteq> [] \<and> CHR ''.'' \<notin> set l) labels
        \<and> host = Join labels CHR ''.'' @ ''.'' @ suf)" (is "?L \<longleftrightarrow> ?R")
proof
  assume ?L
  then obtain rest where h: "host = rest @ ''.'' @ suf"
    and ne: "list_all (\<lambda>l. l \<noteq> []) (Split rest CHR ''.'')"
    unfolding hostMatches_star by blast
  let ?ls = "Split rest CHR ''.''"
  have "list_all (\<lambda>l. l \<noteq> [] \<and> CHR ''.'' \<notin> set l) ?ls"
    using ne Split_pieces [of _ rest "CHR ''.''"] by (auto simp: list_all_iff)
  moreover have "host = Join ?ls CHR ''.'' @ ''.'' @ suf" using h by simp
  ultimately show ?R using Split_not_Nil [of rest "CHR ''.''"] by blast
next
  assume ?R
  then obtain ls where ls: "ls \<noteq> []" "list_all (\<lambda>l. l \<noteq> [] \<and> CHR ''.'' \<notin> set l) ls"
    and h: "host = Join ls CHR ''.'' @ ''.'' @ suf" by blast
  then have "Split (Join ls CHR ''.'') CHR ''.'' = ls"
    by (intro Split_Join) (auto simp: list_all_iff)
  with ls have "list_all (\<lambda>l. l \<noteq> []) (Split (Join ls CHR ''.'') CHR ''.'')"
    by (simp add: list_all_iff)
  with h show ?L unfolding hostMatches_star by blast
qed

lemma hostMatches_not_apex: "\<not> hostMatches (''*.'' @ suf) suf"
  unfolding hostMatches_star by auto

section \<open>Path prefixes\<close>

lemma prefix_Split_cases:
  assumes "Split path sep = Split q sep @ ws" "ws \<noteq> []"
  shows "path = q @ sep # Join ws sep"
  using Join_eq_Split [OF assms(1)] assms(2) by (simp add: Join_append)

text \<open>C37. Path rules match on segment boundaries: a prefix written without a trailing slash covers
  exactly the paths whose segments extend its own, one written with a trailing slash exactly
  those that go on below it.
\<close>

theorem pathHasPrefix_segments:
  "pathHasPrefix path pre \<longleftrightarrow>
     (if HasSuffix pre ''/''
      then \<exists>ws. ws \<noteq> [] \<and> Split path CHR ''/'' = butlast (Split pre CHR ''/'') @ ws
      else prefix (Split pre CHR ''/'') (Split path CHR ''/''))"
proof (cases "HasSuffix pre ''/''")
  case True
  then obtain q where q: "pre = q @ ''/''" by (auto simp: HasSuffix_iff)
  then have b: "butlast (Split pre CHR ''/'') = Split q CHR ''/''"
    using Split_append [of q "CHR ''/''" "[]"] by simp
  have "pathHasPrefix path pre \<longleftrightarrow> HasPrefix path pre"
    using True by (simp add: pathHasPrefix_def Let_def)
  also have "\<dots> \<longleftrightarrow> (\<exists>rest. path = q @ CHR ''/'' # rest)"
    by (simp add: q HasPrefix_iff)
  also have "\<dots> \<longleftrightarrow> (\<exists>ws. ws \<noteq> [] \<and> Split path CHR ''/'' = Split q CHR ''/'' @ ws)"
    by (metis Split_append Split_not_Nil prefix_Split_cases)
  finally show ?thesis using True b by simp
next
  case False
  then have "pathHasPrefix path pre \<longleftrightarrow> path = pre \<or> (\<exists>rest. path = pre @ CHR ''/'' # rest)"
    by (auto simp: pathHasPrefix_def Let_def HasPrefix_iff)
  also have "\<dots> \<longleftrightarrow> prefix (Split pre CHR ''/'') (Split path CHR ''/'')"
    by (metis Join_Split Split_append append_Nil2 prefixE prefixI prefix_Split_cases)
  finally show ?thesis using False by simp
qed

section \<open>Evaluation: first match\<close>

text \<open>
  The specification: the first rule that authorises the request decides; failing that, the
  default; the reason of a denied tunnel names the first rule that matched but was constrained.
\<close>

definition authorises :: "request \<Rightarrow> string \<Rightarrow> rule \<Rightarrow> bool" where
  "authorises req host r \<longleftrightarrow>
     matchesHost r host \<and> matchesPort r (q_port req)
     \<and> (if q_kind req = KindConnect then \<not> constrained r
        else matchesMethod r (q_method req) \<and> matchesPath r (q_path req))"

definition nearly :: "request \<Rightarrow> string \<Rightarrow> rule \<Rightarrow> bool" where
  "nearly req host r \<longleftrightarrow>
     matchesHost r host \<and> matchesPort r (q_port req)
     \<and> q_kind req = KindConnect \<and> constrained r \<and> r_name r \<noteq> []"

lemma eval_rules_find:
  "eval_rules req host nm rs =
     (case find (authorises req host) rs of
        Some r \<Rightarrow> Inr (allow_by r)
      | None \<Rightarrow> Inl (if nm \<noteq> [] then nm
                    else case find (nearly req host) rs of Some r \<Rightarrow> r_name r | None \<Rightarrow> []))"
  by (induction req host nm rs rule: eval_rules.induct)
    (auto simp: authorises_def nearly_def split: option.splits)

lemma Evaluate_find:
  "Evaluate cm p req =
     (let host = ToLower cm (q_host req)
      in case find (authorises req host) (p_rules p) of
           Some r \<Rightarrow> allow_by r
         | None \<Rightarrow>
             (if p_default p = Allow
              then \<lparr>d_action = Allow, d_rule = [], d_reason = ''default action is allow''\<rparr>
              else \<lparr>d_action = Deny, d_rule = [],
                    d_reason = (case find (nearly req host) (p_rules p) of
                                  Some r \<Rightarrow> near_miss_reason (r_name r)
                                | None \<Rightarrow> ''no rule matched'')\<rparr>))"
proof (cases "find (nearly req (ToLower cm (q_host req))) (p_rules p)")
  case None
  then show ?thesis by (simp add: Evaluate_def eval_rules_find Let_def split: option.split)
next
  case (Some r)
  then have "r_name r \<noteq> []" by (auto simp: nearly_def find_Some_iff)
  with Some show ?thesis by (simp add: Evaluate_def eval_rules_find Let_def split: option.split)
qed

lemma find_None_ex: "find P xs = None \<longleftrightarrow> \<not> (\<exists>x \<in> set xs. P x)"
  by (auto simp: find_None_iff)

lemma Evaluate_action:
  "d_action (Evaluate cm p req) =
     (if p_default p = Allow \<or> (\<exists>r \<in> set (p_rules p). authorises req (ToLower cm (q_host req)) r)
      then Allow else Deny)"
  unfolding Evaluate_find Let_def
  by (auto simp: allow_by_def find_None_ex find_Some_iff split: option.splits)

lemma Evaluate_actions: "d_action (Evaluate cm p req) \<in> {Allow, Deny}"
  by (simp add: Evaluate_action)

lemma Evaluate_deny_rule: "d_action (Evaluate cm p req) \<noteq> Allow \<Longrightarrow> d_rule (Evaluate cm p req) = []"
  by (auto simp: Evaluate_find Let_def allow_by_def split: option.splits)

text \<open>For a tunnel the method and the path of the question are not looked at.\<close>

lemma authorises_connect_blind:
  "q_kind req = KindConnect \<Longrightarrow>
     authorises (req\<lparr>q_method := m, q_path := x\<rparr>) host r = authorises req host r"
  by (simp add: authorises_def)

lemma nearly_connect_blind:
  "nearly (req\<lparr>q_method := m, q_path := x\<rparr>) host r = nearly req host r"
  by (simp add: nearly_def)

lemma Evaluate_connect_blind:
  assumes "q_kind req = KindConnect"
  shows "Evaluate cm p (req\<lparr>q_method := m, q_path := x\<rparr>) = Evaluate cm p req"
proof -
  have "authorises (req\<lparr>q_method := m, q_path := x\<rparr>) = authorises req"
    using assms by (intro ext) (simp add: authorises_connect_blind)
  moreover have "nearly (req\<lparr>q_method := m, q_path := x\<rparr>) = nearly req"
    by (intro ext) (simp add: nearly_connect_blind)
  ultimately show ?thesis by (simp add: Evaluate_find Let_def split: option.split)
qed

text \<open>Constraining a rule, or listing its ports, only narrows what it authorises.\<close>

lemma authorises_unconstrained:
  "authorises req host r \<Longrightarrow> authorises req host (r\<lparr>r_methods := None, r_paths := None\<rparr>)"
  by (auto simp: authorises_def matchesHost_def matchesPort_def matchesMethod_def matchesPath_def
      constrained_def Let_def split: if_splits)

section \<open>Valid policies\<close>

definition valid_host :: "string \<Rightarrow> bool" where
  "valid_host h \<longleftrightarrow> h \<noteq> []
     \<and> (CHR ''*'' \<in> set h \<longrightarrow> (\<exists>d. h = ''*.'' @ d \<and> d \<noteq> [] \<and> CHR ''*'' \<notin> set d))"

definition valid_rule :: "rule \<Rightarrow> bool" where
  "valid_rule r \<longleftrightarrow> r_name r \<noteq> [] \<and> elems (r_hosts r) \<noteq> []
     \<and> list_all valid_host (elems (r_hosts r))
     \<and> \<not> writtenButEmpty (r_methods r) \<and> \<not> writtenButEmpty (r_paths r) \<and> \<not> writtenButEmpty (r_ports r)
     \<and> set (elems (r_methods r)) \<subseteq> set knownMethods
     \<and> list_all (\<lambda>x. HasPrefix x ''/'') (elems (r_paths r))
     \<and> list_all (\<lambda>x. 1 \<le> x \<and> x \<le> 65535) (elems (r_ports r))"

definition valid_policy :: "policy \<Rightarrow> bool" where
  "valid_policy p \<longleftrightarrow> p_version p = 1 \<and> p_default p \<in> {Allow, Deny}
     \<and> list_all valid_rule (p_rules p) \<and> distinct (map r_name (p_rules p))"

lemma traverse_slice_Inr_pred:
  assumes "traverse_slice f s = Inr t" and "\<And>x y. f x = Inr y \<Longrightarrow> P y"
  shows "list_all P (elems t)"
  using assms traverse_Inr_pred [of f _ _ P]
  by (auto simp: traverse_slice_def bindE_Inr_iff split: option.splits)

lemma traverse_length: "traverse f xs = Inr ys \<Longrightarrow> length ys = length xs"
  by (auto simp: traverse_Inr_iff dest: list_all2_lengthD)

lemma traverse_slice_shape:
  assumes "traverse_slice f s = Inr t"
  shows "writtenButEmpty t = writtenButEmpty s" and "elems t = [] \<longleftrightarrow> elems s = []"
  using assms
  by (auto simp: traverse_slice_def writtenButEmpty_def bindE_Inr_iff dest!: traverse_length
      split: option.splits)

lemma traverse_slice_same:
  assumes "traverse_slice f s = Inr t" and "\<And>x y. f x = Inr y \<Longrightarrow> y = x"
  shows "t = s"
proof (cases s)
  case None
  with assms(1) show ?thesis by (simp add: traverse_slice_def)
next
  case (Some xs)
  with assms(1) obtain ys where "traverse f xs = Inr ys" and t: "t = Some ys"
    by (auto simp: traverse_slice_def bindE_Inr_iff)
  have "list_all2 (=) xs ys"
    using \<open>traverse f xs = Inr ys\<close> unfolding traverse_Inr_iff
    by (rule list_all2_mono) (metis assms(2))
  with t Some show ?thesis by (simp add: list.rel_eq)
qed

lemma validate_host_valid: "validate_host cm name h0 = Inr h \<Longrightarrow> valid_host h"
proof -
  assume "validate_host cm name h0 = Inr h"
  then have ne: "h \<noteq> []"
    and star: "CHR ''*'' \<in> set h \<Longrightarrow> HasPrefix h ''*.'' \<and> \<not> CHR ''*'' \<in> set (drop 2 h) \<and> h \<noteq> ''*.''"
    by (auto simp: validate_host_def Let_def guardE_Inr_iff Contains_single split: if_splits)
  have "\<exists>d. h = ''*.'' @ d \<and> d \<noteq> [] \<and> CHR ''*'' \<notin> set d" if "CHR ''*'' \<in> set h"
  proof -
    from star [OF that] obtain d where "h = ''*.'' @ d" by (auto simp: HasPrefix_iff)
    with star [OF that] show ?thesis by auto
  qed
  with ne show ?thesis by (auto simp: valid_host_def)
qed

lemma validate_method_known: "validate_method cm name m0 = Inr m \<Longrightarrow> m \<in> set knownMethods"
  by (auto simp: validate_method_def Let_def guardE_Inr_iff)

lemma validate_path_same:
  "validate_path name x = Inr y \<Longrightarrow> y = x" "validate_path name x = Inr y \<Longrightarrow> HasPrefix y ''/''"
  by (auto simp: validate_path_def guardE_Inr_iff)

lemma validate_port_same:
  "validate_port name x = Inr y \<Longrightarrow> y = x"
  "validate_port name x = Inr y \<Longrightarrow> 1 \<le> y \<and> y \<le> 65535"
  by (auto simp: validate_port_def guardE_Inr_iff)

text \<open>What a rule that passed validation looks like; its paths and ports are untouched.\<close>

lemma validate_rule_Inr:
  assumes "validate_rule cm i seen r = Inr r'"
  obtains hosts methods where
    "r' = r\<lparr>r_hosts := hosts, r_methods := methods\<rparr>" "r_name r \<noteq> []" "r_name r \<notin> set seen"
    "elems (r_hosts r) \<noteq> []"
    "traverse_slice (validate_host cm (r_name r)) (r_hosts r) = Inr hosts"
    "\<not> writtenButEmpty (r_methods r)" "\<not> writtenButEmpty (r_paths r)" "\<not> writtenButEmpty (r_ports r)"
    "traverse_slice (validate_method cm (r_name r)) (r_methods r) = Inr methods"
    "traverse_slice (validate_path (r_name r)) (r_paths r) = Inr (r_paths r)"
    "traverse_slice (validate_port (r_name r)) (r_ports r) = Inr (r_ports r)"
proof -
  from assms obtain hosts methods paths ports where
    "r' = r\<lparr>r_hosts := hosts, r_methods := methods\<rparr>" "r_name r \<noteq> []" "r_name r \<notin> set seen"
    "elems (r_hosts r) \<noteq> []"
    "traverse_slice (validate_host cm (r_name r)) (r_hosts r) = Inr hosts"
    "\<not> writtenButEmpty (r_methods r)" "\<not> writtenButEmpty (r_paths r)" "\<not> writtenButEmpty (r_ports r)"
    "traverse_slice (validate_method cm (r_name r)) (r_methods r) = Inr methods"
    and pp: "traverse_slice (validate_path (r_name r)) (r_paths r) = Inr paths"
    "traverse_slice (validate_port (r_name r)) (r_ports r) = Inr ports"
    by (auto simp: validate_rule_def guardE_Inr_iff bindE_Inr_iff)
  moreover have "paths = r_paths r" "ports = r_ports r"
    using pp by (auto intro!: traverse_slice_same validate_path_same validate_port_same)
  ultimately show thesis using that by blast
qed

lemma validate_rule_valid:
  assumes "validate_rule cm i seen r = Inr r'"
  shows "valid_rule r' \<and> r_name r' = r_name r \<and> r_name r \<notin> set seen"
  using assms
proof (rule validate_rule_Inr)
  fix hosts methods
  assume r': "r' = r\<lparr>r_hosts := hosts, r_methods := methods\<rparr>"
    and name: "r_name r \<noteq> []" "r_name r \<notin> set seen"
    and h: "elems (r_hosts r) \<noteq> []" "traverse_slice (validate_host cm (r_name r)) (r_hosts r) = Inr hosts"
    and w: "\<not> writtenButEmpty (r_methods r)" "\<not> writtenButEmpty (r_paths r)"
    "\<not> writtenButEmpty (r_ports r)"
    and m: "traverse_slice (validate_method cm (r_name r)) (r_methods r) = Inr methods"
    and pa: "traverse_slice (validate_path (r_name r)) (r_paths r) = Inr (r_paths r)"
    and po: "traverse_slice (validate_port (r_name r)) (r_ports r) = Inr (r_ports r)"
  have "list_all valid_host (elems hosts)"
    using h(2) validate_host_valid by (rule traverse_slice_Inr_pred)
  moreover have "list_all (\<lambda>x. x \<in> set knownMethods) (elems methods)"
    using m validate_method_known by (rule traverse_slice_Inr_pred)
  moreover have "list_all (\<lambda>x. HasPrefix x ''/'') (elems (r_paths r))"
    using pa validate_path_same(2) by (rule traverse_slice_Inr_pred)
  moreover have "list_all (\<lambda>x. 1 \<le> x \<and> x \<le> 65535) (elems (r_ports r))"
    using po validate_port_same(2) by (rule traverse_slice_Inr_pred)
  ultimately show ?thesis
    using r' name h w traverse_slice_shape [OF h(2)] traverse_slice_shape [OF m]
    by (auto simp: valid_rule_def list_all_iff)
qed

lemma validate_rules_valid:
  "validate_rules cm i seen rs = Inr rs' \<Longrightarrow>
     list_all valid_rule rs' \<and> map r_name rs' = map r_name rs
     \<and> distinct (map r_name rs) \<and> set (map r_name rs) \<inter> set seen = {}"
proof (induction cm i seen rs arbitrary: rs' rule: validate_rules.induct)
  case (2 cm i seen r rs)
  from "2.prems" obtain r' rs2 where r': "validate_rule cm i seen r = Inr r'"
    and rs2: "validate_rules cm (Suc i) (r_name r # seen) rs = Inr rs2" and eq: "rs' = r' # rs2"
    by (auto simp: bindE_Inr_iff)
  from "2.IH" [OF rs2] validate_rule_valid [OF r'] eq show ?case by auto
qed simp

lemma validate_Inr:
  "validate cm p = Inr p' \<longleftrightarrow>
     p_version p = 1 \<and> p_default p \<in> {Allow, Deny}
     \<and> (\<exists>rs. validate_rules cm 0 [] (p_rules p) = Inr rs \<and> p' = p\<lparr>p_rules := rs\<rparr>)"
  by (auto simp: validate_def guardE_Inr_iff bindE_Inr_iff)

lemma validate_valid: "validate cm p = Inr p' \<Longrightarrow> valid_policy p'"
  using validate_rules_valid [of cm 0 "[]" "p_rules p"]
  by (auto simp: validate_Inr valid_policy_def)

lemma Parse_Inr:
  "Parse yaml cm data = Inr p \<Longrightarrow>
     \<exists>p0. yaml data = YamlDoc p0 False \<and> validate cm p0 = Inr p"
proof -
  assume p: "Parse yaml cm data = Inr p"
  have zero: "validate cm zero_policy = Inl (BadVersion 0)"
    by (simp add: validate_def zero_policy_def)
  from p obtain p0 where y: "yaml data = YamlDoc p0 False" and "invalid (validate cm p0) = Inr p"
    by (cases "yaml data") (auto simp: Parse_def zero invalid_def guardE_Inr_iff)
  then show ?thesis by (cases "validate cm p0") (auto simp: invalid_def)
qed

lemma Parse_valid: "Parse yaml cm data = Inr p \<Longrightarrow> valid_policy p"
  using Parse_Inr validate_valid by blast

text \<open>Known methods are upper case already, and a valid, normalised policy validates to itself.\<close>

lemma knownMethods_upper:
  "list_all (\<lambda>m. trimmed m \<and> ascii m \<and> map upper_char m = m) knownMethods"
  by (simp add: knownMethods_def trimmedI ascii_def upper_char_def)

lemma validate_method_fixed: "m \<in> set knownMethods \<Longrightarrow> validate_method cm name m = Inr m"
  using knownMethods_upper
  by (auto simp: validate_method_def list_all_iff TrimSpace_trimmed ToUpper_ascii)

lemma validate_host_fixed:
  assumes "valid_host h" and "ToLower cm (TrimSpace h) = h"
  shows "validate_host cm name h = Inr h"
  using assms
  by (auto simp: validate_host_def valid_host_def Let_def Contains_single guardE_def HasPrefix_def)

lemma traverse_slice_id:
  "(\<And>x. x \<in> set (elems s) \<Longrightarrow> f x = Inr x) \<Longrightarrow> traverse_slice f s = Inr s"
  by (cases s) (auto simp: traverse_slice_def traverse_id)

definition normal_hosts :: "casemap \<Rightarrow> rule \<Rightarrow> bool" where
  "normal_hosts cm r \<longleftrightarrow> list_all (\<lambda>h. ToLower cm (TrimSpace h) = h) (elems (r_hosts r))"

lemma validate_rule_fixed:
  assumes "valid_rule r" "normal_hosts cm r" "r_name r \<notin> set seen"
  shows "validate_rule cm i seen r = Inr r"
proof -
  have "traverse_slice (validate_host cm (r_name r)) (r_hosts r) = Inr (r_hosts r)"
    using assms by (intro traverse_slice_id validate_host_fixed)
      (auto simp: valid_rule_def normal_hosts_def list_all_iff)
  moreover have "traverse_slice (validate_method cm (r_name r)) (r_methods r) = Inr (r_methods r)"
    using assms by (intro traverse_slice_id validate_method_fixed) (auto simp: valid_rule_def)
  moreover have "traverse_slice (validate_path (r_name r)) (r_paths r) = Inr (r_paths r)"
    using assms by (intro traverse_slice_id) (auto simp: valid_rule_def validate_path_def list_all_iff)
  moreover have "traverse_slice (validate_port (r_name r)) (r_ports r) = Inr (r_ports r)"
    using assms by (intro traverse_slice_id)
      (auto simp: valid_rule_def validate_port_def list_all_iff guardE_def)
  ultimately show ?thesis
    using assms by (simp add: validate_rule_def valid_rule_def)
qed

lemma validate_rules_fixed:
  "list_all valid_rule rs \<Longrightarrow> list_all (normal_hosts cm) rs \<Longrightarrow> distinct (map r_name rs)
     \<Longrightarrow> set (map r_name rs) \<inter> set seen = {} \<Longrightarrow> validate_rules cm i seen rs = Inr rs"
proof (induction rs arbitrary: i seen)
  case (Cons r rs)
  then have "validate_rule cm i seen r = Inr r" by (intro validate_rule_fixed) auto
  moreover have "validate_rules cm (Suc i) (r_name r # seen) rs = Inr rs"
    using Cons by auto
  ultimately show ?case by simp
qed simp

lemma validate_fixed:
  assumes "valid_policy p" and "list_all (normal_hosts cm) (p_rules p)"
  shows "validate cm p = Inr p"
  using assms validate_rules_fixed [of "p_rules p" cm "[]" 0]
  by (auto simp: validate_Inr valid_policy_def)

lemma lower_char_space:
  assumes "byte (lower_char c) < 33"
  shows "lower_char c = c"
  using assms by (auto simp: byte_lower_char split: if_splits) (auto simp: lower_char_def)

lemma lower_char_ascii: "byte c < 128 \<Longrightarrow> byte (lower_char c) < 128"
  by (simp add: byte_lower_char)

lemma trimmed_map_lower:
  assumes t: "trimmed t" and a: "ascii t"
  shows "trimmed (map lower_char t)"
proof -
  have head: "HasPrefix t e" if e: "e \<in> set space_runes" "HasPrefix (map lower_char t) e" for e
  proof -
    from e(2) obtain c t' where tc: "t = c # t'" "lower_char c = hd e" "e \<noteq> []"
      using space_runes_nonempty [OF e(1)] by (cases t; cases e) (auto simp: HasPrefix_def)
    with a have "byte (hd e) < 128" by (metis ascii_Cons lower_char_ascii)
    with e(1) space_runes_shape have "length e = 1" "byte (hd e) < 33"
      by (auto simp: list_all_iff)
    with tc lower_char_space [of c] show ?thesis by (cases e) (auto simp: HasPrefix_def)
  qed
  have last: "HasSuffix t e" if e: "e \<in> set space_runes" "HasSuffix (map lower_char t) e" for e
  proof -
    from e(2) obtain l where l: "map lower_char t = l @ e" by (auto simp: HasSuffix_iff)
    with space_runes_nonempty [OF e(1)] obtain t' c where tc: "t = t' @ [c]"
      by (cases t rule: rev_cases) auto
    with l space_runes_nonempty [OF e(1)] have lc: "lower_char c = last e"
      by (metis last_appendR last_snoc length_greater_0_conv list.simps(8,9) map_append)
    from tc a have "byte c < 128" by (simp add: ascii_Cons)
    with lc have "byte (last e) < 128" by (metis lower_char_ascii)
    with e(1) space_runes_shape have "length e = 1" "byte (hd e) < 33"
      by (auto simp: list_all_iff)
    with lc lower_char_space [of c] have "e = [c]" by (cases e) auto
    with tc show ?thesis by simp
  qed
  show ?thesis
    using t head last by (auto simp: trimmed_def space_head_def space_last_def find_None_iff)
qed

lemma ToLower_Trim_normal:
  assumes "ascii h"
  shows "ToLower cm (TrimSpace (ToLower cm (TrimSpace h))) = ToLower cm (TrimSpace h)"
proof -
  have "trimmed (map lower_char (TrimSpace h))"
    using assms by (intro trimmed_map_lower TrimSpace_is_trimmed) simp
  with assms show ?thesis by (simp add: ToLower_ascii TrimSpace_trimmed)
qed

definition ascii_hosts :: "policy \<Rightarrow> bool" where
  "ascii_hosts p \<longleftrightarrow> list_all (\<lambda>r. list_all ascii (elems (r_hosts r))) (p_rules p)"

lemma validate_host_normal:
  "validate_host cm name x = Inr y \<Longrightarrow> ascii x \<Longrightarrow> ToLower cm (TrimSpace y) = y"
  by (auto simp: validate_host_def Let_def guardE_Inr_iff ToLower_Trim_normal split: if_splits)

lemma traverse_host_normal:
  "traverse (validate_host cm name) xs = Inr ys \<Longrightarrow> list_all ascii xs
     \<Longrightarrow> list_all (\<lambda>h. ToLower cm (TrimSpace h) = h) ys"
  by (induction xs arbitrary: ys) (auto simp: bindE_Inr_iff dest: validate_host_normal)

lemma validate_rule_normal:
  assumes "validate_rule cm i seen r = Inr r'" and "list_all ascii (elems (r_hosts r))"
  shows "normal_hosts cm r'"
  using assms(1)
proof (rule validate_rule_Inr)
  fix hosts methods
  assume r': "r' = r\<lparr>r_hosts := hosts, r_methods := methods\<rparr>"
    and h: "traverse_slice (validate_host cm (r_name r)) (r_hosts r) = Inr hosts"
  show ?thesis
  proof (cases "r_hosts r")
    case (Some hs)
    with h obtain hs' where hs': "traverse (validate_host cm (r_name r)) hs = Inr hs'" "hosts = Some hs'"
      by (auto simp: traverse_slice_def bindE_Inr_iff)
    from hs'(1) assms(2) Some have "list_all (\<lambda>h. ToLower cm (TrimSpace h) = h) hs'"
      using traverse_host_normal by simp
    with r' hs'(2) show ?thesis by (simp add: normal_hosts_def)
  qed (use h r' in \<open>auto simp: traverse_slice_def normal_hosts_def\<close>)
qed

lemma validate_rules_normal:
  "validate_rules cm i seen rs = Inr rs' \<Longrightarrow>
     list_all (\<lambda>r. list_all ascii (elems (r_hosts r))) rs \<Longrightarrow> list_all (normal_hosts cm) rs'"
  by (induction cm i seen rs arbitrary: rs' rule: validate_rules.induct)
    (auto simp: bindE_Inr_iff dest: validate_rule_normal)

lemma validate_idem:
  assumes "validate cm p = Inr p'" and "ascii_hosts p"
  shows "validate cm p' = Inr p'"
proof -
  from assms(1) obtain rs where "validate_rules cm 0 [] (p_rules p) = Inr rs" "p' = p\<lparr>p_rules := rs\<rparr>"
    by (auto simp: validate_Inr)
  with assms(2) have "list_all (normal_hosts cm) (p_rules p')"
    using validate_rules_normal by (fastforce simp: ascii_hosts_def)
  with validate_valid [OF assms(1)] show ?thesis by (rule validate_fixed)
qed

end
