(* ===== verification/GoJson.thy ===== *)
theory GoJson
  imports GoStrings
begin

text \<open>
  The bytes Go's \<open>encoding/json\<close> writes for a string and reads back, at the level of
  UTF-8 sequences: the escapes of the encoder (HTML escaping on, as \<open>json.Marshal\<close> has it),
  the replacement of invalid UTF-8, and the decoder's treatment of escapes, surrogate pairs and
  invalid bytes. The record codec of the audit log is built on these.
\<close>

section \<open>UTF-8\<close>

definition cont :: "char \<Rightarrow> bool" where
  "cont c \<longleftrightarrow> 128 \<le> byte c \<and> byte c \<le> 191"

text \<open>
  The length of the well-formed multi-byte sequence a string begins with, 0 where there is
  none: the table of \<open>unicode/utf8\<close>, with the narrowed second bytes of E0, ED, F0 and F4.
\<close>

definition second_ok :: "nat \<Rightarrow> nat \<Rightarrow> bool" where
  "second_ok b b1 \<longleftrightarrow>
     (if b = 224 then 160 else if b = 240 then 144 else 128) \<le> b1
     \<and> b1 \<le> (if b = 237 then 159 else if b = 244 then 143 else 191)"

fun utf8_len :: "string \<Rightarrow> nat" where
  "utf8_len (c # c1 # s) =
     (let b = byte c; b1 = byte c1
      in if 194 \<le> b \<and> b \<le> 223 then (if cont c1 then 2 else 0)
         else if 224 \<le> b \<and> b \<le> 239 then
           (case s of c2 # _ \<Rightarrow> if second_ok b b1 \<and> cont c2 then 3 else 0 | [] \<Rightarrow> 0)
         else if 240 \<le> b \<and> b \<le> 244 then
           (case s of c2 # c3 # _ \<Rightarrow> if second_ok b b1 \<and> cont c2 \<and> cont c3 then 4 else 0
            | _ \<Rightarrow> 0)
         else 0)"
| "utf8_len _ = 0"

lemma utf8_len_le: "utf8_len s \<le> length s"
  by (cases s rule: utf8_len.cases) (auto simp: Let_def split: list.splits)

lemma utf8_len_pos: "utf8_len s \<noteq> 0 \<Longrightarrow> 2 \<le> utf8_len s"
  by (cases s rule: utf8_len.cases) (auto simp: Let_def split: list.splits if_splits)

text \<open>U+FFFD, the replacement character.\<close>

definition replacement :: string where
  "replacement = map chr [239, 191, 189]"

text \<open>Invalid bytes become replacement characters, one each.\<close>

function sanitize :: "string \<Rightarrow> string" where
  "sanitize [] = []"
| "sanitize (c # s) =
     (if byte c < 128 then c # sanitize s
      else if utf8_len (c # s) = 0 then replacement @ sanitize s
      else take (utf8_len (c # s)) (c # s) @ sanitize (drop (utf8_len (c # s)) (c # s)))"
  by pat_completeness auto
termination
  by (relation "measure length") (auto dest: utf8_len_pos)

function utf8_valid :: "string \<Rightarrow> bool" where
  "utf8_valid [] = True"
| "utf8_valid (c # s) =
     (if byte c < 128 then utf8_valid s
      else if utf8_len (c # s) = 0 then False
      else utf8_valid (drop (utf8_len (c # s)) (c # s)))"
  by pat_completeness auto
termination
  by (relation "measure length") (auto dest: utf8_len_pos)

declare sanitize.simps(2) [simp del] utf8_valid.simps(2) [simp del]

lemma sanitize_valid: "utf8_valid s \<Longrightarrow> sanitize s = s"
proof (induction s rule: utf8_valid.induct)
  case (2 c s)
  then show ?case
    by (auto simp: sanitize.simps(2) utf8_valid.simps(2) split: if_splits)
qed simp

lemma utf8_valid_ascii: "ascii s \<Longrightarrow> utf8_valid s"
  by (induction s) (auto simp: ascii_def utf8_valid.simps(2))

section \<open>Encoding a string\<close>

abbreviation bs :: char where
  "bs \<equiv> CHR 0x5C"

abbreviation dq :: char where
  "dq \<equiv> CHR 0x22"

definition hex_digit :: "nat \<Rightarrow> char" where
  "hex_digit n = (if n < 10 then chr (48 + n) else chr (87 + n))"

definition esc_byte :: "char \<Rightarrow> string" where
  "esc_byte c =
     (if c = dq \<or> c = bs then [bs, c]
      else if byte c = 8 then [bs, CHR ''b'']
      else if byte c = 12 then [bs, CHR ''f'']
      else if byte c = 10 then [bs, CHR ''n'']
      else if byte c = 13 then [bs, CHR ''r'']
      else if byte c = 9 then [bs, CHR ''t'']
      else if byte c < 32 \<or> c = CHR ''<'' \<or> c = CHR ''>'' \<or> c = CHR ''&''
        then bs # ''u00'' @ [hex_digit (byte c div 16), hex_digit (byte c mod 16)]
      else [c])"

text \<open>U+2028 and U+2029 are valid in JSON but escaped all the same.\<close>

definition esc_seq :: "string \<Rightarrow> string" where
  "esc_seq u =
     (if u = map chr [226, 128, 168] then bs # ''u2028''
      else if u = map chr [226, 128, 169] then bs # ''u2029''
      else u)"

function json_escape :: "string \<Rightarrow> string" where
  "json_escape [] = []"
| "json_escape (c # s) =
     (if byte c < 128 then esc_byte c @ json_escape s
      else if utf8_len (c # s) = 0 then bs # ''ufffd'' @ json_escape s
      else esc_seq (take (utf8_len (c # s)) (c # s)) @ json_escape (drop (utf8_len (c # s)) (c # s)))"
  by pat_completeness auto
termination
  by (relation "measure length") (auto dest: utf8_len_pos)

declare json_escape.simps(2) [simp del]

definition json_quote :: "string \<Rightarrow> string" where
  "json_quote s = dq # json_escape s @ [dq]"

section \<open>Decoding a string\<close>

definition hex_val :: "char \<Rightarrow> nat option" where
  "hex_val c =
     (if is_digit c then Some (byte c - 48)
      else if 97 \<le> byte c \<and> byte c \<le> 102 then Some (byte c - 87)
      else if 65 \<le> byte c \<and> byte c \<le> 70 then Some (byte c - 55)
      else None)"

text \<open>Four hex digits after \<open>\u\<close>, and a whole \<open>\uXXXX\<close> (\<open>getu4\<close>).\<close>

fun hex4 :: "string \<Rightarrow> (nat \<times> string) option" where
  "hex4 (a # b # c # d # s) =
     (case (hex_val a, hex_val b, hex_val c, hex_val d) of
        (Some w, Some x, Some y, Some z) \<Rightarrow> Some (w * 4096 + x * 256 + y * 16 + z, s)
      | _ \<Rightarrow> None)"
| "hex4 _ = None"

fun getu4 :: "string \<Rightarrow> (nat \<times> string) option" where
  "getu4 (c # d # s) = (if c = bs \<and> d = CHR ''u'' then hex4 s else None)"
| "getu4 _ = None"

definition encode_rune :: "nat \<Rightarrow> string" where
  "encode_rune r =
     (if r < 128 then [chr r]
      else if r < 2048 then map chr [192 + r div 64, 128 + r mod 64]
      else if r < 65536 then map chr [224 + r div 4096, 128 + r div 64 mod 64, 128 + r mod 64]
      else map chr [240 + r div 262144, 128 + r div 4096 mod 64, 128 + r div 64 mod 64,
                    128 + r mod 64])"

definition simple_escape :: "char \<Rightarrow> char option" where
  "simple_escape e =
     (if e = dq \<or> e = bs \<or> e = CHR ''/'' then Some e
      else if e = CHR ''b'' then Some (chr 8)
      else if e = CHR ''f'' then Some (chr 12)
      else if e = CHR ''n'' then Some (chr 10)
      else if e = CHR ''r'' then Some (chr 13)
      else if e = CHR ''t'' then Some (chr 9)
      else None)"

text \<open>
  A \<open>\u\<close> escape after the \<open>u\<close>: the decoded bytes and what is left. A high surrogate
  followed by an escaped low one is one rune, any other surrogate a replacement character.
\<close>

definition unicode_escape :: "string \<Rightarrow> (string \<times> string) option" where
  "unicode_escape t =
     (case hex4 t of
        None \<Rightarrow> None
      | Some (r, t1) \<Rightarrow>
          (if r < 55296 \<or> 57344 \<le> r then Some (encode_rune r, t1)
           else (case getu4 t1 of
                   Some (r1, t2) \<Rightarrow>
                     (if r < 56320 \<and> 56320 \<le> r1 \<and> r1 < 57344
                      then Some (encode_rune ((r - 55296) * 1024 + (r1 - 56320) + 65536), t2)
                      else Some (replacement, t1))
                 | None \<Rightarrow> Some (replacement, t1))))"

lemma hex4_length: "hex4 t = Some (r, t1) \<Longrightarrow> length t1 < length t"
  by (induction t rule: hex4.induct) (auto split: option.splits)

lemma getu4_length: "getu4 t = Some (r, t1) \<Longrightarrow> length t1 < length t"
  by (induction t rule: getu4.induct) (auto dest: hex4_length split: if_splits)

lemma unicode_escape_length: "unicode_escape t = Some (x, t1) \<Longrightarrow> length t1 < length t"
  unfolding unicode_escape_def
  by (auto dest!: hex4_length getu4_length split: option.splits if_splits)

definition prepend :: "string \<Rightarrow> (string \<times> string) option \<Rightarrow> (string \<times> string) option" where
  "prepend x r = map_option (\<lambda>(y, rest). (x @ y, rest)) r"

text \<open>The rest of a string literal after its opening quote: its value and what follows it.\<close>

function json_string :: "string \<Rightarrow> (string \<times> string) option" where
  "json_string [] = None"
| "json_string (c # s) =
     (if c = dq then Some ([], s)
      else if c = bs then
        (case s of
           [] \<Rightarrow> None
         | e # t \<Rightarrow>
             (if e = CHR ''u'' then
                (case unicode_escape t of
                   None \<Rightarrow> None
                 | Some (x, t1) \<Rightarrow> prepend x (json_string t1))
              else
                (case simple_escape e of
                   None \<Rightarrow> None
                 | Some x \<Rightarrow> prepend [x] (json_string t))))
      else if byte c < 32 then None
      else if byte c < 128 then prepend [c] (json_string s)
      else if utf8_len (c # s) = 0 then prepend replacement (json_string s)
      else prepend (take (utf8_len (c # s)) (c # s))
             (json_string (drop (utf8_len (c # s)) (c # s))))"
  by pat_completeness auto
termination
  by (relation "measure length") (auto dest: utf8_len_pos unicode_escape_length)

declare json_string.simps(2) [simp del]

lemma prepend_Some [simp]: "prepend x (Some (y, rest)) = Some (x @ y, rest)"
  by (simp add: prepend_def)

lemma prepend_None [simp]: "prepend x None = None"
  by (simp add: prepend_def)

lemma prepend_eq_Some: "prepend x r = Some (z, rest) \<longleftrightarrow> (\<exists>y. r = Some (y, rest) \<and> z = x @ y)"
  by (cases r) (auto simp: prepend_def)


section \<open>Reading back what was written\<close>

lemma hex_val_digit: "n < 16 \<Longrightarrow> hex_val (hex_digit n) = Some n"
  by (auto simp: hex_val_def hex_digit_def is_digit_def)

lemma hex4_u00:
  "n < 256 \<Longrightarrow> hex4 (''00'' @ [hex_digit (n div 16), hex_digit (n mod 16)] @ s) = Some (n, s)"
  by (simp add: hex_val_digit) (simp add: hex_val_def is_digit_def)

lemma hex4_consts:
  "hex4 (''2028'' @ s) = Some (8232, s)"
  "hex4 (''2029'' @ s) = Some (8233, s)"
  "hex4 (''fffd'' @ s) = Some (65533, s)"
  by (simp_all add: hex_val_def is_digit_def)

lemma unicode_escape_consts:
  "unicode_escape (''2028'' @ s) = Some (map chr [226, 128, 168], s)"
  "unicode_escape (''2029'' @ s) = Some (map chr [226, 128, 169], s)"
  "unicode_escape (''fffd'' @ s) = Some (replacement, s)"
  unfolding unicode_escape_def hex4_consts
  by (simp_all add: encode_rune_def replacement_def)

lemma json_string_plain:
  "32 \<le> byte c \<Longrightarrow> byte c < 128 \<Longrightarrow> c \<noteq> dq \<Longrightarrow> c \<noteq> bs \<Longrightarrow>
     json_string (c # s) = prepend [c] (json_string s)"
  by (simp add: json_string.simps(2))

lemma json_string_simple:
  "e \<noteq> CHR ''u'' \<Longrightarrow> simple_escape e = Some x \<Longrightarrow>
     json_string (bs # e # s) = prepend [x] (json_string s)"
  by (simp add: json_string.simps(2))

lemma json_string_u:
  "unicode_escape t = Some (x, t1) \<Longrightarrow> json_string (bs # CHR ''u'' # t) = prepend x (json_string t1)"
  by (simp add: json_string.simps(2))

lemma json_string_end [simp]: "json_string (dq # s) = Some ([], s)"
  by (simp add: json_string.simps(2))

lemma json_string_esc_byte:
  assumes "byte c < 128"
  shows "json_string (esc_byte c @ s) = prepend [c] (json_string s)"
proof -
  have u00: "json_string (bs # ''u00'' @ [hex_digit (byte c div 16), hex_digit (byte c mod 16)] @ s)
      = prepend [c] (json_string s)"
  proof -
    have "unicode_escape (''00'' @ [hex_digit (byte c div 16), hex_digit (byte c mod 16)] @ s)
        = Some ([c], s)"
      using assms unfolding unicode_escape_def hex4_u00 [OF byte_less_256]
      by (simp add: encode_rune_def)
    then show ?thesis using json_string_u by simp
  qed
  consider "c = dq \<or> c = bs" | "byte c = 8" | "byte c = 12" | "byte c = 10" | "byte c = 13"
    | "byte c = 9"
    | "c \<noteq> dq" "c \<noteq> bs" "byte c \<notin> {8, 9, 10, 12, 13}"
      "byte c < 32 \<or> c = CHR ''<'' \<or> c = CHR ''>'' \<or> c = CHR ''&''"
    | "c \<noteq> dq" "c \<noteq> bs" "\<not> byte c < 32" "c \<noteq> CHR ''<''" "c \<noteq> CHR ''>''" "c \<noteq> CHR ''&''"
    by fastforce
  then show ?thesis
  proof cases
    case 7
    then have "esc_byte c = bs # ''u00'' @ [hex_digit (byte c div 16), hex_digit (byte c mod 16)]"
      by (simp add: esc_byte_def)
    with u00 show ?thesis by simp
  next
    case 8
    then have "esc_byte c = [c]" by (simp add: esc_byte_def)
    with 8 assms show ?thesis by (simp add: json_string_plain)
  qed (auto simp: esc_byte_def json_string_simple simple_escape_def dest: chr_eqI)
qed

lemma utf8_len_take:
  assumes "utf8_len t \<noteq> 0"
  shows "utf8_len (take (utf8_len t) t @ r) = utf8_len t"
  using assms
  by (cases t rule: utf8_len.cases) (auto simp: Let_def split: list.splits if_splits)

lemma utf8_len_high: "utf8_len (c # s) \<noteq> 0 \<Longrightarrow> 194 \<le> byte c"
  by (cases "c # s" rule: utf8_len.cases) (auto simp: Let_def split: if_splits)

lemma json_string_seq:
  assumes "utf8_len (c # s) \<noteq> 0"
  shows "json_string (take (utf8_len (c # s)) (c # s) @ rest)
      = prepend (take (utf8_len (c # s)) (c # s)) (json_string rest)"
proof -
  let ?n = "utf8_len (c # s)" and ?u = "take (utf8_len (c # s)) (c # s)"
  have n: "?n \<le> length (c # s)" "2 \<le> ?n"
    using utf8_len_le [of "c # s"] utf8_len_pos [OF assms] by auto
  then obtain u' where u: "?u = c # u'" by (cases ?n) auto
  have len: "utf8_len (c # u' @ rest) = ?n"
    using utf8_len_take [OF assms, of rest] u by simp
  have lu: "length (c # u') = ?n" using n by (simp add: u [symmetric])
  have "194 \<le> byte c" using utf8_len_high [OF assms] .
  then have "c \<noteq> dq" "c \<noteq> bs" "\<not> byte c < 128" by auto
  then have "json_string (c # u' @ rest) = prepend (take ?n (c # u' @ rest))
      (json_string (drop ?n (c # u' @ rest)))"
    using assms len by (simp add: json_string.simps(2))
  moreover have "take ?n (c # u' @ rest) = c # u'" "drop ?n (c # u' @ rest) = rest"
    using lu by (metis append_Cons append_eq_conv_conj)+
  ultimately show ?thesis by (simp add: u)
qed

lemma json_string_esc_seq:
  assumes "utf8_len (c # s) \<noteq> 0"
  shows "json_string (esc_seq (take (utf8_len (c # s)) (c # s)) @ rest)
      = prepend (take (utf8_len (c # s)) (c # s)) (json_string rest)"
  using json_string_seq [OF assms, of rest]
    json_string_u [OF unicode_escape_consts(1), of rest] json_string_u [OF unicode_escape_consts(2), of rest]
  by (auto simp: esc_seq_def)

text \<open>Decoding an encoded string gives it back with its invalid bytes replaced.\<close>

lemma json_string_escape: "json_string (json_escape s @ dq # rest) = Some (sanitize s, rest)"
proof (induction s rule: json_escape.induct)
  case (2 c s)
  consider "byte c < 128" | "\<not> byte c < 128" "utf8_len (c # s) = 0"
    | "\<not> byte c < 128" "utf8_len (c # s) \<noteq> 0" by blast
  then show ?case
  proof cases
    case 1
    with 2 show ?thesis by (simp add: json_escape.simps(2) sanitize.simps(2) json_string_esc_byte)
  next
    case b: 2
    with 2 show ?thesis
      using json_string_u [OF unicode_escape_consts(3), of "json_escape s @ dq # rest"]
      by (simp add: json_escape.simps(2) sanitize.simps(2))
  next
    case 3
    with 2 show ?thesis by (simp add: json_escape.simps(2) sanitize.simps(2) json_string_esc_seq)
  qed
qed simp

lemma sanitize_app_seq:
  assumes "utf8_len (c # s) \<noteq> 0"
  shows "utf8_valid (take (utf8_len (c # s)) (c # s) @ t) = utf8_valid t"
proof -
  let ?n = "utf8_len (c # s)" and ?u = "take (utf8_len (c # s)) (c # s)"
  have n: "?n \<le> length (c # s)" "2 \<le> ?n"
    using utf8_len_le [of "c # s"] utf8_len_pos [OF assms] by auto
  then obtain u' where u: "?u = c # u'" by (cases ?n) auto
  have len: "utf8_len (c # u' @ t) = ?n" using utf8_len_take [OF assms, of t] u by simp
  have "drop ?n (c # u' @ t) = t"
    using n u by (metis append_Cons append_eq_conv_conj length_take min.absorb2)
  moreover have "\<not> byte c < 128" using utf8_len_high [OF assms] by auto
  ultimately show ?thesis using assms len by (simp add: u utf8_valid.simps(2))
qed

lemma utf8_len_replacement: "utf8_len (replacement @ t) = 3"
  by (simp add: replacement_def second_ok_def cont_def)

lemma utf8_valid_replacement: "utf8_valid (replacement @ t) = utf8_valid t"
  using sanitize_app_seq [of "chr 239" "map chr [191, 189] @ t" t] utf8_len_replacement [of t]
  by (simp add: replacement_def)

lemma utf8_valid_sanitize: "utf8_valid (sanitize s)"
proof (induction s rule: sanitize.induct)
  case (2 c s)
  then show ?case
    by (auto simp: sanitize.simps(2) utf8_valid.simps(2) [of c "sanitize s"]
        utf8_valid_replacement sanitize_app_seq)
qed simp

lemma sanitize_idem [simp]: "sanitize (sanitize s) = sanitize s"
  by (rule sanitize_valid) (rule utf8_valid_sanitize)

lemma sanitize_fixed_iff: "sanitize s = s \<longleftrightarrow> utf8_valid s"
  using sanitize_valid utf8_valid_sanitize by metis

section \<open>Reading on: a longer input\<close>

lemma hex4_app: "hex4 t = Some (r, t1) \<Longrightarrow> hex4 (t @ q) = Some (r, t1 @ q)"
  by (induction t rule: hex4.induct) (auto split: option.splits)

lemma utf8_len_app_dq:
  assumes "dq \<in> set s"
  shows "utf8_len (c # s @ q) = utf8_len (c # s)"
proof -
  have d: "\<not> cont dq" "\<not> second_ok b (byte dq)" for b by (auto simp: cont_def second_ok_def)
  obtain a s1 where s: "s = a # s1" using assms by (cases s) auto
  show ?thesis
  proof (cases "a = dq")
    case True
    with s d show ?thesis by (auto simp: Let_def split: list.splits)
  next
    case False
    with assms s obtain b s2 where s1: "s1 = b # s2" by (cases s1) auto
    show ?thesis
    proof (cases "b = dq")
      case True
      with s s1 d show ?thesis by (auto simp: Let_def split: list.splits)
    next
      case b: False
      with False assms s s1 obtain e s3 where "s2 = e # s3" by (cases s2) auto
      with s s1 show ?thesis by (simp add: Let_def)
    qed
  qed
qed

lemma unicode_escape_hex4: "unicode_escape t \<noteq> None \<Longrightarrow> hex4 t \<noteq> None"
  by (auto simp: unicode_escape_def split: option.splits)

lemma getu4_app:
  assumes "json_string t1 \<noteq> None"
  shows "getu4 (t1 @ q) = map_option (\<lambda>(r, t2). (r, t2 @ q)) (getu4 t1)"
proof (cases t1 rule: getu4.cases)
  case (1 c d s)
  show ?thesis
  proof (cases "c = bs \<and> d = CHR ''u''")
    case True
    with assms 1 have "unicode_escape s \<noteq> None"
      by (auto simp: json_string.simps(2) split: option.splits)
    then obtain r t where "hex4 s = Some (r, t)" using unicode_escape_hex4 by fastforce
    with True 1 show ?thesis by (simp add: hex4_app)
  next
    case False
    with 1 show ?thesis by auto
  qed
next
  case "2_1"
  with assms show ?thesis by simp
next
  fix c
  assume "2_2": "t1 = [c]"
  with assms have "c = dq" by (auto simp: json_string.simps(2) split: if_splits)
  with "2_2" show ?thesis by (cases q) auto
qed

lemma unicode_escape_app:
  assumes "unicode_escape t = Some (x, t1)" and "json_string t1 \<noteq> None"
  shows "unicode_escape (t @ q) = Some (x, t1 @ q)"
proof -
  from assms(1) obtain r s where h: "hex4 t = Some (r, s)"
    by (auto simp: unicode_escape_def split: option.splits)
  show ?thesis
  proof (cases "r < 55296 \<or> 57344 \<le> r")
    case True
    with assms(1) h show ?thesis by (auto simp: unicode_escape_def hex4_app)
  next
    case False
    show ?thesis
    proof (cases "getu4 s")
      case None
      with False h assms(1) have e: "x = replacement" "t1 = s" by (auto simp: unicode_escape_def)
      with assms(2) None have "getu4 (s @ q) = None" by (simp add: getu4_app)
      with False h e show ?thesis by (simp add: unicode_escape_def hex4_app)
    next
      case (Some p)
      obtain r1 s1 where p: "p = (r1, s1)" by (cases p)
      have "getu4 (s @ q) = Some (r1, s1 @ q)"
        using Some p by (cases s rule: getu4.cases) (auto simp: hex4_app split: if_splits)
      with False h assms(1) Some p show ?thesis
        by (auto simp: unicode_escape_def hex4_app split: if_splits)
    qed
  qed
qed

lemma hex4_set: "hex4 t = Some (r, t1) \<Longrightarrow> set t1 \<subseteq> set t"
  by (induction t rule: hex4.induct) (auto split: option.splits)

lemma unicode_escape_set: "unicode_escape t = Some (x, t1) \<Longrightarrow> set t1 \<subseteq> set t"
proof -
  assume a: "unicode_escape t = Some (x, t1)"
  have g: "set t2 \<subseteq> set s" if "getu4 s = Some (r1, t2)" for s r1 t2
    using that by (cases s rule: getu4.cases) (auto dest!: hex4_set split: if_splits)
  from a show ?thesis
    unfolding unicode_escape_def
    by (auto dest!: hex4_set split: option.splits if_splits) (blast dest: g)+
qed

lemma json_string_has_dq: "json_string s = Some (x, r) \<Longrightarrow> dq \<in> set s"
proof (induction s arbitrary: x rule: json_string.induct)
  case (2 c s)
  have d: "dq \<in> set s" if "dq \<in> set (drop (utf8_len (c # s)) (c # s))" "c \<noteq> dq"
    using in_set_dropD [OF that(1)] that(2) by simp
  from 2 show ?case
    by (auto simp: json_string.simps(2) prepend_eq_Some dest: d
        split: if_splits list.splits option.splits) (metis (no_types, lifting) subsetD unicode_escape_set)
qed simp

text \<open>A literal that ends in the input is read the same whatever follows the input.\<close>

lemma json_string_app: "json_string s = Some (x, r) \<Longrightarrow> json_string (s @ q) = Some (x, r @ q)"
proof (induction s arbitrary: x rule: json_string.induct)
  case (2 c s)
  consider "c = dq" | "c \<noteq> dq" "c = bs" | "c \<noteq> dq" "c \<noteq> bs" "byte c < 128"
    | "c \<noteq> dq" "c \<noteq> bs" "\<not> byte c < 128" by blast
  then show ?case
  proof cases
    case 2: 2
    from "2.prems" 2 obtain e t where s: "s = e # t"
      by (auto simp: json_string.simps(2) split: list.splits)
    show ?thesis
    proof (cases "e = CHR ''u''")
      case True
      with "2.prems" 2 s obtain y t1 z where u: "unicode_escape t = Some (y, t1)"
        and z: "json_string t1 = Some (z, r)" "x = y @ z"
        by (auto simp: json_string.simps(2) prepend_eq_Some split: option.splits)
      have "json_string (t1 @ q) = Some (z, r @ q)"
        using "2.IH" 2 s True u z(1) by auto
      moreover have "unicode_escape (t @ q) = Some (y, t1 @ q)"
        using u z(1) by (intro unicode_escape_app) auto
      ultimately show ?thesis using 2 s True z(2) by (simp add: json_string.simps(2))
    next
      case False
      with "2.prems" 2 s obtain y z where u: "simple_escape e = Some y"
        and z: "json_string t = Some (z, r)" "x = y # z"
        by (auto simp: json_string.simps(2) prepend_eq_Some split: option.splits)
      have "json_string (t @ q) = Some (z, r @ q)"
        using "2.IH" 2 s False u z(1) by auto
      with 2 s False u z(2) show ?thesis by (simp add: json_string.simps(2))
    qed
  next
    case 4
    have "dq \<in> set (c # s)" using "2.prems" by (rule json_string_has_dq)
    with 4 have len: "utf8_len (c # s @ q) = utf8_len (c # s)" by (simp add: utf8_len_app_dq)
    have le: "utf8_len (c # s) - Suc 0 \<le> length s" using utf8_len_le [of "c # s"] by simp
    show ?thesis
    proof (cases "utf8_len (c # s) = 0")
      case True
      with "2.prems" "2.IH" 4 len show ?thesis
        by (auto simp: json_string.simps(2) prepend_eq_Some)
    next
      case False
      with "2.prems" 4 obtain z where z: "json_string (drop (utf8_len (c # s)) (c # s)) = Some (z, r)"
        "x = take (utf8_len (c # s)) (c # s) @ z"
        by (auto simp: json_string.simps(2) prepend_eq_Some)
      have "json_string (drop (utf8_len (c # s)) (c # s) @ q) = Some (z, r @ q)"
        using "2.IH" 4 False z(1) by auto
      moreover have "drop (utf8_len (c # s)) (c # s @ q) = drop (utf8_len (c # s)) (c # s) @ q"
        using le False by (cases "utf8_len (c # s)") auto
      moreover have "take (utf8_len (c # s)) (c # s @ q) = take (utf8_len (c # s)) (c # s)"
        using le False by (cases "utf8_len (c # s)") auto
      ultimately show ?thesis
        using 4 False len z(2) by (simp add: json_string.simps(2) del: drop_append take_append)
    qed
  qed (use 2 in \<open>auto simp: json_string.simps(2) prepend_eq_Some split: if_splits\<close>)
qed simp

end
