(* ===== verification/AuditRecord.thy ===== *)
theory AuditRecord
  imports GoJson
begin

text \<open>
  \<open>Record\<close> of \<open>internal/audit/audit.go\<close> and its JSON codec: \<open>json.Marshal\<close> on the struct,
  fields in declaration order with the \<open>omitempty\<close> ones left out when zero, and
  \<open>json.Decoder\<close> with \<open>DisallowUnknownFields\<close>, which reads keys in any order, any case
  and any number of times. A decoding failure of any kind is \<open>None\<close>: the verifier only asks
  whether the line decoded. A value that no field of the record can hold (a boolean, an array,
  an object, a fraction) makes the decoder fail wherever it stands, so values are scalars here.
\<close>

section \<open>The record\<close>

record audit_record =
  a_seq :: uint64
  a_ts :: string
  a_kind :: string
  a_method :: string
  a_host :: string
  a_port :: int64
  a_path :: string
  a_decision :: string
  a_rule :: string
  a_reason :: string
  a_client :: string
  a_status :: int64
  a_bytes_up :: int64
  a_bytes_down :: int64
  a_duration_ms :: int64
  a_prev :: string
  a_hash :: string

definition zero_record :: audit_record where
  "zero_record =
     \<lparr>a_seq = 0, a_ts = [], a_kind = [], a_method = [], a_host = [], a_port = 0, a_path = [],
      a_decision = [], a_rule = [], a_reason = [], a_client = [], a_status = 0, a_bytes_up = 0,
      a_bytes_down = 0, a_duration_ms = 0, a_prev = [], a_hash = []\<rparr>"

section \<open>Marshal\<close>

datatype jval = JStr string | JUint uint64 | JInt int64

fun enc_val :: "jval \<Rightarrow> string" where
  "enc_val (JStr s) = json_quote s"
| "enc_val (JUint w) = dec (unat w)"
| "enc_val (JInt w) = Itoa (sint w)"

definition omitempty :: "string \<Rightarrow> jval \<Rightarrow> (string \<times> jval) list" where
  "omitempty k v = (if v \<in> {JStr [], JUint 0, JInt 0} then [] else [(k, v)])"

definition record_fields :: "audit_record \<Rightarrow> (string \<times> jval) list" where
  "record_fields r =
     [(''seq'', JUint (a_seq r)), (''ts'', JStr (a_ts r)), (''kind'', JStr (a_kind r))]
     @ omitempty ''method'' (JStr (a_method r))
     @ [(''host'', JStr (a_host r)), (''port'', JInt (a_port r))]
     @ omitempty ''path'' (JStr (a_path r))
     @ [(''decision'', JStr (a_decision r))]
     @ omitempty ''rule'' (JStr (a_rule r))
     @ omitempty ''reason'' (JStr (a_reason r))
     @ omitempty ''client'' (JStr (a_client r))
     @ omitempty ''status'' (JInt (a_status r))
     @ [(''bytes_up'', JInt (a_bytes_up r)), (''bytes_down'', JInt (a_bytes_down r)),
        (''duration_ms'', JInt (a_duration_ms r)), (''prev'', JStr (a_prev r)),
        (''hash'', JStr (a_hash r))]"

definition enc_field :: "string \<times> jval \<Rightarrow> string" where
  "enc_field f = (case f of (k, v) \<Rightarrow> dq # k @ [dq, CHR '':''] @ enc_val v)"

definition marshal :: "audit_record \<Rightarrow> string" where
  "marshal r = ''{'' @ Join (map enc_field (record_fields r)) CHR '','' @ ''}''"

section \<open>Decode\<close>

definition json_ws :: "char \<Rightarrow> bool" where
  "json_ws c \<longleftrightarrow> byte c \<in> {9, 10, 13, 32}"

definition skip_ws :: "string \<Rightarrow> string" where
  "skip_ws s = dropWhile json_ws s"

datatype scalar = SStr string | SNum bool nat | SNull

definition parse_num :: "string \<Rightarrow> (scalar \<times> string) option" where
  "parse_num s =
     (let neg = HasPrefix s ''-'';
          t = (if neg then drop 1 s else s);
          ds = takeWhile is_digit t
      in if ds = [] \<or> hd ds = CHR ''0'' \<and> length ds \<noteq> 1 then None
         else Some (SNum neg (digits_val ds), dropWhile is_digit t))"

definition parse_scalar :: "string \<Rightarrow> (scalar \<times> string) option" where
  "parse_scalar s =
     (if HasPrefix s [dq] then map_option (\<lambda>(x, r). (SStr x, r)) (json_string (drop 1 s))
      else if HasPrefix s ''null'' then Some (SNull, drop 4 s)
      else parse_num s)"

text \<open>One \<open>"key": value\<close>, and what follows it, white space skipped.\<close>

definition parse_member :: "string \<Rightarrow> ((string \<times> scalar) \<times> string) option" where
  "parse_member s =
     (if HasPrefix s [dq] then
        (case json_string (drop 1 s) of
           None \<Rightarrow> None
         | Some (k, t1) \<Rightarrow>
             (if HasPrefix (skip_ws t1) '':'' then
                (case parse_scalar (skip_ws (drop 1 (skip_ws t1))) of
                   None \<Rightarrow> None
                 | Some (v, t2) \<Rightarrow> Some ((k, v), skip_ws t2))
              else None))
      else None)"

lemma skip_ws_length: "length (skip_ws s) \<le> length s"
  by (simp add: skip_ws_def length_dropWhile_le)

lemma json_string_length: "json_string s = Some (x, r) \<Longrightarrow> length r < length s"
proof (induction s arbitrary: x rule: json_string.induct)
  case (2 c s)
  from 2 show ?case
    by (fastforce simp: json_string.simps(2) prepend_eq_Some dest: unicode_escape_length
        split: if_splits list.splits option.splits)
qed simp

lemma parse_scalar_length: "parse_scalar s = Some (v, r) \<Longrightarrow> length r \<le> length s"
proof -
  have d: "length (dropWhile is_digit (drop n s)) \<le> length s" for n
    using length_dropWhile_le [of is_digit "drop n s"] by simp
  assume "parse_scalar s = Some (v, r)"
  then show ?thesis
    using d [of 0] d [of 1]
    by (auto simp: parse_scalar_def parse_num_def Let_def dest!: json_string_length split: if_splits)
qed

lemma parse_member_length: "parse_member s = Some (kv, r) \<Longrightarrow> length r < length s"
proof -
  assume "parse_member s = Some (kv, r)"
  then obtain k t1 v t2 where k: "json_string (drop 1 s) = Some (k, t1)"
    and v: "parse_scalar (skip_ws (drop 1 (skip_ws t1))) = Some (v, t2)" and r: "r = skip_ws t2"
    by (auto simp: parse_member_def split: option.splits if_splits)
  have "length r \<le> length t1"
    using parse_scalar_length [OF v] skip_ws_length [of t2] skip_ws_length [of t1]
      skip_ws_length [of "drop 1 (skip_ws t1)"] r by simp
  with json_string_length [OF k] show ?thesis by simp
qed

function parse_members :: "string \<Rightarrow> ((string \<times> scalar) list \<times> string) option" where
  "parse_members s =
     (case parse_member s of
        None \<Rightarrow> None
      | Some (kv, t) \<Rightarrow>
          (if HasPrefix t '','' then
             map_option (\<lambda>(kvs, r). (kv # kvs, r)) (parse_members (skip_ws (drop 1 t)))
           else if HasPrefix t ''}'' then Some ([kv], drop 1 t)
           else None))"
  by pat_completeness auto
termination
proof (relation "measure length")
  fix s p kv t
  assume "parse_member s = Some p" "(kv, t) = p"
  then have "length t < length s" using parse_member_length by metis
  then show "(skip_ws (drop 1 t), s) \<in> measure length"
    using skip_ws_length [of "drop 1 t"] by simp
qed simp

declare parse_members.simps [simp del]

definition parse_object :: "string \<Rightarrow> ((string \<times> scalar) list \<times> string) option" where
  "parse_object s =
     (let t = skip_ws s
      in if HasPrefix t ''}'' then Some ([], drop 1 t) else parse_members t)"

text \<open>
  The key table of the struct. A key matches by name, or else by simple case folding, under
  which U+017F folds to \<open>S\<close> and U+212A to \<open>K\<close>; no other rune outside ASCII folds into it.
\<close>

definition field_names :: "string list" where
  "field_names =
     [''seq'', ''ts'', ''kind'', ''method'', ''host'', ''port'', ''path'', ''decision'', ''rule'',
      ''reason'', ''client'', ''status'', ''bytes_up'', ''bytes_down'', ''duration_ms'', ''prev'',
      ''hash'']"

fun fold_key :: "string \<Rightarrow> string" where
  "fold_key [] = []"
| "fold_key (c # s) =
     (if byte c = 197 \<and> HasPrefix s [chr 191] then CHR ''S'' # fold_key (drop 1 s)
      else if byte c = 226 \<and> HasPrefix s [chr 132, chr 170] then CHR ''K'' # fold_key (drop 2 s)
      else upper_char c # fold_key s)"

definition resolve :: "string \<Rightarrow> string option" where
  "resolve k =
     (if k \<in> set field_names then Some k
      else find (\<lambda>n. map upper_char n = fold_key k) field_names)"

definition to_uint64 :: "bool \<Rightarrow> nat \<Rightarrow> uint64 option" where
  "to_uint64 neg n = (if \<not> neg \<and> n < 2 ^ 64 then Some (of_nat n) else None)"

definition to_int64 :: "bool \<Rightarrow> nat \<Rightarrow> int64 option" where
  "to_int64 neg n =
     (if neg then (if n \<le> 2 ^ 63 then Some (of_int (- int n)) else None)
      else if n < 2 ^ 63 then Some (of_int (int n)) else None)"

text \<open>Storing a value into a field: null leaves it, a value of the wrong type fails.\<close>

definition set_str :: "(string \<Rightarrow> audit_record) \<Rightarrow> audit_record \<Rightarrow> scalar \<Rightarrow> audit_record option" where
  "set_str f r v = (case v of SStr s \<Rightarrow> Some (f s) | SNull \<Rightarrow> Some r | SNum _ _ \<Rightarrow> None)"

definition set_int :: "(int64 \<Rightarrow> audit_record) \<Rightarrow> audit_record \<Rightarrow> scalar \<Rightarrow> audit_record option" where
  "set_int f r v =
     (case v of SNum neg n \<Rightarrow> map_option f (to_int64 neg n) | SNull \<Rightarrow> Some r | SStr _ \<Rightarrow> None)"

definition set_uint :: "(uint64 \<Rightarrow> audit_record) \<Rightarrow> audit_record \<Rightarrow> scalar \<Rightarrow> audit_record option" where
  "set_uint f r v =
     (case v of SNum neg n \<Rightarrow> map_option f (to_uint64 neg n) | SNull \<Rightarrow> Some r | SStr _ \<Rightarrow> None)"

definition set_named :: "string \<Rightarrow> audit_record \<Rightarrow> scalar \<Rightarrow> audit_record option" where
  "set_named n r v =
     (if n = ''seq'' then set_uint (\<lambda>x. r\<lparr>a_seq := x\<rparr>) r v
      else if n = ''ts'' then set_str (\<lambda>x. r\<lparr>a_ts := x\<rparr>) r v
      else if n = ''kind'' then set_str (\<lambda>x. r\<lparr>a_kind := x\<rparr>) r v
      else if n = ''method'' then set_str (\<lambda>x. r\<lparr>a_method := x\<rparr>) r v
      else if n = ''host'' then set_str (\<lambda>x. r\<lparr>a_host := x\<rparr>) r v
      else if n = ''port'' then set_int (\<lambda>x. r\<lparr>a_port := x\<rparr>) r v
      else if n = ''path'' then set_str (\<lambda>x. r\<lparr>a_path := x\<rparr>) r v
      else if n = ''decision'' then set_str (\<lambda>x. r\<lparr>a_decision := x\<rparr>) r v
      else if n = ''rule'' then set_str (\<lambda>x. r\<lparr>a_rule := x\<rparr>) r v
      else if n = ''reason'' then set_str (\<lambda>x. r\<lparr>a_reason := x\<rparr>) r v
      else if n = ''client'' then set_str (\<lambda>x. r\<lparr>a_client := x\<rparr>) r v
      else if n = ''status'' then set_int (\<lambda>x. r\<lparr>a_status := x\<rparr>) r v
      else if n = ''bytes_up'' then set_int (\<lambda>x. r\<lparr>a_bytes_up := x\<rparr>) r v
      else if n = ''bytes_down'' then set_int (\<lambda>x. r\<lparr>a_bytes_down := x\<rparr>) r v
      else if n = ''duration_ms'' then set_int (\<lambda>x. r\<lparr>a_duration_ms := x\<rparr>) r v
      else if n = ''prev'' then set_str (\<lambda>x. r\<lparr>a_prev := x\<rparr>) r v
      else if n = ''hash'' then set_str (\<lambda>x. r\<lparr>a_hash := x\<rparr>) r v
      else None)"

fun set_fields :: "audit_record \<Rightarrow> (string \<times> scalar) list \<Rightarrow> audit_record option" where
  "set_fields r [] = Some r"
| "set_fields r ((k, v) # kvs) =
     (case resolve k of
        None \<Rightarrow> None
      | Some n \<Rightarrow> (case set_named n r v of None \<Rightarrow> None | Some r' \<Rightarrow> set_fields r' kvs))"

text \<open>One \<open>Decode\<close> into a fresh record: the record and the input after the value.\<close>

definition decode_record :: "string \<Rightarrow> (audit_record \<times> string) option" where
  "decode_record s =
     (let t = skip_ws s
      in if HasPrefix t ''{'' then
           (case parse_object (drop 1 t) of
              None \<Rightarrow> None
            | Some (kvs, rest) \<Rightarrow> map_option (\<lambda>r. (r, rest)) (set_fields zero_record kvs))
         else if HasPrefix t ''null'' then Some (zero_record, drop 4 t)
         else None)"

end
