(* ===== verification/Interfaces.thy ===== *)
theory Interfaces
  imports Policy AuditRecord
begin

text \<open>
  The interfaces the components rely on: \<open>Evaluator\<close> and \<open>Auditor\<close> of the proxy and
  \<open>Reloader\<close> of the admin plane, with what each provider promises. The policy store provides the
  first and the third, the audit log the second; their theories interpret the locales.
\<close>

section \<open>Evaluator\<close>

text \<open>
  A decision is an allow or a deny, a denial names no rule, and a question about a tunnel is
  answered without its method and path.
\<close>

locale evaluator =
  fixes evaluate :: "'p \<Rightarrow> request \<Rightarrow> decision"
  assumes actions: "d_action (evaluate p q) \<in> {Allow, Deny}"
    and deny_unlabelled: "d_action (evaluate p q) \<noteq> Allow \<Longrightarrow> d_rule (evaluate p q) = []"
    and connect_blind:
      "q_kind q = KindConnect \<Longrightarrow> evaluate p (q\<lparr>q_method := m, q_path := x\<rparr>) = evaluate p q"
begin

lemma not_allow: "d_action (evaluate p q) \<noteq> Allow \<longleftrightarrow> d_action (evaluate p q) = Deny"
  using actions [of p q] by auto

lemma label_allow: "d_rule (evaluate p q) \<noteq> [] \<Longrightarrow> d_action (evaluate p q) = Allow"
  using deny_unlabelled by blast

end

section \<open>Auditor\<close>

text \<open>
  What the caller of \<open>Append\<close> sees of a record, without the fields the chain fills in.
\<close>

definition payload :: "audit_record \<Rightarrow> audit_record" where
  "payload r = r\<lparr>a_seq := 0, a_ts := [], a_prev := [], a_hash := []\<rparr>"

text \<open>
  An auditor keeps a list of records. An append that succeeds adds exactly the record it
  returns, as the log stores it, and the returned record carries the caller's payload.
\<close>

locale auditor =
  fixes append :: "'env \<Rightarrow> 'a \<Rightarrow> audit_record \<Rightarrow> 'a \<times> (string + audit_record)"
    and records :: "'a \<Rightarrow> audit_record list"
    and intact :: "'a \<Rightarrow> bool"
    and stored :: "audit_record \<Rightarrow> audit_record"
  assumes append_adds: "intact a \<Longrightarrow> append e a r = (a', Inr r') \<Longrightarrow>
      intact a' \<and> records a' = records a @ [stored r']"
    and append_payload: "append e a r = (a', Inr r') \<Longrightarrow> payload r' = payload r"
begin

text \<open>A sequence of appends that all succeed keeps every payload, in order.\<close>

fun appends :: "'a \<Rightarrow> ('env \<times> audit_record) list \<Rightarrow> 'a \<times> audit_record list" where
  "appends a [] = (a, [])"
| "appends a ((e, r) # xs) =
     (case append e a r of
        (a', Inl _) \<Rightarrow> (let (b, rs) = appends a' xs in (b, rs))
      | (a', Inr r') \<Rightarrow> (let (b, rs) = appends a' xs in (b, r' # rs)))"

lemma appends_records:
  assumes "intact a" "appends a xs = (b, rs)"
    and "\<And>e c r. \<exists>c' r'. append e c r = (c', Inr r')"
  shows "intact b \<and> records b = records a @ map stored rs
    \<and> map payload rs = map (payload \<circ> snd) xs"
  using assms(1,2)
proof (induction xs arbitrary: a rs)
  case (Cons x xs)
  obtain e r where x: "x = (e, r)" by (cases x)
  obtain a' r' where a': "append e a r = (a', Inr r')" using assms(3) by blast
  obtain rs' where rs: "appends a' xs = (b, rs')" "rs = r' # rs'"
    using Cons.prems(2) x a' by (auto split: prod.splits)
  note add = append_adds [OF Cons.prems(1) a'] and pay = append_payload [OF a']
  from Cons.IH [OF _ rs(1)] add pay rs(2) x show ?case by simp
qed simp

end

section \<open>Reloader\<close>

text \<open>
  A reload that fails changes nothing, one that succeeds puts a well-formed policy in force, and
  neither changes where the policy comes from.
\<close>

locale reloader =
  fixes reload :: "'env \<Rightarrow> 's \<Rightarrow> string \<Rightarrow> 's \<times> 'e option"
    and source :: "'s \<Rightarrow> string"
    and in_force :: "'s \<Rightarrow> policy"
  assumes reload_fails: "reload env s x = (s', Some e) \<Longrightarrow> s' = s"
    and reload_source: "reload env s x = (s', r) \<Longrightarrow> source s' = source s"
    and reload_valid: "reload env s x = (s', None) \<Longrightarrow> valid_policy (in_force s')"
begin

lemma reload_keeps_valid:
  assumes "valid_policy (in_force s)" "reload env s x = (s', r)"
  shows "valid_policy (in_force s')"
  using assms reload_fails [of env s x s'] reload_valid [of env s x s'] by (cases r) auto

fun reloads :: "'s \<Rightarrow> ('env \<times> string) list \<Rightarrow> 's" where
  "reloads s [] = s"
| "reloads s ((env, x) # xs) = reloads (fst (reload env s x)) xs"

lemma reloads_valid: "valid_policy (in_force s) \<Longrightarrow> valid_policy (in_force (reloads s xs))"
proof (induction s xs rule: reloads.induct)
  case (2 s env x xs)
  show ?case
    using 2 reload_keeps_valid [OF 2(2), of env x] by (cases "reload env s x") simp
qed simp

lemma reloads_source: "source (reloads s xs) = source s"
proof (induction s xs rule: reloads.induct)
  case (2 s env x xs)
  then show ?case using reload_source [of env s x] by (cases "reload env s x") simp
qed simp

end

end
