(* ===== verification/Store.thy ===== *)
theory Store
  imports Interfaces
begin

text \<open>
  \<open>internal/policy/store.go\<close>: the policy in force, behind one atomic pointer, and its reload.
  The file system and the YAML decoder are parameters. Every operation reads or writes the
  pointer once, so a concurrent history is a sequence of operations.
\<close>

section \<open>The store\<close>

record store =
  st_current :: policy
  st_source :: string

datatype load_error = ReadFailed string | ParseFailed parse_error

text \<open>The environment of a load: \<open>os.ReadFile\<close>, the YAML decoder, the case tables.\<close>

record load_env =
  le_file :: "string \<Rightarrow> string + string"
  le_yaml :: "string \<Rightarrow> yaml_result"
  le_case :: casemap

definition readPolicy :: "load_env \<Rightarrow> string \<Rightarrow> load_error + policy" where
  "readPolicy env path =
     (case le_file env path of
        Inl e \<Rightarrow> Inl (ReadFailed e)
      | Inr data \<Rightarrow>
          (case Parse (le_yaml env) (le_case env) data of
             Inl e \<Rightarrow> Inl (ParseFailed e)
           | Inr p \<Rightarrow> Inr p))"

definition NewStore :: "policy \<Rightarrow> store" where
  "NewStore p = \<lparr>st_current = p, st_source = []\<rparr>"

definition LoadStore :: "load_env \<Rightarrow> string \<Rightarrow> load_error + store" where
  "LoadStore env path =
     bindE (readPolicy env path) (\<lambda>p. Inr \<lparr>st_current = p, st_source = path\<rparr>)"

definition Source :: "store \<Rightarrow> string" where
  "Source s = st_source s"

definition store_Evaluate :: "casemap \<Rightarrow> store \<Rightarrow> request \<Rightarrow> decision" where
  "store_Evaluate cm s r = Evaluate cm (st_current s) r"

definition Reload :: "load_env \<Rightarrow> store \<Rightarrow> string \<Rightarrow> store \<times> load_error option" where
  "Reload env s path =
     (case readPolicy env path of
        Inl e \<Rightarrow> (s, Some e)
      | Inr p \<Rightarrow> (s\<lparr>st_current := p\<rparr>, None))"

section \<open>The interfaces it provides\<close>

lemma readPolicy_valid: "readPolicy env path = Inr p \<Longrightarrow> valid_policy p"
  by (auto simp: readPolicy_def dest: Parse_valid split: sum.splits)

lemma LoadStore_valid: "LoadStore env path = Inr s \<Longrightarrow> valid_policy (st_current s) \<and> st_source s = path"
  by (auto simp: LoadStore_def bindE_Inr_iff dest: readPolicy_valid)

interpretation gate: evaluator "store_Evaluate cm" for cm
  using Evaluate_actions
  by unfold_locales (auto simp: store_Evaluate_def Evaluate_deny_rule Evaluate_connect_blind)

interpretation gate_reload: reloader Reload Source st_current
  by unfold_locales (auto simp: Reload_def Source_def split: sum.splits dest: readPolicy_valid)

section \<open>Histories\<close>

datatype store_op = OpEvaluate request | OpReload load_env string

text \<open>A history of operations and the answers its evaluations gave.\<close>

fun store_run :: "casemap \<Rightarrow> store \<Rightarrow> store_op list \<Rightarrow> store \<times> decision list" where
  "store_run cm s [] = (s, [])"
| "store_run cm s (OpEvaluate r # ops) =
     (let (s', ds) = store_run cm s ops in (s', store_Evaluate cm s r # ds))"
| "store_run cm s (OpReload env path # ops) = store_run cm (fst (Reload env s path)) ops"

text \<open>Whether a reload fails depends on the file alone, not on the policy in force.\<close>

fun failing :: "store_op \<Rightarrow> bool" where
  "failing (OpReload env path) = (\<exists>e. readPolicy env path = Inl e)"
| "failing (OpEvaluate _) = False"

lemma Reload_failing: "failing (OpReload env path) \<Longrightarrow> fst (Reload env s path) = s"
  by (auto simp: Reload_def)

lemma store_run_skip: "store_run cm s ops = store_run cm s (filter (\<lambda>x. \<not> failing x) ops)"
proof (induction cm s ops rule: store_run.induct)
  case (3 cm s env path ops)
  then show ?case using Reload_failing [of env path s] by (cases "failing (OpReload env path)") simp_all
qed simp_all

lemma store_run_valid: "valid_policy (st_current s) \<Longrightarrow> valid_policy (st_current (fst (store_run cm s ops)))"
proof (induction cm s ops rule: store_run.induct)
  case (3 cm s env path ops)
  then show ?case
    using gate_reload.reload_keeps_valid [OF 3(2), of env path] by (cases "Reload env s path") simp
qed (simp_all add: case_prod_beta)

lemma store_run_actions: "d \<in> set (snd (store_run cm s ops)) \<Longrightarrow> d_action d \<in> {Allow, Deny}"
proof (induction cm s ops rule: store_run.induct)
  case (2 cm s r ops)
  then show ?case using gate.actions [of cm s r] by (auto simp: case_prod_beta)
qed simp_all

section \<open>Properties\<close>

text \<open>The policy in force is always a valid one: after a load that succeeded, whatever
  sequence of evaluations and reloads follows, from whatever files, the policy in force has
  passed validation, and the store still names the file it was loaded from.\<close>

lemma store_always_valid:
  assumes "LoadStore env path = Inr s"
  shows "valid_policy (st_current (fst (store_run cm s ops)))
    \<and> Source (fst (store_run cm s ops)) = path"
proof
  show "valid_policy (st_current (fst (store_run cm s ops)))"
    using LoadStore_valid [OF assms] by (intro store_run_valid) simp
  have "Source (fst (store_run cm s ops)) = Source s"
  proof (induction cm s ops rule: store_run.induct)
    case (3 cm s env path ops)
    then show ?case
      using gate_reload.reload_source [of env s path] by (cases "Reload env s path") simp
  qed (simp_all add: case_prod_beta)
  then show "Source (fst (store_run cm s ops)) = path"
    using LoadStore_valid [OF assms] by (simp add: Source_def)
qed

definition sample_policy :: policy where
  "sample_policy =
     \<lparr>p_version = 1, p_default = Deny,
      p_rules = [\<lparr>r_name = ''pypi'', r_hosts = Some [''pypi.org'', ''*.pythonhosted.org''], r_methods = None,
                  r_paths = None, r_ports = None\<rparr>,
                 \<lparr>r_name = ''api'', r_hosts = Some [''api.example.com''], r_methods = Some [''GET''],
                  r_paths = Some [''/v1''], r_ports = Some [80, 8080]\<rparr>]\<rparr>"

definition sample_env :: load_env where
  "sample_env = \<lparr>le_file = (\<lambda>path. if path = ''policy.yaml'' then Inr ''version: 1'' else Inl ''no such file''),
     le_yaml = (\<lambda>data. YamlDoc sample_policy False), le_case = plain_casemap\<rparr>"

lemma sample_valid: "valid_policy sample_policy"
proof -
  have "''*.pythonhosted.org'' = ''*.'' @ ''pythonhosted.org''" by simp
  then have "valid_host ''*.pythonhosted.org''" unfolding valid_host_def by fastforce
  then show ?thesis
    by (simp add: sample_policy_def valid_policy_def valid_rule_def writtenButEmpty_def valid_host_def
        knownMethods_def HasPrefix_def)
qed

lemma sample_validate: "validate plain_casemap sample_policy = Inr sample_policy"
proof (rule validate_fixed [OF sample_valid])
  show "list_all (normal_hosts plain_casemap) (p_rules sample_policy)"
    by (simp add: sample_policy_def normal_hosts_def TrimSpace_trimmed trimmedI ToLower_ascii ascii_def
        lower_char_def)
qed

lemma sample_parse: "Parse (le_yaml sample_env) plain_casemap data = Inr sample_policy"
  by (simp add: Parse_def sample_env_def sample_validate invalid_def)

lemma sample_load: "LoadStore sample_env ''policy.yaml'' = Inr \<lparr>st_current = sample_policy, st_source = ''policy.yaml''\<rparr>"
  using sample_parse by (simp add: LoadStore_def readPolicy_def sample_env_def)

lemma store_always_valid_instance:
  "valid_policy (st_current (fst (store_run plain_casemap
     \<lparr>st_current = sample_policy, st_source = ''policy.yaml''\<rparr> [OpReload sample_env ''gone.yaml''])))"
  using store_always_valid [OF sample_load] by blast

text \<open>A reload that fails is invisible: a history answers every question as the same history
  without its failed reloads does.\<close>

lemma store_failed_reload:
  "store_run cm s ops = store_run cm s (filter (\<lambda>x. \<not> failing x) ops)
   \<and> (\<forall>e s'. Reload env s path = (s', Some e) \<longrightarrow> s' = s)"
  using store_run_skip gate_reload.reload_fails by blast

end
