(* ===== verification/PolicyProps.thy ===== *)
theory PolicyProps
  imports Store
begin

text \<open>
  The properties of the policy: which rule decides, what a tunnel is judged by, and what a
  policy that parsed is known to be.
\<close>

section \<open>A sample\<close>

definition sample_http :: request where
  "sample_http = \<lparr>q_kind = KindHTTP, q_host = ''api.example.com'', q_port = 80, q_method = ''GET'',
     q_path = ''/v1/models''\<rparr>"



section \<open>Evaluation\<close>

text \<open>C10. The first rule in file order that authorises the request decides and names itself in the
  decision; if none does, the default decides with no rule, and a denied tunnel's reason names the
  first rule that matched its host and port but constrains what a tunnel hides.\<close>

theorem policy_first_match:
  "Evaluate cm p req =
     (case find (authorises req (ToLower cm (q_host req))) (p_rules p) of
        Some r \<Rightarrow> allow_by r
      | None \<Rightarrow>
          (if p_default p = Allow
           then \<lparr>d_action = Allow, d_rule = [], d_reason = ''default action is allow''\<rparr>
           else \<lparr>d_action = Deny, d_rule = [],
                 d_reason = (case find (nearly req (ToLower cm (q_host req))) (p_rules p) of
                               Some r \<Rightarrow> near_miss_reason (r_name r)
                             | None \<Rightarrow> ''no rule matched'')\<rparr>))"
  unfolding Evaluate_find Let_def ..

text \<open>C33. Under a default of deny nothing is allowed but what some rule authorises, and the rule it
  is allowed by is in the policy; an action is an allow or a deny.\<close>

theorem policy_deny_by_default:
  assumes "p_default p \<noteq> Allow"
  shows "(d_action (Evaluate cm p req) = Allow \<longleftrightarrow>
            (\<exists>r \<in> set (p_rules p). authorises req (ToLower cm (q_host req)) r))
    \<and> (d_action (Evaluate cm p req) = Deny \<longleftrightarrow>
            (\<forall>r \<in> set (p_rules p). \<not> authorises req (ToLower cm (q_host req)) r))
    \<and> (d_action (Evaluate cm p req) = Allow \<longrightarrow>
            (\<exists>r \<in> set (p_rules p). d_rule (Evaluate cm p req) = r_name r))"
proof (intro conjI)
  show "d_action (Evaluate cm p req) = Allow \<longrightarrow>
      (\<exists>r \<in> set (p_rules p). d_rule (Evaluate cm p req) = r_name r)"
    using assms by (auto simp: Evaluate_find Let_def allow_by_def find_Some_iff split: option.splits
        intro: nth_mem)
qed (use assms Evaluate_action [of cm p req] in auto)

theorem policy_deny_by_default_witness:
  "d_action (Evaluate plain_casemap sample_policy (sample_http\<lparr>q_path := ''/v2''\<rparr>)) = Deny"
proof -
  have d: "p_default sample_policy \<noteq> Allow" by (simp add: sample_policy_def)
  have "\<forall>r \<in> set (p_rules sample_policy).
      \<not> authorises (sample_http\<lparr>q_path := ''/v2''\<rparr>) (ToLower plain_casemap (q_host sample_http)) r"
    by code_simp
  then show ?thesis
    using policy_deny_by_default [OF d, of plain_casemap "sample_http\<lparr>q_path := ''/v2''\<rparr>"] by simp
qed



section \<open>Loading\<close>

text \<open>A policy that parses is of version 1, has a default of allow or deny, its rules have
  distinct names, hosts without stray wildcards, known methods, absolute paths and ports in range,
  and no list that was written but left empty, which would mean any where the author wrote none.\<close>

lemma policy_parse_valid:
  assumes "Parse yaml cm data = Inr p"
  shows "p_version p = 1 \<and> p_default p \<in> {Allow, Deny} \<and> distinct (map r_name (p_rules p))
    \<and> (\<forall>r \<in> set (p_rules p). r_name r \<noteq> [] \<and> elems (r_hosts r) \<noteq> []
         \<and> list_all valid_host (elems (r_hosts r))
         \<and> r_methods r \<noteq> Some [] \<and> r_paths r \<noteq> Some [] \<and> r_ports r \<noteq> Some []
         \<and> set (elems (r_methods r)) \<subseteq> set knownMethods
         \<and> list_all (\<lambda>x. HasPrefix x ''/'') (elems (r_paths r))
         \<and> list_all (\<lambda>x. 1 \<le> x \<and> x \<le> 65535) (elems (r_ports r)))"
  using Parse_valid [OF assms]
  by (auto simp: valid_policy_def valid_rule_def list_all_iff [of valid_rule] writtenButEmpty_def)

text \<open>Validation is idempotent on ASCII hosts: it normalises once, and the policy it returns
  passes again unchanged.\<close>

lemma policy_validate_idempotent:
  assumes "validate cm p = Inr p'" "ascii_hosts p"
  shows "validate cm p' = Inr p'"
  using assms by (rule validate_idem)

end
