(* ===== verification/AuditCodec.thy ===== *)
theory AuditCodec
  imports AuditRecord
begin

text \<open>
  Facts on the codec of the audit record: reading back what \<open>marshal\<close> wrote gives the record
  with its invalid UTF-8 replaced, a proper prefix of an encoded record never decodes, and how
  keys are looked up.
\<close>

section \<open>What is written is read back\<close>

definition sanitize_record :: "audit_record \<Rightarrow> audit_record" where
  "sanitize_record r =
     r\<lparr>a_ts := sanitize (a_ts r), a_kind := sanitize (a_kind r), a_method := sanitize (a_method r),
       a_host := sanitize (a_host r), a_path := sanitize (a_path r),
       a_decision := sanitize (a_decision r), a_rule := sanitize (a_rule r),
       a_reason := sanitize (a_reason r), a_client := sanitize (a_client r),
       a_prev := sanitize (a_prev r), a_hash := sanitize (a_hash r)\<rparr>"

definition utf8_record :: "audit_record \<Rightarrow> bool" where
  "utf8_record r \<longleftrightarrow>
     list_all utf8_valid
       [a_ts r, a_kind r, a_method r, a_host r, a_path r, a_decision r, a_rule r, a_reason r,
        a_client r, a_prev r, a_hash r]"

lemma sanitize_utf8_record: "utf8_record r \<Longrightarrow> sanitize_record r = r"
  by (simp add: utf8_record_def sanitize_record_def sanitize_valid)

lemma utf8_sanitize_record: "utf8_record (sanitize_record r)"
  by (simp add: utf8_record_def sanitize_record_def utf8_valid_sanitize)

fun scalar_of :: "jval \<Rightarrow> scalar" where
  "scalar_of (JStr s) = SStr (sanitize s)"
| "scalar_of (JUint w) = SNum False (unat w)"
| "scalar_of (JInt w) = SNum (sint w < 0) (nat \<bar>sint w\<bar>)"

definition plain_key :: "string \<Rightarrow> bool" where
  "plain_key k \<longleftrightarrow> list_all (\<lambda>c. 32 \<le> byte c \<and> byte c < 128 \<and> c \<noteq> dq \<and> c \<noteq> bs) k"

lemma json_string_key: "plain_key k \<Longrightarrow> json_string (k @ dq # s) = Some (k, s)"
  by (induction k) (auto simp: plain_key_def json_string_plain)

text \<open>The byte that follows a value inside an object: never part of a number or white space.\<close>

definition follows :: "string \<Rightarrow> bool" where
  "follows s \<longleftrightarrow> HasPrefix s '','' \<or> HasPrefix s ''}''"

lemma follows_cases: "follows s \<Longrightarrow> (\<exists>t. s = CHR '','' # t) \<or> (\<exists>t. s = CHR ''}'' # t)"
  by (auto simp: follows_def HasPrefix_iff)

lemma skip_ws_follows: "follows s \<Longrightarrow> skip_ws s = s"
  by (auto dest!: follows_cases simp: skip_ws_def json_ws_def)

lemma skip_ws_dq [simp]: "skip_ws (dq # s) = dq # s"
  by (simp add: skip_ws_def json_ws_def)

lemma not_follows_digit: "follows s \<Longrightarrow> takeWhile is_digit s = [] \<and> dropWhile is_digit s = s"
  by (auto dest!: follows_cases simp: is_digit_def)

lemma digits_split:
  assumes "follows s"
  shows "takeWhile is_digit (dec n @ s) = dec n" and "dropWhile is_digit (dec n @ s) = s"
proof -
  have "\<And>c. c \<in> set (dec n) \<Longrightarrow> is_digit c" using dec_digits [of n] by (simp add: list_all_iff)
  with not_follows_digit [OF assms]
  show "takeWhile is_digit (dec n @ s) = dec n" and "dropWhile is_digit (dec n @ s) = s"
    by (simp_all add: takeWhile_append2 dropWhile_append2)
qed

lemma dec_no_leading_zero: "hd (dec n) = CHR ''0'' \<Longrightarrow> length (dec n) = 1"
  by (simp add: dec_hd_zero dec.simps [of 0])

lemma dec_cases: "\<exists>c t. dec n = c # t \<and> is_digit c"
  using dec_hd_digit [of n] by (cases "dec n") auto

lemma parse_num_dec:
  assumes "follows s"
  shows "parse_num (dec n @ s) = Some (SNum False n, s)"
proof -
  have "\<not> HasPrefix (dec n @ s) ''-''"
    using dec_cases [of n] not_digit_sign by (auto simp: HasPrefix_single)
  then show ?thesis
    using dec_no_leading_zero [of n] by (auto simp: parse_num_def Let_def digits_split [OF assms])
qed

lemma parse_num_neg:
  assumes "follows s"
  shows "parse_num (CHR ''-'' # dec n @ s) = Some (SNum True n, s)"
  using dec_no_leading_zero [of n]
  by (auto simp: parse_num_def Let_def HasPrefix_def digits_split [OF assms])

lemma parse_scalar_num:
  assumes "is_digit c \<or> c = CHR ''-''"
  shows "parse_scalar (c # s) = parse_num (c # s)"
  using assms by (auto simp: parse_scalar_def HasPrefix_def is_digit_def)

lemma parse_scalar_enc:
  assumes "follows s"
  shows "parse_scalar (enc_val v @ s) = Some (scalar_of v, s)"
proof (cases v)
  case (JStr x)
  then show ?thesis by (simp add: parse_scalar_def HasPrefix_def json_quote_def json_string_escape)
next
  case (JUint w)
  obtain c t where "dec (unat w) = c # t" "is_digit c" using dec_cases by blast
  with JUint show ?thesis
    using parse_scalar_num [of c "t @ s"] parse_num_dec [OF assms, of "unat w"] by simp
next
  case (JInt w)
  show ?thesis
  proof (cases "sint w < 0")
    case True
    with JInt show ?thesis
      using parse_scalar_num [of "CHR ''-''"] parse_num_neg [OF assms, of "nat (- sint w)"]
      by (simp add: Itoa_def)
  next
    case False
    obtain c t where "dec (nat (sint w)) = c # t" "is_digit c" using dec_cases by blast
    with JInt False show ?thesis
      using parse_scalar_num [of c "t @ s"] parse_num_dec [OF assms, of "nat (sint w)"]
      by (simp add: Itoa_def)
  qed
qed

lemma enc_val_no_ws: "skip_ws (enc_val v @ s) = enc_val v @ s"
proof -
  have dig: "skip_ws (dec n @ s) = dec n @ s" for n
    using dec_cases [of n] by (auto simp: skip_ws_def json_ws_def is_digit_def)
  show ?thesis
  proof (cases v)
    case (JInt w)
    then show ?thesis using dig by (auto simp: Itoa_def skip_ws_def json_ws_def)
  qed (use dig in \<open>simp_all add: json_quote_def\<close>)
qed

lemma parse_member_enc:
  assumes "plain_key k" "follows s"
  shows "parse_member (enc_field (k, v) @ s) = Some ((k, scalar_of v), s)"
proof -
  have c: "skip_ws (CHR '':'' # t) = CHR '':'' # t" for t by (simp add: skip_ws_def json_ws_def)
  show ?thesis
    using assms
    by (simp add: parse_member_def enc_field_def HasPrefix_def json_string_key c enc_val_no_ws
        parse_scalar_enc skip_ws_follows)
qed

lemma parse_members_enc:
  assumes "fs \<noteq> []" "list_all (\<lambda>f. plain_key (fst f)) fs"
  shows "parse_members (Join (map enc_field fs) CHR '','' @ CHR ''}'' # rest)
      = Some (map (\<lambda>(k, v). (k, scalar_of v)) fs, rest)"
  using assms
proof (induction fs)
  case (Cons f fs)
  obtain k v where f: "f = (k, v)" by (cases f)
  show ?case
  proof (cases fs)
    case Nil
    have "follows (CHR ''}'' # rest)" by (simp add: follows_def HasPrefix_def)
    with Cons.prems Nil f show ?thesis
      by (simp add: parse_members.simps [of "enc_field (k, v) @ CHR ''}'' # rest"] parse_member_enc
          HasPrefix_def)
  next
    case (Cons g gs)
    obtain t where t: "t = Join (map enc_field fs) CHR '','' @ CHR ''}'' # rest" by blast
    obtain t' where "t = dq # t'"
      unfolding t Cons by (cases g; cases gs) (auto simp: enc_field_def)
    then have sk: "skip_ws t = t" by simp
    have "follows (CHR '','' # t)" by (simp add: follows_def HasPrefix_def)
    then have "parse_member (enc_field (k, v) @ CHR '','' # t) = Some ((k, scalar_of v), CHR '','' # t)"
      using Cons.prems f by (intro parse_member_enc) auto
    moreover have "parse_members t = Some (map (\<lambda>(k, v). (k, scalar_of v)) fs, rest)"
      using Cons.IH Cons.prems Cons t by simp
    ultimately have "parse_members (enc_field (k, v) @ CHR '','' # t)
        = Some (map (\<lambda>(k, v). (k, scalar_of v)) (f # fs), rest)"
      using f sk
      by (simp add: parse_members.simps [of "enc_field (k, v) @ CHR '','' # t"] HasPrefix_def)
    moreover have "Join (map enc_field (f # fs)) CHR '','' @ CHR ''}'' # rest
        = enc_field (k, v) @ CHR '','' # t"
      unfolding t Cons f by simp
    ultimately show ?thesis by simp
  qed
qed simp

section \<open>Storing the fields\<close>

abbreviation scal :: "string \<times> jval \<Rightarrow> string \<times> scalar" where
  "scal f \<equiv> (case f of (k, v) \<Rightarrow> (k, scalar_of v))"

lemma set_str_scalar [simp]: "set_str f r (scalar_of (JStr s)) = Some (f (sanitize s))"
  by (simp add: set_str_def)

lemma set_uint_scalar [simp]: "set_uint f r (scalar_of (JUint w)) = Some (f w)"
proof -
  have "unat w < 18446744073709551616" using unsigned_less [of w, where 'a = nat] by simp
  then show ?thesis by (simp add: set_uint_def to_uint64_def)
qed

lemma to_int64_sint: "to_int64 (sint w < 0) (nat \<bar>sint w\<bar>) = Some (w :: int64)"
proof -
  have "- (2 ^ 63) \<le> sint w" "sint w < 2 ^ 63"
    using sint_greater_eq [of w] sint_less [of w] by simp_all
  then show ?thesis by (auto simp: to_int64_def)
qed

lemma set_int_scalar [simp]: "set_int f r (scalar_of (JInt w)) = Some (f w)"
  by (simp add: set_int_def to_int64_sint)

lemma resolve_exact: "k \<in> set field_names \<Longrightarrow> resolve k = Some k"
  by (simp add: resolve_def)

lemma set_fields_Cons:
  "k \<in> set field_names \<Longrightarrow> set_fields r ((k, v) # kvs) =
     (case set_named k r v of None \<Rightarrow> None | Some r' \<Rightarrow> set_fields r' kvs)"
  by (simp add: resolve_exact)

text \<open>An omitted field was zero, so leaving it out stores what writing it would have.\<close>

lemma set_fields_omitempty:
  assumes "k \<in> set field_names" and "set_named k r (scalar_of v) = Some r'"
    and "v \<in> {JStr [], JUint 0, JInt 0} \<Longrightarrow> r' = r"
  shows "set_fields r (map scal (omitempty k v) @ kvs) = set_fields r' kvs"
  using assms by (auto simp: omitempty_def resolve_exact)

lemma set_named_steps:
  "set_named ''seq'' r (scalar_of (JUint w)) = Some (r\<lparr>a_seq := w\<rparr>)"
  "set_named ''ts'' r (scalar_of (JStr s)) = Some (r\<lparr>a_ts := sanitize s\<rparr>)"
  "set_named ''kind'' r (scalar_of (JStr s)) = Some (r\<lparr>a_kind := sanitize s\<rparr>)"
  "set_named ''method'' r (scalar_of (JStr s)) = Some (r\<lparr>a_method := sanitize s\<rparr>)"
  "set_named ''host'' r (scalar_of (JStr s)) = Some (r\<lparr>a_host := sanitize s\<rparr>)"
  "set_named ''port'' r (scalar_of (JInt i)) = Some (r\<lparr>a_port := i\<rparr>)"
  "set_named ''path'' r (scalar_of (JStr s)) = Some (r\<lparr>a_path := sanitize s\<rparr>)"
  "set_named ''decision'' r (scalar_of (JStr s)) = Some (r\<lparr>a_decision := sanitize s\<rparr>)"
  "set_named ''rule'' r (scalar_of (JStr s)) = Some (r\<lparr>a_rule := sanitize s\<rparr>)"
  "set_named ''reason'' r (scalar_of (JStr s)) = Some (r\<lparr>a_reason := sanitize s\<rparr>)"
  "set_named ''client'' r (scalar_of (JStr s)) = Some (r\<lparr>a_client := sanitize s\<rparr>)"
  "set_named ''status'' r (scalar_of (JInt i)) = Some (r\<lparr>a_status := i\<rparr>)"
  "set_named ''bytes_up'' r (scalar_of (JInt i)) = Some (r\<lparr>a_bytes_up := i\<rparr>)"
  "set_named ''bytes_down'' r (scalar_of (JInt i)) = Some (r\<lparr>a_bytes_down := i\<rparr>)"
  "set_named ''duration_ms'' r (scalar_of (JInt i)) = Some (r\<lparr>a_duration_ms := i\<rparr>)"
  "set_named ''prev'' r (scalar_of (JStr s)) = Some (r\<lparr>a_prev := sanitize s\<rparr>)"
  "set_named ''hash'' r (scalar_of (JStr s)) = Some (r\<lparr>a_hash := sanitize s\<rparr>)"
  unfolding set_named_def by (simp_all del: scalar_of.simps)

lemma field_names_mem [simp]:
  "''seq'' \<in> set field_names" "''ts'' \<in> set field_names" "''kind'' \<in> set field_names"
  "''method'' \<in> set field_names" "''host'' \<in> set field_names" "''port'' \<in> set field_names"
  "''path'' \<in> set field_names" "''decision'' \<in> set field_names" "''rule'' \<in> set field_names"
  "''reason'' \<in> set field_names" "''client'' \<in> set field_names" "''status'' \<in> set field_names"
  "''bytes_up'' \<in> set field_names" "''bytes_down'' \<in> set field_names"
  "''duration_ms'' \<in> set field_names" "''prev'' \<in> set field_names" "''hash'' \<in> set field_names"
  by (simp_all add: field_names_def)

text \<open>
  The fields every record starts over from when the optional ones are stored: for the record
  written below they are still zero at that point.
\<close>

definition optional_zero :: "audit_record \<Rightarrow> bool" where
  "optional_zero r \<longleftrightarrow> a_method r = [] \<and> a_path r = [] \<and> a_rule r = [] \<and> a_reason r = []
     \<and> a_client r = [] \<and> a_status r = 0"

lemma set_fields_omit_steps:
  "a_method r = [] \<Longrightarrow> set_fields r (map scal (omitempty ''method'' (JStr s)) @ kvs)
     = set_fields (r\<lparr>a_method := sanitize s\<rparr>) kvs"
  "a_path r = [] \<Longrightarrow> set_fields r (map scal (omitempty ''path'' (JStr s)) @ kvs)
     = set_fields (r\<lparr>a_path := sanitize s\<rparr>) kvs"
  "a_rule r = [] \<Longrightarrow> set_fields r (map scal (omitempty ''rule'' (JStr s)) @ kvs)
     = set_fields (r\<lparr>a_rule := sanitize s\<rparr>) kvs"
  "a_reason r = [] \<Longrightarrow> set_fields r (map scal (omitempty ''reason'' (JStr s)) @ kvs)
     = set_fields (r\<lparr>a_reason := sanitize s\<rparr>) kvs"
  "a_client r = [] \<Longrightarrow> set_fields r (map scal (omitempty ''client'' (JStr s)) @ kvs)
     = set_fields (r\<lparr>a_client := sanitize s\<rparr>) kvs"
  "a_status r = 0 \<Longrightarrow> set_fields r (map scal (omitempty ''status'' (JInt i)) @ kvs)
     = set_fields (r\<lparr>a_status := i\<rparr>) kvs"
  by (rule set_fields_omitempty; simp add: set_named_steps del: scalar_of.simps; auto)+

lemma set_fields_step:
  "k \<in> set field_names \<Longrightarrow> set_named k r v = Some r' \<Longrightarrow>
     set_fields r ((k, v) # kvs) = set_fields r' kvs"
  by (simp add: resolve_exact)

lemma set_fields_record:
  assumes "optional_zero r0"
  shows "set_fields r0 (map scal (record_fields r)) = Some (sanitize_record r)"
proof -
  have e: "set_fields r0 (map scal (record_fields r) @ []) = Some (sanitize_record r)"
    using assms
    by (simp add: record_fields_def set_fields_step set_named_steps set_fields_omit_steps
        optional_zero_def del: set_fields.simps scalar_of.simps append_Nil2)
      (simp add: sanitize_record_def)
  then show ?thesis by simp
qed

lemma optional_zero_zero [simp]: "optional_zero zero_record"
  by (simp add: optional_zero_def zero_record_def)

lemma plain_keys: "list_all (\<lambda>f. plain_key (fst f)) (record_fields r)"
proof -
  have "list_all plain_key field_names" by (simp add: field_names_def plain_key_def)
  then show ?thesis by (auto simp: record_fields_def omitempty_def list_all_iff)
qed

lemma record_fields_not_Nil [simp]: "record_fields r \<noteq> []"
  by (simp add: record_fields_def)

lemma parse_object_enc:
  assumes "fs \<noteq> []" "list_all (\<lambda>f. plain_key (fst f)) fs"
  shows "parse_object (Join (map enc_field fs) CHR '','' @ CHR ''}'' # rest) = Some (map scal fs, rest)"
proof -
  obtain t where t: "t = Join (map enc_field fs) CHR '','' @ CHR ''}'' # rest" by blast
  have "\<exists>t'. t = dq # t'"
    unfolding t using assms(1)
    by (cases fs; cases "hd fs"; cases "tl fs") (auto simp: enc_field_def)
  then have "skip_ws t = t" "\<not> HasPrefix t ''}''" by (auto simp: HasPrefix_def)
  moreover have "parse_members t = Some (map scal fs, rest)"
    unfolding t using assms by (rule parse_members_enc)
  ultimately show ?thesis by (simp add: parse_object_def Let_def t [symmetric])
qed

lemma decode_object:
  "decode_record (CHR ''{'' # t) =
     (case parse_object t of
        None \<Rightarrow> None
      | Some (kvs, rest) \<Rightarrow> map_option (\<lambda>r. (r, rest)) (set_fields zero_record kvs))"
  by (simp add: decode_record_def skip_ws_def json_ws_def HasPrefix_def Let_def)

text \<open>The codec's round trip, up to invalid UTF-8.\<close>

lemma decode_marshal: "decode_record (marshal r @ rest) = Some (sanitize_record r, rest)"
proof -
  have "marshal r @ rest
      = CHR ''{'' # (Join (map enc_field (record_fields r)) CHR '','' @ CHR ''}'' # rest)"
    by (simp add: marshal_def)
  then show ?thesis
    using parse_object_enc [OF record_fields_not_Nil plain_keys, of r rest]
      set_fields_record [OF optional_zero_zero, of r]
    by (simp add: decode_object)
qed

lemma decode_marshal_utf8: "utf8_record r \<Longrightarrow> decode_record (marshal r @ rest) = Some (r, rest)"
  by (simp add: decode_marshal sanitize_utf8_record)

lemma marshal_inj: "utf8_record r \<Longrightarrow> utf8_record r' \<Longrightarrow> marshal r = marshal r' \<Longrightarrow> r = r'"
  using decode_marshal_utf8 [of r "[]"] decode_marshal_utf8 [of r' "[]"] by simp

section \<open>A torn record never decodes\<close>

lemma HasPrefix_app_ne: "s \<noteq> [] \<Longrightarrow> HasPrefix (s @ q) [c] = HasPrefix s [c]"
  by (simp add: HasPrefix_single)

lemma dropWhile_app_ne:
  assumes "dropWhile P x \<noteq> []"
  shows "dropWhile P (x @ q) = dropWhile P x @ q" and "takeWhile P (x @ q) = takeWhile P x"
proof -
  from assms obtain y where "y \<in> set x" "\<not> P y" by (auto simp: dropWhile_eq_Nil_conv)
  then show "dropWhile P (x @ q) = dropWhile P x @ q" "takeWhile P (x @ q) = takeWhile P x"
    by (auto simp: dropWhile_append1 takeWhile_append1)
qed

lemma skip_ws_app: "skip_ws x \<noteq> [] \<Longrightarrow> skip_ws (x @ q) = skip_ws x @ q"
  by (simp add: skip_ws_def dropWhile_app_ne)

lemma parse_num_app:
  assumes "parse_num s = Some (v, t)" and "t \<noteq> []"
  shows "parse_num (s @ q) = Some (v, t @ q)"
proof -
  from assms(1) have "s \<noteq> []" by (auto simp: parse_num_def Let_def)
  then have n: "HasPrefix (s @ q) ''-'' = HasPrefix s ''-''" by (rule HasPrefix_app_ne)
  have d: "drop (Suc 0) (s @ q) = drop (Suc 0) s @ q" using \<open>s \<noteq> []\<close> by (cases s) auto
  from assms show ?thesis
    by (auto simp: parse_num_def Let_def n d dropWhile_app_ne simp del: drop_append split: if_splits)
qed

lemma parse_num_first: "parse_num s = Some (v, t) \<Longrightarrow> \<exists>c s'. s = c # s' \<and> (is_digit c \<or> c = CHR ''-'')"
proof -
  assume a: "parse_num s = Some (v, t)"
  then obtain c s' where s: "s = c # s'" by (cases s) (auto simp: parse_num_def Let_def)
  with a show ?thesis by (auto simp: parse_num_def Let_def HasPrefix_def split: if_splits)
qed

lemma parse_scalar_app:
  assumes "parse_scalar s = Some (v, t)" and "t \<noteq> []"
  shows "parse_scalar (s @ q) = Some (v, t @ q)"
proof -
  consider "HasPrefix s [dq]" | "\<not> HasPrefix s [dq]" "HasPrefix s ''null''"
    | "\<not> HasPrefix s [dq]" "\<not> HasPrefix s ''null''" by blast
  then show ?thesis
  proof cases
    case 1
    then obtain s' where s: "s = dq # s'" by (auto simp: HasPrefix_iff)
    with assms(1) obtain x where x: "json_string s' = Some (x, t)" "v = SStr x"
      by (auto simp: parse_scalar_def HasPrefix_def)
    with s show ?thesis
      using json_string_app [OF x(1), of q] by (simp add: parse_scalar_def HasPrefix_def)
  next
    case 2
    then obtain s' where "s = ''null'' @ s'" by (auto simp: HasPrefix_iff)
    with assms show ?thesis by (auto simp: parse_scalar_def HasPrefix_def)
  next
    case 3
    with assms(1) have n: "parse_num s = Some (v, t)" by (simp add: parse_scalar_def)
    then obtain c s' where "s = c # s'" "is_digit c \<or> c = CHR ''-''"
      using parse_num_first by blast
    with parse_num_app [OF n assms(2), of q] show ?thesis
      using parse_scalar_num [of c "s' @ q"] by simp
  qed
qed

lemma parse_member_app:
  assumes "parse_member s = Some (kv, t)" and "t \<noteq> []"
  shows "parse_member (s @ q) = Some (kv, t @ q)"
proof -
  from assms(1) obtain k t1 v t2 where h: "HasPrefix s [dq]"
    and k: "json_string (drop 1 s) = Some (k, t1)" and c: "HasPrefix (skip_ws t1) '':''"
    and v: "parse_scalar (skip_ws (drop 1 (skip_ws t1))) = Some (v, t2)"
    and kv: "kv = (k, v)" "t = skip_ws t2"
    by (auto simp: parse_member_def split: option.splits if_splits)
  obtain s' where s: "s = dq # s'" using h by (auto simp: HasPrefix_iff)
  have k': "json_string (s' @ q) = Some (k, t1 @ q)" using k s by (auto intro: json_string_app)
  have ne1: "skip_ws t1 \<noteq> []" using c by (auto simp: HasPrefix_def)
  obtain t1' where t1': "skip_ws t1 = CHR '':'' # t1'" using c by (auto simp: HasPrefix_iff)
  have ne2: "skip_ws t1' \<noteq> []"
    using v t1' by (auto simp: parse_scalar_def parse_num_def Let_def HasPrefix_def)
  have ne3: "t2 \<noteq> []" using assms(2) kv(2) by (auto simp: skip_ws_def)
  have v': "parse_scalar (skip_ws t1' @ q) = Some (v, t2 @ q)"
    using v t1' ne3 by (intro parse_scalar_app) simp_all
  show ?thesis
    using k' ne1 t1' ne2 v' kv assms(2)
    by (simp add: s parse_member_def skip_ws_app HasPrefix_def)
qed

lemma parse_members_app: "parse_members s = Some (kvs, r) \<Longrightarrow> parse_members (s @ q) = Some (kvs, r @ q)"
proof (induction s arbitrary: kvs rule: parse_members.induct)
  case (1 s)
  from "1.prems" obtain kv t where m: "parse_member s = Some (kv, t)"
    by (auto simp: parse_members.simps [of s] split: option.splits)
  consider (comma) t' where "t = CHR '','' # t'" | (close) t' where "t = CHR ''}'' # t'"
    using "1.prems" m
    by (auto simp: parse_members.simps [of s] HasPrefix_iff split: if_splits)
  then show ?case
  proof cases
    case comma
    with "1.prems" m obtain kvs' where k: "parse_members (skip_ws t') = Some (kvs', r)" "kvs = kv # kvs'"
      by (auto simp: parse_members.simps [of s] HasPrefix_def)
    have "skip_ws t' \<noteq> []"
      using k(1) by (auto simp: parse_members.simps [of "[]"] parse_member_def HasPrefix_def)
    moreover have "parse_members (skip_ws t' @ q) = Some (kvs', r @ q)"
      using "1.IH" [OF m refl] comma k(1) by (simp add: HasPrefix_def)
    ultimately show ?thesis
      using parse_member_app [OF m, of q] comma k(2)
      by (simp add: parse_members.simps [of "s @ q"] HasPrefix_def skip_ws_app)
  next
    case close
    with "1.prems" m have "kvs = [kv]" "r = t'"
      by (auto simp: parse_members.simps [of s] HasPrefix_def)
    with parse_member_app [OF m, of q] close show ?thesis
      by (simp add: parse_members.simps [of "s @ q"] HasPrefix_def)
  qed
qed

lemma parse_object_app:
  assumes "parse_object s = Some (kvs, r)"
  shows "parse_object (s @ q) = Some (kvs, r @ q)"
proof -
  have ne: "skip_ws s \<noteq> []"
    using assms by (auto simp: parse_object_def parse_members.simps [of "[]"] parse_member_def HasPrefix_def)
  have hp: "HasPrefix (skip_ws s @ q) ''}'' = HasPrefix (skip_ws s) ''}''"
    using ne by (rule HasPrefix_app_ne)
  show ?thesis
  proof (cases "HasPrefix (skip_ws s) ''}''")
    case True
    with assms ne hp show ?thesis
      by (auto simp: parse_object_def Let_def skip_ws_app HasPrefix_iff)
  next
    case False
    with assms ne hp show ?thesis
      by (auto simp: parse_object_def Let_def skip_ws_app intro: parse_members_app)
  qed
qed

lemma decode_torn:
  assumes "p @ q = marshal r" and "p \<noteq> []" and "q \<noteq> []"
  shows "decode_record p = None"
proof (rule ccontr)
  assume "decode_record p \<noteq> None"
  moreover obtain p' where p: "p = CHR ''{'' # p'"
    using assms(1,2) by (cases p) (auto simp: marshal_def)
  ultimately obtain kvs rest where o: "parse_object p' = Some (kvs, rest)"
    by (auto simp: decode_object split: option.splits)
  have "parse_object (p' @ q) = Some (map scal (record_fields r), [])"
    using parse_object_enc [OF record_fields_not_Nil plain_keys, of r "[]"] assms(1) p
    by (simp add: marshal_def)
  with parse_object_app [OF o, of q] assms(3) show False by simp
qed

end
