(* ===== verification/Sha256.thy ===== *)
theory Sha256
  imports GoStrings
begin

text \<open>
  SHA-256 (FIPS 180-4) on byte strings and its lower-case hexadecimal form: what
  \<open>crypto/sha256\<close> and \<open>hex.EncodeToString\<close> compute for the audit chain. The interface the
  chain relies on is the locale \<open>digest\<close>: 64 hexadecimal digits, whatever the input. Nothing is
  assumed about collisions; the chain's theorems exhibit one where they depend on it.
\<close>

unbundle bit_operations_syntax

section \<open>The interface\<close>

definition lower_hex :: "char \<Rightarrow> bool" where
  "lower_hex c \<longleftrightarrow> is_digit c \<or> 97 \<le> byte c \<and> byte c \<le> 102"

locale digest =
  fixes H :: "string \<Rightarrow> string"
  assumes digest_length: "length (H x) = 64"
    and digest_hex: "list_all lower_hex (H x)"
begin

lemma digest_ascii: "ascii (H x)"
  using digest_hex [of x] by (auto simp: ascii_def list_all_iff lower_hex_def is_digit_def)

lemma digest_not_Nil: "H x \<noteq> []"
  using digest_length [of x] by auto

lemma digest_append_eq: "H x @ s = H y @ t \<longleftrightarrow> H x = H y \<and> s = t"
  by (simp add: digest_length)

end

section \<open>SHA-256\<close>

type_synonym w32 = "32 word"

definition rotr :: "nat \<Rightarrow> w32 \<Rightarrow> w32" where
  "rotr n x = drop_bit n x OR push_bit (32 - n) x"

definition sha_K :: "w32 list" where
  "sha_K =
     [1116352408, 1899447441, 3049323471, 3921009573, 961987163, 1508970993, 2453635748, 2870763221,
      3624381080, 310598401, 607225278, 1426881987, 1925078388, 2162078206, 2614888103, 3248222580,
      3835390401, 4022224774, 264347078, 604807628, 770255983, 1249150122, 1555081692, 1996064986,
      2554220882, 2821834349, 2952996808, 3210313671, 3336571891, 3584528711, 113926993, 338241895,
      666307205, 773529912, 1294757372, 1396182291, 1695183700, 1986661051, 2177026350, 2456956037,
      2730485921, 2820302411, 3259730800, 3345764771, 3516065817, 3600352804, 4094571909, 275423344,
      430227734, 506948616, 659060556, 883997877, 958139571, 1322822218, 1537002063, 1747873779,
      1955562222, 2024104815, 2227730452, 2361852424, 2428436474, 2756734187, 3204031479, 3329325298]"

type_synonym sha_state = "w32 \<times> w32 \<times> w32 \<times> w32 \<times> w32 \<times> w32 \<times> w32 \<times> w32"

definition sha_init :: sha_state where
  "sha_init =
     (1779033703, 3144134277, 1013904242, 2773480762, 1359893119, 2600822924, 528734635, 1541459225)"

definition sha_pad :: "8 word list \<Rightarrow> 8 word list" where
  "sha_pad m =
     m @ [128] @ replicate ((119 - length m mod 64) mod 64) 0
     @ map (\<lambda>i. ucast (drop_bit i (8 * of_nat (length m) :: 64 word)))
         [56, 48, 40, 32, 24, 16, 8, 0]"

fun sha_words :: "8 word list \<Rightarrow> w32 list" where
  "sha_words (a # b # c # d # m) =
     (push_bit 24 (ucast a) OR push_bit 16 (ucast b) OR push_bit 8 (ucast c) OR ucast d) # sha_words m"
| "sha_words _ = []"

text \<open>The message schedule, the latest word first.\<close>

definition sha_next :: "w32 list \<Rightarrow> w32" where
  "sha_next ws =
     (let x = ws ! 1; y = ws ! 14
      in (rotr 17 x XOR rotr 19 x XOR drop_bit 10 x) + ws ! 6
         + (rotr 7 y XOR rotr 18 y XOR drop_bit 3 y) + ws ! 15)"

fun sha_schedule :: "nat \<Rightarrow> w32 list \<Rightarrow> w32 list" where
  "sha_schedule 0 ws = ws"
| "sha_schedule (Suc n) ws = sha_schedule n (sha_next ws # ws)"

fun sha_round :: "sha_state \<Rightarrow> w32 \<times> w32 \<Rightarrow> sha_state" where
  "sha_round (a, b, c, d, e, f, g, h) (k, w) =
     (let t1 = h + (rotr 6 e XOR rotr 11 e XOR rotr 25 e) + ((e AND f) XOR (NOT e AND g)) + k + w;
          t2 = (rotr 2 a XOR rotr 13 a XOR rotr 22 a) + ((a AND b) XOR (a AND c) XOR (b AND c))
      in (t1 + t2, a, b, c, d + t1, e, f, g))"

fun sha_add :: "sha_state \<Rightarrow> sha_state \<Rightarrow> sha_state" where
  "sha_add (a, b, c, d, e, f, g, h) (a', b', c', d', e', f', g', h') =
     (a + a', b + b', c + c', d + d', e + e', f + f', g + g', h + h')"

definition sha_block :: "sha_state \<Rightarrow> w32 list \<Rightarrow> sha_state" where
  "sha_block s blk = sha_add s (foldl sha_round s (zip sha_K (rev (sha_schedule 48 (rev blk)))))"

function sha_blocks :: "sha_state \<Rightarrow> w32 list \<Rightarrow> sha_state" where
  "sha_blocks s ws = (if length ws < 16 then s else sha_blocks (sha_block s (take 16 ws)) (drop 16 ws))"
  by pat_completeness auto
termination
  by (relation "measure (\<lambda>(s, ws). length ws)") auto

declare sha_blocks.simps [simp del]

definition hex_char :: "nat \<Rightarrow> char" where
  "hex_char n = (if n < 10 then chr (48 + n) else chr (87 + n))"

definition hex_word :: "w32 \<Rightarrow> string" where
  "hex_word w =
     map (\<lambda>i. hex_char (unat (drop_bit i w AND 15))) [28, 24, 20, 16, 12, 8, 4, 0]"

fun state_words :: "sha_state \<Rightarrow> w32 list" where
  "state_words (a, b, c, d, e, f, g, h) = [a, b, c, d, e, f, g, h]"

definition sha256_hex :: "string \<Rightarrow> string" where
  "sha256_hex s =
     concat (map hex_word (state_words (sha_blocks sha_init (sha_words (sha_pad (map (\<lambda>c. word_of_int (of_char c)) s))))))"

lemma lower_hex_char: "n < 16 \<Longrightarrow> lower_hex (hex_char n)"
  by (auto simp: lower_hex_def hex_char_def is_digit_def)

lemma nibble_less: "unat (w AND 15 :: w32) < 16"
proof -
  have "unat (w AND 15) \<le> unat (15 :: w32)"
    by (rule word_and_le1 [THEN word_le_nat_alt [THEN iffD1]])
  then show ?thesis by simp
qed

lemma hex_word_length: "length (hex_word w) = 8"
  by (simp add: hex_word_def)

lemma hex_word_hex: "list_all lower_hex (hex_word w)"
  by (simp add: hex_word_def lower_hex_char nibble_less)

lemma state_words_length: "length (state_words s) = 8"
  by (cases s rule: state_words.cases) simp

lemma concat_const_length: "(\<And>x. x \<in> set xs \<Longrightarrow> length x = k) \<Longrightarrow> length (concat xs) = k * length xs"
  by (induction xs) auto

interpretation sha: digest sha256_hex
proof
  fix x
  show "length (sha256_hex x) = 64"
    unfolding sha256_hex_def
    by (subst concat_const_length [where k = 8]) (auto simp: hex_word_length state_words_length)
  show "list_all lower_hex (sha256_hex x)"
    unfolding sha256_hex_def using hex_word_hex by (auto simp: list_all_iff)
qed

end
