(* ===== verification/AuditLog.thy ===== *)
theory AuditLog
  imports AuditCodec Sha256
begin

text \<open>
  \<open>internal/audit/audit.go\<close>: the hash-chained log and its verifier. \<open>Append\<close> is a step on the
  log's state (the bytes its writer has taken, the head, the sequence number); what the writer
  answers and the formatted clock are inputs. \<open>VerifyFrom\<close> walks the bytes of a log line by
  line. The hash function is the parameter \<open>H\<close>, instantiated by \<open>sha256_hex\<close>.
\<close>

section \<open>Writing: New, Resume, Append, Head\<close>

abbreviation nl :: char where
  "nl \<equiv> CHR 0x0A"

definition GenesisHash :: string where
  "GenesisHash = replicate 64 CHR ''0''"

record audit_log =
  l_w :: string
  l_prev :: string
  l_seq :: uint64

text \<open>
  What one \<open>Write\<close> answers: all bytes taken, or an error after some of them went out.
\<close>

datatype write_result = WriteOK | WriteFail string nat

definition New :: "string \<Rightarrow> audit_log" where
  "New w = \<lparr>l_w = w, l_prev = GenesisHash, l_seq = 0\<rparr>"

definition Resume :: "string \<Rightarrow> string \<Rightarrow> uint64 \<Rightarrow> audit_log" where
  "Resume w head seq =
     \<lparr>l_w = w, l_prev = (if head = [] then GenesisHash else head), l_seq = seq\<rparr>"

definition chainHash :: "(string \<Rightarrow> string) \<Rightarrow> string \<Rightarrow> audit_record \<Rightarrow> string" where
  "chainHash H prev r = H (prev @ marshal (r\<lparr>a_hash := []\<rparr>))"

text \<open>The record \<open>Append\<close> completes and the line it writes for it.\<close>

definition complete :: "(string \<Rightarrow> string) \<Rightarrow> string \<Rightarrow> audit_log \<Rightarrow> audit_record \<Rightarrow> audit_record" where
  "complete H now l r =
     (let r1 = r\<lparr>a_seq := l_seq l + 1,
                 a_ts := (if a_ts r = [] then now else a_ts r),
                 a_prev := l_prev l,
                 a_hash := []\<rparr>
      in r1\<lparr>a_hash := chainHash H (l_prev l) r1\<rparr>)"

definition record_line :: "audit_record \<Rightarrow> string" where
  "record_line r = marshal r @ [nl]"

definition Append ::
  "(string \<Rightarrow> string) \<Rightarrow> string \<Rightarrow> write_result \<Rightarrow> audit_log \<Rightarrow> audit_record
     \<Rightarrow> audit_log \<times> (string + audit_record)" where
  "Append H now wr l r =
     (let r' = complete H now l r
      in case wr of
           WriteFail e n \<Rightarrow> (l\<lparr>l_w := l_w l @ take n (record_line r')\<rparr>, Inl e)
         | WriteOK \<Rightarrow>
             (l\<lparr>l_w := l_w l @ record_line r', l_prev := a_hash r', l_seq := a_seq r'\<rparr>, Inr r'))"

definition Head :: "audit_log \<Rightarrow> string \<times> uint64" where
  "Head l = (l_prev l, l_seq l)"

section \<open>Verifying\<close>

text \<open>The messages of a break, without the decoder's own error text.\<close>

datatype problem =
    DecodeProblem
  | TrailingBytes
  | SeqJump uint64 uint64
  | PrevMismatch string string
  | HashMismatch string string

record verify_result =
  v_records :: nat
  v_last_seq :: uint64
  v_head :: string
  v_ok :: bool
  v_break_at :: uint64
  v_problem :: "problem option"
  v_truncated :: bool
  v_unterminated :: bool

text \<open>\<open>ReadString('\n')\<close>: the line with its newline, whether it had one, and the rest.\<close>

fun read_line :: "string \<Rightarrow> string \<times> bool \<times> string" where
  "read_line [] = ([], False, [])"
| "read_line (c # s) =
     (if c = nl then ([c], True, s)
      else case read_line s of (raw, t, rest) \<Rightarrow> (c # raw, t, rest))"

definition broken :: "verify_result \<Rightarrow> uint64 \<Rightarrow> problem \<Rightarrow> verify_result" where
  "broken res at p = res\<lparr>v_ok := False, v_break_at := at, v_problem := Some p\<rparr>"

text \<open>
  The checks on one non-empty line, in the order of the loop body: \<open>Inl\<close> is a result the walk
  stops with, \<open>Inr\<close> the record the line holds.
\<close>

definition check_line ::
  "(string \<Rightarrow> string) \<Rightarrow> verify_result \<Rightarrow> string \<Rightarrow> uint64 \<Rightarrow> string \<Rightarrow> bool
     \<Rightarrow> verify_result + audit_record" where
  "check_line H res prev lastSeq line unterminated =
     (case decode_record line of
        None \<Rightarrow>
          Inl (if unterminated then res\<lparr>v_truncated := True\<rparr>
               else broken res (lastSeq + 1) DecodeProblem)
      | Some (r, rest) \<Rightarrow>
          (if skip_ws rest \<noteq> [] then Inl (broken res (lastSeq + 1) TrailingBytes)
           else if a_seq r \<noteq> lastSeq + 1 then Inl (broken res (a_seq r) (SeqJump lastSeq (a_seq r)))
           else if a_prev r \<noteq> prev then Inl (broken res (a_seq r) (PrevMismatch (a_prev r) prev))
           else if chainHash H prev r \<noteq> a_hash r then
             Inl (broken res (a_seq r) (HashMismatch (a_hash r) (chainHash H prev r)))
           else Inr r))"

definition count_record :: "verify_result \<Rightarrow> audit_record \<Rightarrow> verify_result" where
  "count_record res r =
     res\<lparr>v_records := v_records res + 1, v_head := a_hash r, v_last_seq := a_seq r\<rparr>"

lemma read_line_length: "read_line s = (raw, True, rest) \<Longrightarrow> length rest < length s"
  by (induction s arbitrary: raw) (auto split: if_splits prod.splits intro: less_SucI)

text \<open>
  The loop. \<open>fail\<close> is the error the reader ends with, \<open>None\<close> for end of file; it surfaces when
  the walk reaches the last, unterminated line.
\<close>

function verify_loop ::
  "(string \<Rightarrow> string) \<Rightarrow> string option \<Rightarrow> verify_result \<Rightarrow> string \<Rightarrow> uint64 \<Rightarrow> string
     \<Rightarrow> string + verify_result" where
  "verify_loop H fail res prev lastSeq s =
     (case read_line s of (raw, terminated, rest) \<Rightarrow>
        (case (if terminated then None else fail) of
           Some e \<Rightarrow> Inl e
         | None \<Rightarrow>
             (let line = TrimSpace raw
              in if line = [] then
                   (if terminated then verify_loop H fail res prev lastSeq rest else Inr res)
                 else
                   (case check_line H res prev lastSeq line (\<not> terminated) of
                      Inl res' \<Rightarrow> Inr res'
                    | Inr r \<Rightarrow>
                        (if terminated
                         then verify_loop H fail (count_record res r) (a_hash r) (a_seq r) rest
                         else Inr ((count_record res r)\<lparr>v_unterminated := True\<rparr>))))))"
  by pat_completeness auto
termination
  by (relation "measure (\<lambda>(H, fail, res, prev, lastSeq, s). length s)")
    (simp_all, (metis read_line_length)+)

declare verify_loop.simps [simp del]

definition VerifyFrom ::
  "(string \<Rightarrow> string) \<Rightarrow> string \<Rightarrow> string option \<Rightarrow> string \<Rightarrow> uint64 \<Rightarrow> string + verify_result" where
  "VerifyFrom H s fail head0 seq =
     (let head = (if head0 = [] then GenesisHash else head0)
      in verify_loop H fail
           \<lparr>v_records = 0, v_last_seq = seq, v_head = head, v_ok = True, v_break_at = 0,
            v_problem = None, v_truncated = False, v_unterminated = False\<rparr> head seq s)"

definition Verify :: "(string \<Rightarrow> string) \<Rightarrow> string \<Rightarrow> string option \<Rightarrow> string + verify_result" where
  "Verify H s fail = VerifyFrom H s fail GenesisHash 0"

end
