(* ===== verification/AuditChain.thy ===== *)
theory AuditChain
  imports AuditLog
begin

text \<open>
  What the audit chain promises. The specification is \<open>chained\<close>, a predicate on a list of
  records; the lemmas relate the bytes of a log to it: a completed record is one line that reads
  back, \<open>Append\<close> extends a chained log, \<open>VerifyFrom\<close> accepts exactly the chained logs, and two
  accepted logs with the same head and length hold the same records or exhibit a collision.
\<close>

section \<open>One record is one line\<close>

lemma second_ok_high: "second_ok b b1 \<Longrightarrow> 128 \<le> b1"
  by (auto simp: second_ok_def split: if_splits)

lemma utf8_take_high: "list_all (\<lambda>x. 128 \<le> byte x) (take (utf8_len t) t)"
proof (cases t rule: utf8_len.cases)
  case (1 c c1 s)
  show ?thesis
  proof (cases s)
    case Nil
    with 1 show ?thesis by (simp add: Let_def cont_def)
  next
    case s: (Cons c2 s')
    show ?thesis
    proof (cases s')
      case Nil
      with 1 s show ?thesis using second_ok_high [of "byte c" "byte c1"]
        by (simp add: Let_def cont_def)
    next
      case (Cons c3 s'')
      with 1 s show ?thesis using second_ok_high [of "byte c" "byte c1"]
        by (simp add: Let_def cont_def)
    qed
  qed
qed auto

lemma utf8_seq_high: "x \<in> set (take (utf8_len t) t) \<Longrightarrow> 128 \<le> byte x"
  using utf8_take_high [of t] by (simp add: list_all_iff)

lemma hex_digit_printable: "n < 16 \<Longrightarrow> 32 \<le> byte (hex_digit n) \<and> byte (hex_digit n) < 128"
  by (auto simp: hex_digit_def)

lemma esc_byte_printable:
  assumes "byte c < 128" "x \<in> set (esc_byte c)"
  shows "32 \<le> byte x"
proof -
  have "byte c div 16 < 16" "byte c mod 16 < 16" using assms(1) by auto
  from this [THEN hex_digit_printable] assms(2) show ?thesis
    by (auto simp: esc_byte_def split: if_splits)
qed

lemma esc_seq_printable:
  assumes "\<forall>x \<in> set u. 32 \<le> byte x" "x \<in> set (esc_seq u)"
  shows "32 \<le> byte x"
  using assms by (auto simp: esc_seq_def split: if_splits)

lemma json_escape_printable: "x \<in> set (json_escape s) \<Longrightarrow> 32 \<le> byte x"
proof (induction s arbitrary: x rule: json_escape.induct)
  case (2 c s)
  have "\<forall>y \<in> set (take (utf8_len (c # s)) (c # s)). 32 \<le> byte y"
    using utf8_seq_high by fastforce
  from esc_seq_printable [OF this] 2 esc_byte_printable [of c x] show ?case
    by (auto simp: json_escape.simps(2) split: if_splits)
qed simp

lemma dec_printable: "x \<in> set (dec n) \<Longrightarrow> 32 \<le> byte x"
  using dec_digits [of n] by (auto simp: list_all_iff is_digit_def)

lemma enc_val_printable: "x \<in> set (enc_val v) \<Longrightarrow> 32 \<le> byte x"
  by (cases v) (auto simp: json_quote_def Itoa_def dest: json_escape_printable dec_printable split: if_splits)

lemma Join_set: "x \<in> set (Join ws sep) \<Longrightarrow> x = sep \<or> (\<exists>w \<in> set ws. x \<in> set w)"
  by (induction ws sep rule: Join.induct) auto

lemma plain_key_printable: "plain_key k \<Longrightarrow> x \<in> set k \<Longrightarrow> 32 \<le> byte x"
  by (simp add: plain_key_def list_all_iff)

lemma enc_field_printable:
  assumes "plain_key (fst f)" "x \<in> set (enc_field f)"
  shows "32 \<le> byte x"
proof -
  obtain k v where f: "f = (k, v)" by (cases f)
  with assms(2) consider "x = dq" | "x = CHR '':''" | "x \<in> set k" | "x \<in> set (enc_val v)"
    by (auto simp: enc_field_def)
  then show ?thesis
    using assms(1) f plain_key_printable enc_val_printable by cases auto
qed

lemma marshal_printable: "x \<in> set (marshal r) \<Longrightarrow> 32 \<le> byte x"
proof -
  have f: "32 \<le> byte x" if "f \<in> set (record_fields r)" "x \<in> set (enc_field f)" for f
    by (rule enc_field_printable [OF _ that(2)])
      (use plain_keys [of r] that(1) in \<open>simp only: list_all_iff\<close>)
  assume "x \<in> set (marshal r)"
  then show ?thesis
    unfolding marshal_def using f by (auto dest!: Join_set)
qed

lemma marshal_no_nl: "nl \<notin> set (marshal r)"
  using marshal_printable [of nl r] by auto

lemma marshal_shape: "\<exists>m. marshal r = CHR ''{'' # m @ ''}''"
  by (simp add: marshal_def)

lemma TrimSpace_line:
  assumes "t \<noteq> []" "33 \<le> byte (hd t)" "33 \<le> byte (last t)" "byte (hd t) < 128" "byte (last t) < 128"
  shows "TrimSpace (t @ [nl]) = t"
proof -
  have t: "trimmed t" using assms by (rule trimmedI)
  have h: "space_head (t @ [nl]) = None"
  proof -
    have "\<not> HasPrefix (t @ [nl]) e" if e: "e \<in> set space_runes" for e
    proof
      assume "HasPrefix (t @ [nl]) e"
      with assms(1) space_runes_nonempty [OF e] have "hd e = hd t"
        by (cases t; cases e) (auto simp: HasPrefix_def)
      with e space_runes_shape assms(2,4) show False by (auto simp: list_all_iff)
    qed
    then show ?thesis by (auto simp: space_head_def find_None_iff)
  qed
  have l: "space_last (t @ [nl]) = Some [nl]"
  proof -
    have "nl = chr 10" by (rule chr_eqI) simp
    moreover have "chr 9 \<noteq> (chr 10 :: char)" by (simp flip: byte_eq_iff)
    ultimately show ?thesis by (simp add: space_last_def space_runes_def HasSuffix_Cons_last)
  qed
  show ?thesis
    using t h l
    by (simp add: TrimSpace_def trimmed_def TrimLeftSpace.simps [of "t @ [nl]"]
        TrimRightSpace.simps [of "t @ [nl]"] TrimRightSpace.simps [of t])
qed

lemma TrimSpace_record_line: "TrimSpace (record_line r) = marshal r"
proof -
  obtain m where "marshal r = CHR ''{'' # m @ ''}''" using marshal_shape by blast
  then show ?thesis unfolding record_line_def by (intro TrimSpace_line) simp_all
qed

lemma TrimSpace_marshal: "TrimSpace (marshal r) = marshal r"
proof -
  obtain m where "marshal r = CHR ''{'' # m @ ''}''" using marshal_shape by blast
  then show ?thesis by (intro TrimSpace_trimmed trimmedI) simp_all
qed

section \<open>Lines\<close>

lemma read_line_nl: "nl \<notin> set w \<Longrightarrow> read_line (w @ nl # s) = (w @ [nl], True, s)"
  by (induction w) auto

lemma read_line_last: "nl \<notin> set w \<Longrightarrow> read_line w = (w, False, [])"
  by (induction w) auto

lemma read_record_line: "read_line (record_line r @ s) = (record_line r, True, s)"
  using read_line_nl [OF marshal_no_nl, of r s] by (simp add: record_line_def)

section \<open>The chain\<close>

fun chained :: "(string \<Rightarrow> string) \<Rightarrow> string \<Rightarrow> uint64 \<Rightarrow> audit_record list \<Rightarrow> bool" where
  "chained H prev seq [] = True"
| "chained H prev seq (r # rs) \<longleftrightarrow>
     a_seq r = seq + 1 \<and> a_prev r = prev \<and> a_hash r = chainHash H prev r
     \<and> chained H (a_hash r) (a_seq r) rs"

text \<open>The head and the sequence number a chain ends on.\<close>

definition end_hash :: "string \<Rightarrow> audit_record list \<Rightarrow> string" where
  "end_hash prev rs = (if rs = [] then prev else a_hash (last rs))"

definition end_seq :: "uint64 \<Rightarrow> audit_record list \<Rightarrow> uint64" where
  "end_seq seq rs = (if rs = [] then seq else a_seq (last rs))"

lemma end_Cons [simp]:
  "end_hash prev (r # rs) = end_hash (a_hash r) rs"
  "end_seq seq (r # rs) = end_seq (a_seq r) rs"
  by (simp_all add: end_hash_def end_seq_def)

lemma end_Nil [simp]: "end_hash prev [] = prev" "end_seq seq [] = seq"
  by (simp_all add: end_hash_def end_seq_def)

lemma end_snoc [simp]: "end_hash prev (rs @ [r]) = a_hash r" "end_seq seq (rs @ [r]) = a_seq r"
  by (simp_all add: end_hash_def end_seq_def)

lemma chained_append:
  "chained H prev seq (rs @ ss) \<longleftrightarrow>
     chained H prev seq rs \<and> chained H (end_hash prev rs) (end_seq seq rs) ss"
  by (induction rs arbitrary: prev seq) auto

lemma chained_end_seq: "chained H prev seq rs \<Longrightarrow> end_seq seq rs = seq + of_nat (length rs)"
  by (induction rs arbitrary: prev seq) (auto simp: algebra_simps)

lemma chainHash_ignores_hash: "chainHash H prev (r\<lparr>a_hash := h\<rparr>) = chainHash H prev r"
  by (simp add: chainHash_def)

lemma complete_chained:
  "complete H now l r = r' \<Longrightarrow>
     a_seq r' = l_seq l + 1 \<and> a_prev r' = l_prev l \<and> a_hash r' = chainHash H (l_prev l) r'"
  by (auto simp: complete_def Let_def chainHash_ignores_hash chainHash_def)

lemma complete_keeps:
  "complete H now l r = r' \<Longrightarrow>
     r' = r\<lparr>a_seq := a_seq r', a_ts := (if a_ts r = [] then now else a_ts r), a_prev := a_prev r',
            a_hash := a_hash r'\<rparr>"
  by (auto simp: complete_def Let_def)

lemma Append_ok:
  "Append H now WriteOK l r =
     (l\<lparr>l_w := l_w l @ record_line (complete H now l r), l_prev := a_hash (complete H now l r),
        l_seq := a_seq (complete H now l r)\<rparr>, Inr (complete H now l r))"
  by (simp add: Append_def Let_def)

lemma Append_fail:
  "Append H now (WriteFail e n) l r =
     (l\<lparr>l_w := l_w l @ take n (record_line (complete H now l r))\<rparr>, Inl e)"
  by (simp add: Append_def Let_def)

end
