(* ===== verification/AuditVerify.thy ===== *)
theory AuditVerify
  imports AuditChain
begin

text \<open>
  The verifier against the chain: what \<open>VerifyFrom\<close> answers on the bytes of a log, in terms of
  the records its lines hold (\<open>log_records\<close>). A log of completed records is accepted and counted,
  the first record that does not fit is where the walk stops, and an accepted log is a chain.
\<close>

section \<open>The lines and records of a log\<close>

text \<open>The record a line holds, if it decodes; the lines of a log, the last one without newline.\<close>

definition line_record :: "string \<Rightarrow> audit_record list" where
  "line_record raw =
     (if TrimSpace raw = [] then []
      else case decode_record (TrimSpace raw) of None \<Rightarrow> [] | Some (r, _) \<Rightarrow> [r])"

definition log_records :: "string \<Rightarrow> audit_record list" where
  "log_records s = concat (map line_record (Split s nl))"

text \<open>A line that is blank or holds one record and nothing else.\<close>

definition line_ok :: "string \<Rightarrow> bool" where
  "line_ok raw \<longleftrightarrow>
     TrimSpace raw = []
     \<or> (case decode_record (TrimSpace raw) of None \<Rightarrow> False | Some (_, rest) \<Rightarrow> skip_ws rest = [])"

definition tail_ok :: "string \<Rightarrow> bool" where
  "tail_ok raw \<longleftrightarrow> line_ok raw \<or> decode_record (TrimSpace raw) = None"

definition readable :: "string \<Rightarrow> bool" where
  "readable s \<longleftrightarrow> list_all line_ok (butlast (Split s nl)) \<and> tail_ok (last (Split s nl))"

lemma nl_chr: "chr 10 = nl" "chr 9 \<noteq> nl" "nl \<noteq> chr 9"
  by (simp_all flip: byte_eq_iff)

lemma space_head_snoc_nl:
  "space_head (w @ [nl]) = (if w = [] then Some [nl] else space_head w)"
proof (cases "w = []")
  case True
  then show ?thesis by (simp add: space_head_def space_runes_def HasPrefix_def nl_chr)
next
  case False
  have "HasPrefix (w @ [nl]) e = HasPrefix w e" if "e \<in> set space_runes" for e
  proof -
    have "e = [nl] \<or> nl \<notin> set e"
      using that by (auto simp: space_runes_def nl_chr simp flip: byte_eq_iff)
    then show ?thesis
    proof
      assume "e = [nl]"
      with False show ?thesis by (cases w) (auto simp: HasPrefix_def)
    next
      assume "nl \<notin> set e"
      then show ?thesis
        unfolding HasPrefix_prefix prefix_snoc by (auto simp: in_set_conv_decomp)
    qed
  qed
  with False show ?thesis unfolding space_head_def by (auto intro: find_cong)
qed

lemma TrimLeftSpace_Nil [simp]: "TrimLeftSpace [] = []"
  by (simp add: TrimLeftSpace.simps space_head_def space_runes_def HasPrefix_def)

lemma TrimRightSpace_Nil [simp]: "TrimRightSpace [] = []"
  using TrimRightSpace_prefix [of "[]"] by simp

lemma TrimLeftSpace_snoc_nl:
  "TrimLeftSpace (w @ [nl]) = (if TrimLeftSpace w = [] then [] else TrimLeftSpace w @ [nl])"
proof (induction w rule: TrimLeftSpace.induct)
  case (1 w)
  show ?case
  proof (cases "w = []")
    case True
    have "TrimLeftSpace [nl] = []"
      using space_head_snoc_nl [of "[]"] by (simp add: TrimLeftSpace.simps [of "[nl]"])
    with True show ?thesis by simp
  next
    case w: False
    show ?thesis
    proof (cases "space_head w")
      case None
      with w show ?thesis
        by (simp add: TrimLeftSpace.simps [of w] TrimLeftSpace.simps [of "w @ [nl]"] space_head_snoc_nl)
    next
      case (Some e)
      then have "length e \<le> length w"
        using space_head_Some [OF Some] by simp
      with w Some 1 [OF Some] show ?thesis
        by (simp add: TrimLeftSpace.simps [of w] TrimLeftSpace.simps [of "w @ [nl]"] space_head_snoc_nl)
    qed
  qed
qed

lemma TrimSpace_snoc_nl: "TrimSpace (w @ [nl]) = TrimSpace w"
proof -
  have l: "space_last (t @ [nl]) = Some [nl]" for t
    by (simp add: space_last_def space_runes_def HasSuffix_Cons_last nl_chr)
  have "TrimRightSpace (t @ [nl]) = TrimRightSpace t" for t
    by (simp add: TrimRightSpace.simps [of "t @ [nl]"] l)
  then show ?thesis by (simp add: TrimSpace_def TrimLeftSpace_snoc_nl)
qed

section \<open>The walk over a log of records\<close>

lemma log_records_nl:
  assumes "nl \<notin> set w"
  shows "log_records (w @ nl # s) = line_record w @ log_records s"
  using assms by (simp add: log_records_def Split_append_sep)

lemma log_records_last: "nl \<notin> set w \<Longrightarrow> log_records w = line_record w"
  by (simp add: log_records_def Split_no_sep)

lemma line_record_marshal: "line_record (marshal r) = [sanitize_record r]"
proof -
  have "marshal r \<noteq> []" using marshal_shape [of r] by auto
  moreover have "decode_record (marshal r) = Some (sanitize_record r, [])"
    using decode_marshal [of r "[]"] by simp
  ultimately show ?thesis by (simp add: line_record_def TrimSpace_marshal)
qed

lemma log_records_lines:
  "log_records (concat (map record_line rs) @ s) = map sanitize_record rs @ log_records s"
proof (induction rs)
  case (Cons r rs)
  have "log_records (record_line r @ t) = sanitize_record r # log_records t" for t
    using log_records_nl [OF marshal_no_nl, of r t]
    by (simp add: record_line_def line_record_marshal)
  with Cons show ?case by simp
qed simp

text \<open>What the walk has counted after a list of records.\<close>

definition counted :: "verify_result \<Rightarrow> audit_record list \<Rightarrow> verify_result" where
  "counted res rs =
     res\<lparr>v_records := v_records res + length rs, v_head := end_hash (v_head res) rs,
         v_last_seq := end_seq (v_last_seq res) rs\<rparr>"

lemma counted_simps [simp]:
  "counted res [] = res"
  "counted (count_record res r) rs = counted res (r # rs)"
  "v_ok (counted res rs) = v_ok res"
  "v_truncated (counted res rs) = v_truncated res"
  "v_records (counted res rs) = v_records res + length rs"
  by (simp_all add: counted_def count_record_def)

text \<open>One record's line, intact: the walk goes on exactly if it fits the chain.\<close>

lemma check_line_record:
  assumes "utf8_record r"
  shows "check_line H res prev seq (marshal r) u =
    (if a_seq r \<noteq> seq + 1 then Inl (broken res (a_seq r) (SeqJump seq (a_seq r)))
     else if a_prev r \<noteq> prev then Inl (broken res (a_seq r) (PrevMismatch (a_prev r) prev))
     else if chainHash H prev r \<noteq> a_hash r then
       Inl (broken res (a_seq r) (HashMismatch (a_hash r) (chainHash H prev r)))
     else Inr r)"
  using decode_marshal_utf8 [OF assms, of "[]"] by (simp add: check_line_def skip_ws_def)

lemma verify_record_line:
  assumes "utf8_record r"
  shows "verify_loop H fail res prev seq (record_line r @ s) =
    (case check_line H res prev seq (marshal r) False of
       Inl res' \<Rightarrow> Inr res'
     | Inr r' \<Rightarrow> verify_loop H fail (count_record res r') (a_hash r') (a_seq r') s)"
proof -
  have "marshal r \<noteq> []" using marshal_shape [of r] by auto
  then show ?thesis
    by (subst verify_loop.simps) (simp add: read_record_line TrimSpace_record_line Let_def cong: sum.case_cong)
qed

lemma verify_fits:
  assumes "utf8_record r" "a_seq r = seq + 1" "a_prev r = prev" "a_hash r = chainHash H prev r"
  shows "verify_loop H fail res prev seq (record_line r @ s) =
    verify_loop H fail (count_record res r) (a_hash r) (a_seq r) s"
  unfolding verify_record_line [OF assms(1)] check_line_record [OF assms(1)]
  by (simp add: assms(2-3) assms(4) [symmetric])

lemma verify_chained:
  "chained H prev seq rs \<Longrightarrow> list_all utf8_record rs \<Longrightarrow>
     verify_loop H fail res prev seq (concat (map record_line rs) @ s) =
       verify_loop H fail (counted res rs) (end_hash prev rs) (end_seq seq rs) s"
proof (induction rs arbitrary: res prev seq)
  case (Cons r rs)
  then have "a_seq r = seq + 1" "a_prev r = prev" "a_hash r = chainHash H prev r" "utf8_record r"
    and rest: "chained H (a_hash r) (a_seq r) rs" "list_all utf8_record rs"
    by (auto simp only: chained.simps list.pred_inject)
  note verify_fits [OF this(4,1-3)]
  then show ?case using Cons.IH [OF rest] by simp
qed simp

lemma verify_end: "verify_loop H None res prev seq [] = Inr res"
proof -
  have "TrimSpace [] = []" by (simp add: TrimSpace_def)
  then show ?thesis by (subst verify_loop.simps) (simp add: Let_def)
qed

lemma verify_read_error: "nl \<notin> set s \<Longrightarrow> verify_loop H (Some e) res prev seq s = Inl e"
  by (subst verify_loop.simps) (simp add: read_line_last)

text \<open>An unterminated last line that does not decode is a torn write, one that does is a record.\<close>

lemma verify_torn:
  assumes "nl \<notin> set t" "TrimSpace t \<noteq> []" "decode_record (TrimSpace t) = None"
  shows "verify_loop H None res prev seq t = Inr (res\<lparr>v_truncated := True\<rparr>)"
  using assms by (subst verify_loop.simps) (simp add: read_line_last check_line_def Let_def)

lemma verify_unterminated:
  assumes "utf8_record r" "a_seq r = seq + 1" "a_prev r = prev" "a_hash r = chainHash H prev r"
  shows "verify_loop H None res prev seq (marshal r) =
    Inr ((count_record res r)\<lparr>v_unterminated := True\<rparr>)"
proof -
  have "marshal r \<noteq> []" using marshal_shape [of r] by auto
  moreover have "check_line H res prev seq (marshal r) True = Inr r"
    unfolding check_line_record [OF assms(1)] by (simp add: assms(2-3) assms(4) [symmetric])
  ultimately show ?thesis
    by (subst verify_loop.simps) (simp add: read_line_last marshal_no_nl TrimSpace_marshal Let_def)
qed

text \<open>Every proper non-empty part of a written line is a torn write, save for the lost newline.\<close>

lemma torn_line:
  assumes "p @ q = marshal r" "p \<noteq> []" "q \<noteq> []"
  shows "nl \<notin> set p" "TrimSpace p \<noteq> []" "decode_record (TrimSpace p) = None"
proof -
  obtain m where m: "marshal r = CHR ''{'' # m @ ''}''" using marshal_shape by blast
  show "nl \<notin> set p" using marshal_no_nl [of r] assms(1) by (metis Un_iff set_append)
  obtain p' where p: "p = CHR ''{'' # p'" using assms(1,2) m by (cases p) auto
  have h: "space_head p = None"
  proof -
    have "\<not> HasPrefix p e" if e: "e \<in> set space_runes" for e
    proof
      assume "HasPrefix p e"
      with p space_runes_nonempty [OF e] have "hd e = CHR ''{''"
        by (cases e) (auto simp: HasPrefix_def)
      with e space_runes_shape show False by (auto simp: list_all_iff)
    qed
    then show ?thesis by (auto simp: space_head_def find_None_iff)
  qed
  then have t: "TrimSpace p = TrimRightSpace p" by (simp add: TrimSpace_def TrimLeftSpace.simps [of p])
  show ne: "TrimSpace p \<noteq> []"
  proof
    assume "TrimSpace p = []"
    then have a: "TrimRightSpace (CHR ''{'' # p') = []" using t p by simp
    have "TrimRightSpace w \<noteq> []" if "w \<noteq> []" "hd w = CHR ''{''" for w
      using that
    proof (induction w rule: TrimRightSpace.induct)
      case (1 w)
      show ?case
      proof (cases "space_last w")
        case None
        with 1 show ?thesis by (simp add: TrimRightSpace.simps [of w])
      next
        case (Some e)
        have "length e \<noteq> length w"
        proof
          assume l: "length e = length w"
          have "HasSuffix w e" "e \<in> set space_runes"
            using Some by (auto simp: space_last_def find_Some_iff)
          with l have "e = w" by (auto simp: HasSuffix_iff)
          with \<open>e \<in> set space_runes\<close> 1(2,3) space_runes_shape show False
            by (auto simp: list_all_iff)
        qed
        moreover have "length e \<le> length w" using space_last_Some [OF Some] by simp
        ultimately have "take (length w - length e) w \<noteq> []" "hd (take (length w - length e) w) = CHR ''{''"
          using 1(2,3) by (cases w; auto simp: take_Cons')+
        with 1 Some show ?thesis by (simp add: TrimRightSpace.simps [of w])
      qed
    qed
    with a show False by force
  qed
  obtain z where "p = TrimSpace p @ z" unfolding t using TrimRightSpace_prefix by blast
  with assms(1,3) ne show "decode_record (TrimSpace p) = None"
    by (intro decode_torn [of "TrimSpace p" "z @ q" r]) (simp_all flip: append_assoc)
qed

section \<open>Acceptance\<close>

lemma lines_induct [case_names last line]:
  assumes "\<And>w. nl \<notin> set w \<Longrightarrow> P w" "\<And>w s. nl \<notin> set w \<Longrightarrow> P s \<Longrightarrow> P (w @ nl # s)"
  shows "P s"
proof (induction s rule: length_induct)
  case (1 s)
  show ?case
  proof (cases "nl \<in> set s")
    case True
    then obtain w t where "s = w @ nl # t" "nl \<notin> set w" by (meson split_list_first)
    with 1 show ?thesis by (auto intro: assms(2))
  qed (rule assms(1))
qed

lemma verify_line:
  assumes "nl \<notin> set w"
  shows "verify_loop H fail res prev seq (w @ nl # s) =
    (if TrimSpace w = [] then verify_loop H fail res prev seq s
     else case check_line H res prev seq (TrimSpace w) False of
            Inl res' \<Rightarrow> Inr res'
          | Inr r \<Rightarrow> verify_loop H fail (count_record res r) (a_hash r) (a_seq r) s)"
  using assms
  by (subst verify_loop.simps) (simp add: read_line_nl TrimSpace_snoc_nl Let_def cong: sum.case_cong)

lemma verify_last:
  assumes "nl \<notin> set w"
  shows "verify_loop H None res prev seq w =
    (if TrimSpace w = [] then Inr res
     else case check_line H res prev seq (TrimSpace w) True of
            Inl res' \<Rightarrow> Inr res'
          | Inr r \<Rightarrow> Inr ((count_record res r)\<lparr>v_unterminated := True\<rparr>))"
  using assms by (subst verify_loop.simps) (simp add: read_line_last Let_def cong: sum.case_cong)

definition tail_line :: "string \<Rightarrow> string" where
  "tail_line s = TrimSpace (last (Split s nl))"

definition torn_tail :: "string \<Rightarrow> bool" where
  "torn_tail s \<longleftrightarrow> tail_line s \<noteq> [] \<and> decode_record (tail_line s) = None"

definition whole_tail :: "string \<Rightarrow> bool" where
  "whole_tail s \<longleftrightarrow> tail_line s \<noteq> [] \<and> decode_record (tail_line s) \<noteq> None"

lemma line_structure:
  assumes "nl \<notin> set w"
  shows "readable (w @ nl # s) \<longleftrightarrow> line_ok w \<and> readable s"
    and "tail_line (w @ nl # s) = tail_line s"
    and "readable w \<longleftrightarrow> tail_ok w" and "tail_line w = TrimSpace w"
  using assms by (simp_all add: readable_def tail_line_def Split_append_sep Split_no_sep)

text \<open>The answer on a log whose lines are readable and whose records are a chain.\<close>

definition verdict :: "verify_result \<Rightarrow> string \<Rightarrow> verify_result" where
  "verdict res s =
     (counted res (log_records s))
       \<lparr>v_truncated := v_truncated res \<or> torn_tail s, v_unterminated := v_unterminated res \<or> whole_tail s\<rparr>"

lemma verdict_line:
  "nl \<notin> set w \<Longrightarrow> line_record w = [] \<Longrightarrow> verdict res (w @ nl # s) = verdict res s"
  "nl \<notin> set w \<Longrightarrow> line_record w = [r] \<Longrightarrow>
     verdict res (w @ nl # s) = verdict (count_record res r) s"
  by (simp_all add: verdict_def log_records_nl torn_tail_def whole_tail_def line_structure)
    (simp add: counted_def count_record_def)

text \<open>A line that is one record and nothing else, and what the walk asks of it.\<close>

lemma line_ok_cases:
  assumes "line_ok w" "TrimSpace w \<noteq> []"
  obtains r rest where "decode_record (TrimSpace w) = Some (r, rest)" "skip_ws rest = []"
    "line_record w = [r]"
  using assms by (auto simp: line_ok_def line_record_def split: option.splits)

lemma check_line_ok:
  assumes "decode_record l = Some (r, rest)" "skip_ws rest = []"
  shows "check_line H res prev seq l u = Inr r' \<longleftrightarrow> r' = r \<and> chained H prev seq [r]"
    and "chained H prev seq [r] \<Longrightarrow> check_line H res prev seq l u = Inr r"
    and "\<not> chained H prev seq [r] \<Longrightarrow> \<exists>res'. check_line H res prev seq l u = Inl res' \<and> \<not> v_ok res'"
  using assms by (auto simp: check_line_def broken_def)

lemma check_line_bad:
  assumes "\<not> line_ok w" "u \<Longrightarrow> decode_record (TrimSpace w) \<noteq> None"
  shows "\<exists>res'. check_line H res prev seq (TrimSpace w) u = Inl res' \<and> \<not> v_ok res'"
  using assms by (auto simp: line_ok_def check_line_def broken_def split: option.splits)

lemma line_ok_blank: "TrimSpace w = [] \<Longrightarrow> line_ok w \<and> line_record w = []"
  by (simp add: line_ok_def line_record_def)

lemma verify_accepts:
  "readable s \<Longrightarrow> chained H prev seq (log_records s) \<Longrightarrow>
     verify_loop H None res prev seq s = Inr (verdict res s)"
proof (induction s arbitrary: res prev seq rule: lines_induct)
  case (last w)
  then have t: "tail_ok w" and c: "chained H prev seq (line_record w)"
    by (simp_all add: line_structure log_records_last)
  have v: "verdict res w = (counted res (line_record w))
      \<lparr>v_truncated := v_truncated res \<or> torn_tail w, v_unterminated := v_unterminated res \<or> whole_tail w\<rparr>"
    using last(1) by (simp add: verdict_def log_records_last)
  show ?case
  proof (cases "TrimSpace w = [] \<or> decode_record (TrimSpace w) = None")
    case True
    then have "line_record w = []" by (auto simp: line_record_def)
    with True v last(1) show ?thesis
      by (auto simp: verify_last torn_tail_def whole_tail_def line_structure check_line_def)
  next
    case False
    with t have "line_ok w" by (auto simp: tail_ok_def)
    then obtain r rest where r: "decode_record (TrimSpace w) = Some (r, rest)" "skip_ws rest = []"
        "line_record w = [r]"
      using False by (blast elim: line_ok_cases)
    with c False last(1) v show ?thesis
      by (simp add: verify_last check_line_ok(2) torn_tail_def whole_tail_def line_structure
          counted_def count_record_def)
  qed
next
  case (line w s)
  then have t: "line_ok w" "readable s" and c: "chained H prev seq (line_record w @ log_records s)"
    by (simp_all add: line_structure log_records_nl)
  show ?case
  proof (cases "TrimSpace w = []")
    case True
    with line_ok_blank [OF True] line t c show ?thesis by (simp add: verify_line verdict_line)
  next
    case False
    with t obtain r rest where r: "decode_record (TrimSpace w) = Some (r, rest)" "skip_ws rest = []"
        "line_record w = [r]"
      by (blast elim: line_ok_cases)
    from c r(3) have c1: "chained H prev seq [r]" and c2: "chained H (a_hash r) (a_seq r) (log_records s)"
      by (auto simp only: chained.simps append.simps)
    from False r c1 line(1) line.IH [OF t(2) c2] show ?thesis
      by (simp add: verify_line check_line_ok(2) verdict_line(2) del: chained.simps)
  qed
qed

lemma verify_rejects:
  "\<not> (readable s \<and> chained H prev seq (log_records s)) \<Longrightarrow>
     \<exists>res'. verify_loop H None res prev seq s = Inr res' \<and> \<not> v_ok res'"
proof (induction s arbitrary: res prev seq rule: lines_induct)
  case (last w)
  have ne: "TrimSpace w \<noteq> []"
    using last line_ok_blank [of w] by (auto simp: line_structure log_records_last tail_ok_def)
  have "decode_record (TrimSpace w) \<noteq> None"
    using last by (auto simp: line_structure log_records_last line_record_def tail_ok_def
        split: option.splits if_splits)
  note ne = ne this
  show ?case
  proof (cases "line_ok w")
    case True
    then obtain r rest where r: "decode_record (TrimSpace w) = Some (r, rest)" "skip_ws rest = []"
        "line_record w = [r]"
      using ne by (blast elim: line_ok_cases)
    with last True have "\<not> chained H prev seq [r]"
      by (simp add: line_structure log_records_last tail_ok_def)
    from check_line_ok(3) [OF r(1,2) this, of res True] ne last(1) show ?thesis
      by (auto simp: verify_last)
  next
    case False
    from check_line_bad [OF False, of True H res prev seq] ne last(1) show ?thesis
      by (auto simp: verify_last)
  qed
next
  case (line w s)
  show ?case
  proof (cases "TrimSpace w = []")
    case True
    with line line_ok_blank [OF True] show ?thesis
      by (simp add: verify_line line_structure log_records_nl)
  next
    case ne: False
    show ?thesis
    proof (cases "line_ok w")
      case True
      with ne obtain r rest where r: "decode_record (TrimSpace w) = Some (r, rest)" "skip_ws rest = []"
          "line_record w = [r]"
        by (blast elim: line_ok_cases)
      show ?thesis
      proof (cases "chained H prev seq [r]")
        case c: True
        with line(3) r True line(1)
        have "\<not> (readable s \<and> chained H (a_hash r) (a_seq r) (log_records s))"
          by (auto simp: line_structure log_records_nl)
        from line.IH [OF this] c r ne line(1) show ?thesis
          by (simp add: verify_line check_line_ok(2) del: chained.simps)
      next
        case False
        from check_line_ok(3) [OF r(1,2) False, of res False] ne line(1) show ?thesis
          by (auto simp: verify_line)
      qed
    next
      case False
      from check_line_bad [OF False, of False H res prev seq] ne line(1) show ?thesis
        by (auto simp: verify_line)
    qed
  qed
qed

text \<open>The state the walk starts from, and the two lemmas on \<open>VerifyFrom\<close>.\<close>

definition start_result :: "string \<Rightarrow> uint64 \<Rightarrow> verify_result" where
  "start_result head seq =
     \<lparr>v_records = 0, v_last_seq = seq, v_head = head, v_ok = True, v_break_at = 0,
      v_problem = None, v_truncated = False, v_unterminated = False\<rparr>"

definition start_head :: "string \<Rightarrow> string" where
  "start_head head = (if head = [] then GenesisHash else head)"

lemma VerifyFrom_loop:
  "VerifyFrom H s fail head seq =
     verify_loop H fail (start_result (start_head head) seq) (start_head head) seq s"
  by (simp add: VerifyFrom_def start_result_def start_head_def Let_def)

lemma VerifyFrom_cases:
  "if readable s \<and> chained H (start_head head) seq (log_records s)
   then VerifyFrom H s None head seq = Inr (verdict (start_result (start_head head) seq) s)
   else \<exists>res. VerifyFrom H s None head seq = Inr res \<and> \<not> v_ok res"
  using verify_accepts [of s H "start_head head" seq]
    verify_rejects [of s H "start_head head" seq "start_result (start_head head) seq"]
  by (auto simp: VerifyFrom_loop)

lemma VerifyFrom_accepted:
  assumes "VerifyFrom H s None head seq = Inr res" "v_ok res"
  shows "readable s" "chained H (start_head head) seq (log_records s)"
    "v_records res = length (log_records s)"
    "v_head res = end_hash (start_head head) (log_records s)"
    "v_last_seq res = end_seq seq (log_records s)"
    "v_truncated res = torn_tail s" "v_unterminated res = whole_tail s"
  using assms VerifyFrom_cases [of s H head seq]
  by (auto simp: verdict_def counted_def start_result_def split: if_splits)

end
