(* ===== verification/AuditHistory.thy ===== *)
theory AuditHistory
  imports AuditVerify Interfaces
begin

text \<open>
  A log over time: runs of \<open>Append\<close> whose writes succeed, fail or tear, and what the verifier
  answers on the bytes they leave. The lemmas inside \<open>digest\<close> need no more of the hash than its
  shape; the properties state them for SHA-256, through the interpretation \<open>sha\<close>.
\<close>

section \<open>Runs of Append\<close>

text \<open>One call: the formatted clock, what the writer answers, the record handed in.\<close>

type_synonym append_call = "string \<times> write_result \<times> audit_record"

fun append_run :: "(string \<Rightarrow> string) \<Rightarrow> append_call list \<Rightarrow> audit_log \<Rightarrow> audit_log" where
  "append_run H [] l = l"
| "append_run H ((now, wr, r) # es) l = append_run H es (fst (Append H now wr l r))"

lemma append_run_append: "append_run H (es @ fs) l = append_run H fs (append_run H es l)"
  by (induction H es l rule: append_run.induct) auto

text \<open>A call with valid UTF-8 texts, whose write goes out whole or not at all.\<close>

definition utf8_call :: "append_call \<Rightarrow> bool" where
  "utf8_call e = (case e of (now, _, r) \<Rightarrow> utf8_valid now \<and> utf8_record r)"

definition clean_call :: "append_call \<Rightarrow> bool" where
  "clean_call e =
     (utf8_call e \<and> (case fst (snd e) of WriteOK \<Rightarrow> True | WriteFail _ n \<Rightarrow> n = 0))"

definition taken :: "append_call list \<Rightarrow> nat" where
  "taken es = length (filter (\<lambda>e. fst (snd e) = WriteOK) es)"

text \<open>The payloads of the calls whose write went out.\<close>

abbreviation sent_payloads :: "append_call list \<Rightarrow> audit_record list" where
  "sent_payloads es \<equiv> map (\<lambda>e. payload (snd (snd e))) (filter (\<lambda>e. fst (snd e) = WriteOK) es)"

lemma taken_Cons: "taken (e # es) = (if fst (snd e) = WriteOK then 1 else 0) + taken es"
  by (simp add: taken_def)

text \<open>The invariant: the log's bytes are a chain of records that its head and number end.\<close>

definition log_of ::
  "(string \<Rightarrow> string) \<Rightarrow> string \<Rightarrow> uint64 \<Rightarrow> string \<Rightarrow> audit_record list \<Rightarrow> audit_log \<Rightarrow> bool" where
  "log_of H head seq w rs l \<longleftrightarrow>
     l_w l = w @ concat (map record_line rs) \<and> l_prev l = end_hash head rs
     \<and> l_seq l = end_seq seq rs \<and> chained H head seq rs \<and> list_all utf8_record rs"

lemma log_of_start: "log_of H (start_head head) seq w [] (Resume w head seq)"
  by (simp add: log_of_def Resume_def start_head_def)

lemma New_Resume: "New w = Resume w [] 0"
  by (simp add: New_def Resume_def)

lemma utf8_digits: "list_all is_digit s \<Longrightarrow> utf8_valid s"
  by (rule utf8_valid_ascii) (fastforce simp: ascii_def list_all_iff is_digit_def)

lemma utf8_start_head: "utf8_valid head \<Longrightarrow> utf8_valid (start_head head)"
proof -
  have "utf8_valid GenesisHash"
    by (rule utf8_digits) (simp add: GenesisHash_def list_all_iff is_digit_def)
  then show "utf8_valid head \<Longrightarrow> utf8_valid (start_head head)" by (simp add: start_head_def)
qed

lemma log_of_verdict:
  assumes "log_of H (start_head head) seq [] rs l"
  shows "VerifyFrom H (l_w l) None head seq =
    Inr ((start_result (l_prev l) (l_seq l))\<lparr>v_records := length rs\<rparr>)"
  using assms verify_chained [of H "start_head head" seq rs None _ "[]"]
  by (auto simp: log_of_def VerifyFrom_loop verify_end start_result_def counted_def)

section \<open>The interface it provides\<close>

text \<open>A log whose bytes end where a line ends; an append to it that succeeds adds one record.\<close>

definition at_line_end :: "audit_log \<Rightarrow> bool" where
  "at_line_end l \<longleftrightarrow> l_w l = [] \<or> last (l_w l) = nl"

definition log_append ::
  "(string \<Rightarrow> string) \<Rightarrow> string \<times> write_result \<Rightarrow> audit_log \<Rightarrow> audit_record
     \<Rightarrow> audit_log \<times> (string + audit_record)" where
  "log_append H e l r = Append H (fst e) (snd e) l r"

definition held :: "audit_log \<Rightarrow> audit_record list" where
  "held l = log_records (l_w l)"

lemma log_records_Nil [simp]: "log_records [] = []"
  by (simp add: log_records_def line_record_def TrimSpace_def)

lemma log_records_snoc_line:
  assumes "w = [] \<or> last w = nl"
  shows "log_records (w @ record_line r) = log_records w @ [sanitize_record r]"
proof (cases "w = []")
  case True
  then show ?thesis using log_records_lines [of "[r]" "[]"] by simp
next
  case False
  with assms obtain v where v: "w = v @ [nl]" by (metis append_butlast_last_id)
  have split: "log_records (v @ nl # s) = log_records v @ log_records s" for s
    by (simp add: log_records_def Split_append)
  show ?thesis
    using split [of "record_line r"] split [of "[]"] log_records_lines [of "[r]" "[]"] by (simp add: v)
qed

lemma payload_complete: "payload (complete H now l r) = payload r"
  by (simp add: payload_def complete_def Let_def)

interpretation gate_audit: auditor "log_append H" held at_line_end sanitize_record for H
proof
  fix a e r a' r'
  assume a: "log_append H e a r = (a', Inr r')"
  then have w: "snd e = WriteOK" by (cases "snd e") (auto simp: log_append_def Append_def Let_def)
  with a have c: "r' = complete H (fst e) a r" "l_w a' = l_w a @ record_line r'"
    by (auto simp: log_append_def Append_ok)
  then show "payload r' = payload r" by (simp add: payload_complete)
  assume "at_line_end a"
  with c show "at_line_end a' \<and> held a' = held a @ [sanitize_record r']"
    using log_records_snoc_line [of "l_w a" r']
    by (simp add: at_line_end_def held_def record_line_def)
qed

section \<open>Logs that verify\<close>

context digest
begin

lemma end_hash_utf8: "utf8_valid head \<Longrightarrow> chained H head seq rs \<Longrightarrow> utf8_valid (end_hash head rs)"
proof (induction rs arbitrary: head seq)
  case (Cons r rs)
  then have "utf8_valid (a_hash r)" by (simp add: chainHash_def utf8_valid_ascii digest_ascii)
  with Cons show ?case by (metis chained.simps(2) end_Cons(1))
qed simp

lemma complete_utf8:
  assumes "utf8_record r" "utf8_valid now" "utf8_valid (l_prev l)"
  shows "utf8_record (complete H now l r)"
  using assms
  by (simp add: complete_def Let_def utf8_record_def chainHash_def utf8_valid_ascii digest_ascii)

lemma log_of_Append:
  assumes "log_of H head seq w rs l" "utf8_valid head" "utf8_record r" "utf8_valid now"
  shows "log_of H head seq w (rs @ [complete H now l r]) (fst (Append H now WriteOK l r))"
proof -
  note c = complete_chained [of H now l r, OF refl]
  have "utf8_valid (l_prev l)" using assms(1,2) end_hash_utf8 by (auto simp: log_of_def)
  with assms have "utf8_record (complete H now l r)" by (intro complete_utf8)
  with assms(1) c show ?thesis
    unfolding Append_ok by (simp add: log_of_def chained_append)
qed

lemma log_of_run_payloads:
  "log_of H head seq w rs l \<Longrightarrow> utf8_valid head \<Longrightarrow> list_all clean_call es \<Longrightarrow>
     \<exists>ss. log_of H head seq w (rs @ ss) (append_run H es l)
       \<and> map payload ss = sent_payloads es"
proof (induction es arbitrary: rs l)
  case Nil
  then show ?case by (intro exI [of _ "[]"]) simp
next
  case (Cons e es)
  obtain now wr r where e: "e = (now, wr, r)" by (cases e)
  show ?case
  proof (cases wr)
    case WriteOK
    with Cons.prems e have "log_of H head seq w (rs @ [complete H now l r]) (fst (Append H now wr l r))"
      by (auto intro: log_of_Append simp: clean_call_def utf8_call_def)
    from Cons.IH [OF this] Cons.prems obtain ss where
      "log_of H head seq w ((rs @ [complete H now l r]) @ ss) (append_run H es (fst (Append H now wr l r)))"
      "map payload ss = sent_payloads es" by auto
    with e WriteOK show ?thesis
      by (intro exI [of _ "complete H now l r # ss"]) (simp add: payload_complete)
  next
    case (WriteFail x n)
    with Cons.prems e have "fst (Append H now wr l r) = l"
      by (simp add: Append_fail clean_call_def)
    with Cons WriteFail e show ?thesis by simp
  qed
qed

lemma log_of_run:
  assumes "log_of H head seq w rs l" "utf8_valid head" "list_all clean_call es"
  shows "\<exists>ss. log_of H head seq w (rs @ ss) (append_run H es l) \<and> length ss = taken es"
  using log_of_run_payloads [OF assms] unfolding taken_def by (metis length_map)

text \<open>The log of a run verifies, whole; so does the log a torn last write leaves.\<close>

lemma run_verifies:
  assumes "utf8_valid head" "list_all clean_call es"
  shows "let l = append_run H es (Resume [] head seq)
         in VerifyFrom H (l_w l) None head seq =
              Inr ((start_result (l_prev l) (l_seq l))\<lparr>v_records := taken es\<rparr>)"
proof -
  from log_of_run [OF log_of_start utf8_start_head assms(2)] assms(1)
  obtain rs where "log_of H (start_head head) seq [] rs (append_run H es (Resume [] head seq))"
    "length rs = taken es" by force
  with log_of_verdict show ?thesis by (metis (full_types))
qed

lemma torn_verifies:
  assumes l: "log_of H (start_head head) seq [] rs l"
    and u: "utf8_valid head" "utf8_valid now" "utf8_record r"
    and n: "0 < n" "n < length (marshal (complete H now l r))"
  shows "VerifyFrom H (l_w (fst (Append H now (WriteFail e n) l r))) None head seq =
    Inr ((start_result (l_prev l) (l_seq l))\<lparr>v_records := length rs, v_truncated := True\<rparr>)"
proof -
  define m where "m = marshal (complete H now l r)"
  have w: "l_w (fst (Append H now (WriteFail e n) l r)) = concat (map record_line rs) @ take n m"
    using l n by (simp add: Append_fail log_of_def record_line_def m_def)
  have "take n m @ drop n m = m" "take n m \<noteq> []" "drop n m \<noteq> []" using n by (auto simp: m_def)
  from torn_line [OF this [unfolded m_def]] have t: "nl \<notin> set (take n m)" "TrimSpace (take n m) \<noteq> []"
    "decode_record (TrimSpace (take n m)) = None" by (simp_all add: m_def)
  from l show ?thesis
    unfolding w VerifyFrom_loop
    by (simp add: log_of_def verify_chained verify_torn [OF t] start_result_def counted_def)
qed

lemma newline_lost_verifies:
  assumes l: "log_of H (start_head head) seq [] rs l"
    and u: "utf8_valid head" "utf8_valid now" "utf8_record r"
    and r': "r' = complete H now l r"
  shows "VerifyFrom H (l_w (fst (Append H now (WriteFail e (length (marshal r'))) l r))) None head seq =
    Inr ((start_result (a_hash r') (a_seq r'))
      \<lparr>v_records := length rs + 1, v_unterminated := True\<rparr>)"
proof -
  have w: "l_w (fst (Append H now (WriteFail e (length (marshal r'))) l r))
      = concat (map record_line rs) @ marshal r'"
    using l by (simp add: Append_fail log_of_def record_line_def r')
  have "utf8_valid (l_prev l)"
    using l u(1) end_hash_utf8 [OF utf8_start_head] by (auto simp: log_of_def)
  with u have r8: "utf8_record r'" unfolding r' by (intro complete_utf8)
  note c = complete_chained [of H now l r, OF r' [symmetric]]
  have "verify_loop H None res (l_prev l) (l_seq l) (marshal r') =
      Inr ((count_record res r')\<lparr>v_unterminated := True\<rparr>)" for res
    using c by (intro verify_unterminated r8) simp_all
  with l show ?thesis
    unfolding w VerifyFrom_loop
    by (simp add: log_of_def verify_chained start_result_def counted_def count_record_def)
qed

end

end
