(* ===== verification/AuditTamper.thy ===== *)
theory AuditTamper
  imports AuditHistory
begin

text \<open>
  What an accepted log is evidence of: its sequence numbers run without a gap, two accepted logs
  that end on the same head hold the same records, an edited record is found, and where the walk
  stops. No assumption is made on the hash beyond its shape: where a forged log needs a
  collision, the two hashed inputs are named.
\<close>

section \<open>What the chain pins down\<close>

text \<open>The inputs the verifier hashes, one for each record.\<close>

definition hash_input :: "string \<Rightarrow> audit_record \<Rightarrow> string" where
  "hash_input prev r = prev @ marshal (r\<lparr>a_hash := []\<rparr>)"

fun hash_inputs :: "string \<Rightarrow> audit_record list \<Rightarrow> string list" where
  "hash_inputs prev [] = []"
| "hash_inputs prev (r # rs) = hash_input prev r # hash_inputs (a_hash r) rs"

definition collides :: "(string \<Rightarrow> string) \<Rightarrow> string \<Rightarrow> string \<Rightarrow> bool" where
  "collides H x y \<longleftrightarrow> x \<noteq> y \<and> H x = H y"

lemma chainHash_input: "chainHash H prev r = H (hash_input prev r)"
  by (simp add: chainHash_def hash_input_def)

lemma length_hash_inputs [simp]: "length (hash_inputs prev rs) = length rs"
  by (induction rs arbitrary: prev) auto

lemma hash_inputs_snoc:
  "hash_inputs prev (rs @ [r]) = hash_inputs prev rs @ [hash_input (end_hash prev rs) r]"
  by (induction rs arbitrary: prev) auto

lemma sanitize_a_hash: "sanitize_record (r\<lparr>a_hash := h\<rparr>) = (sanitize_record r)\<lparr>a_hash := sanitize h\<rparr>"
  by (simp add: sanitize_record_def)

lemma marshal_sanitize_eq: "marshal r = marshal r' \<Longrightarrow> sanitize_record r = sanitize_record r'"
  using decode_marshal [of r "[]"] decode_marshal [of r' "[]"] by simp

lemma hash_input_eq:
  assumes "hash_input p r = hash_input p' r'" "length p = length p'" "a_hash r = a_hash r'"
  shows "p = p' \<and> sanitize_record r = sanitize_record r'"
proof -
  from assms(1,2) have "p = p'" and m: "marshal (r\<lparr>a_hash := []\<rparr>) = marshal (r'\<lparr>a_hash := []\<rparr>)"
    by (simp_all add: hash_input_def)
  have split: "x = (x\<lparr>a_hash := []\<rparr>)\<lparr>a_hash := a_hash x\<rparr>" for x :: audit_record by simp
  have "sanitize_record r = (sanitize_record (r\<lparr>a_hash := []\<rparr>))\<lparr>a_hash := sanitize (a_hash r)\<rparr>"
    by (subst split [of r]) (simp only: sanitize_a_hash)
  moreover have "sanitize_record r' = (sanitize_record (r'\<lparr>a_hash := []\<rparr>))\<lparr>a_hash := sanitize (a_hash r')\<rparr>"
    by (subst split [of r']) (simp only: sanitize_a_hash)
  ultimately show ?thesis
    using marshal_sanitize_eq [OF m] assms(3) \<open>p = p'\<close> by simp
qed

lemma chained_seqs: "chained H prev seq rs \<Longrightarrow> i < length rs \<Longrightarrow> a_seq (rs ! i) = seq + of_nat i + 1"
proof (induction rs arbitrary: prev seq i)
  case (Cons r rs)
  then show ?case by (cases i) (auto simp: algebra_simps)
qed simp

lemma chained_prev: "chained H prev seq (rs @ r # s # ss) \<Longrightarrow> a_prev s = a_hash r"
  by (simp add: chained_append)

text \<open>An edited record breaks the chain at the latest at the record after it.\<close>

lemma edit_breaks:
  assumes c: "chained H prev seq (rs @ r # s # ss)"
    and u: "utf8_record r" "utf8_record r'" "r' \<noteq> r"
    and n: "\<not> collides H (hash_input (end_hash prev rs) r) (hash_input (end_hash prev rs) r')"
  shows "\<not> chained H prev seq (rs @ r' # s # ss)"
proof
  assume c': "chained H prev seq (rs @ r' # s # ss)"
  have h: "a_hash r = a_hash r'" using chained_prev [OF c] chained_prev [OF c'] by simp
  let ?p = "end_hash prev rs"
  have "H (hash_input ?p r) = H (hash_input ?p r')"
    using c c' h by (simp add: chained_append flip: chainHash_input)
  with n have "hash_input ?p r = hash_input ?p r'" by (simp add: collides_def)
  from hash_input_eq [OF this refl h] u show False by (simp add: sanitize_utf8_record)
qed

context digest
begin

lemma chained_end_length: "chained H prev seq rs \<Longrightarrow> rs \<noteq> [] \<Longrightarrow> length (end_hash prev rs) = 64"
  by (cases rs rule: rev_cases) (simp_all add: chained_append chainHash_def digest_length)

lemma chained_determined:
  "chained H p seq rs \<Longrightarrow> chained H p seq' rs' \<Longrightarrow> length rs = length rs' \<Longrightarrow>
     end_hash p rs = end_hash p rs' \<Longrightarrow>
     map sanitize_record rs = map sanitize_record rs'
     \<or> (\<exists>i < length rs. collides H (hash_inputs p rs ! i) (hash_inputs p rs' ! i))"
proof (induction rs arbitrary: rs' rule: rev_induct)
  case (snoc r rs)
  from snoc.prems(3) obtain ss r' where rs': "rs' = ss @ [r']" by (cases rs' rule: rev_cases) auto
  with snoc.prems have l: "length rs = length ss" and h: "a_hash r = a_hash r'"
    and c: "chained H p seq rs" "chained H p seq' ss" by (simp_all add: chained_append)
  let ?x = "hash_input (end_hash p rs) r" and ?y = "hash_input (end_hash p ss) r'"
  have hx: "H ?x = H ?y"
    using snoc.prems(1,2) h rs' by (simp add: chained_append flip: chainHash_input)
  show ?case
  proof (cases "?x = ?y")
    case False
    with hx l have "collides H (hash_inputs p (rs @ [r]) ! length rs) (hash_inputs p rs' ! length rs)"
      by (simp add: collides_def rs' hash_inputs_snoc nth_append)
    then show ?thesis by auto
  next
    case True
    have "length (end_hash p rs) = length (end_hash p ss)"
      using chained_end_length [OF c(1)] chained_end_length [OF c(2)] l
      by (cases "rs = []"; cases "ss = []") auto
    from hash_input_eq [OF True this h]
    have e: "end_hash p rs = end_hash p ss" "sanitize_record r = sanitize_record r'" by simp_all
    have "hash_inputs p (rs @ [r]) ! i = hash_inputs p rs ! i"
      "hash_inputs p rs' ! i = hash_inputs p ss ! i" if "i < length rs" for i
      using that l by (simp_all add: rs' hash_inputs_snoc nth_append)
    then show ?thesis using snoc.IH [OF c l e(1)] e(2) rs' by (auto simp: less_Suc_eq)
  qed
qed (simp add: end_hash_def)

end

end
