(* ===== verification/AuditGaps.thy ===== *)
theory AuditGaps
  imports AuditTamper
begin

text \<open>
  Where the chain does not do what its comments say. A text that is not valid UTF-8 is hashed as
  it was written and verified as it was read back, so the gate's own log does not verify; a key
  written twice on an audited line is invisible to the verifier; a write that fails after some
  of its bytes went out spoils the record appended after it.
\<close>

section \<open>Invalid UTF-8\<close>

lemma json_escape_seq:
  assumes "utf8_len (c # s) \<noteq> 0"
  shows "json_escape (take (utf8_len (c # s)) (c # s) @ t)
    = esc_seq (take (utf8_len (c # s)) (c # s)) @ json_escape t"
proof -
  let ?n = "utf8_len (c # s)" and ?u = "take (utf8_len (c # s)) (c # s)"
  have n: "?n \<le> length (c # s)" "2 \<le> ?n"
    using utf8_len_le [of "c # s"] utf8_len_pos [OF assms] by auto
  then obtain u' where u: "?u = c # u'" by (cases ?n) auto
  have len: "utf8_len (c # u' @ t) = ?n" using utf8_len_take [OF assms, of t] u by simp
  have "drop ?n (c # u' @ t) = t" "take ?n (c # u' @ t) = c # u'"
    using n u by (metis append_Cons append_eq_conv_conj length_take min.absorb2)+
  moreover have "\<not> byte c < 128" using utf8_len_high [OF assms] by auto
  ultimately show ?thesis using assms len by (simp add: u json_escape.simps(2))
qed

lemma length_replacement [simp]: "length replacement = 3"
  by (simp add: replacement_def)

lemma json_escape_replacement: "json_escape (replacement @ t) = replacement @ json_escape t"
proof -
  obtain c s where r: "replacement = c # s" by (simp add: replacement_def)
  then have n: "utf8_len (c # s) = 3" using utf8_len_replacement [of "[]"] by simp
  have "take 3 (c # s) = c # s" using length_replacement r by simp
  moreover have "esc_seq (c # s) = c # s"
    unfolding r [symmetric] by (simp add: esc_seq_def replacement_def)
  ultimately show ?thesis using json_escape_seq [of c s t] n r by simp
qed

text \<open>An invalid byte is written as six bytes and re-encoded, once read, as three.\<close>

lemma escape_sanitize_length:
  "length (json_escape (sanitize s)) + 3 * (if utf8_valid s then 0 else 1) \<le> length (json_escape s)"
proof (induction s rule: sanitize.induct)
  case (2 c s)
  consider "byte c < 128" | "\<not> byte c < 128" "utf8_len (c # s) = 0"
    | "\<not> byte c < 128" "utf8_len (c # s) \<noteq> 0" by blast
  then show ?case
  proof cases
    case 1
    with 2 show ?thesis
      by (simp add: sanitize.simps(2) json_escape.simps(2) utf8_valid.simps(2))
  next
    case b: 2
    then have "\<not> utf8_valid (c # s)" by (simp add: utf8_valid.simps(2))
    with b 2(2) show ?thesis
      by (simp add: sanitize.simps(2) json_escape.simps(2) json_escape_replacement
          split: if_splits)
  next
    case 3
    with 2(3) show ?thesis
      by (simp add: sanitize.simps(2) json_escape.simps(2) [of c s] utf8_valid.simps(2) json_escape_seq)
  qed
qed simp

fun sanitize_val :: "jval \<Rightarrow> jval" where
  "sanitize_val (JStr s) = JStr (sanitize s)"
| "sanitize_val v = v"

fun valid_val :: "jval \<Rightarrow> bool" where
  "valid_val (JStr s) = utf8_valid s"
| "valid_val v = True"

lemma sanitize_Nil_iff: "sanitize s = [] \<longleftrightarrow> s = []"
  by (cases s) (auto simp: sanitize.simps(2) replacement_def dest: utf8_len_pos)

lemma omitempty_sanitize:
  "omitempty k (sanitize_val v) = map (\<lambda>(k, v). (k, sanitize_val v)) (omitempty k v)"
  by (cases v) (auto simp: omitempty_def sanitize_Nil_iff)

lemmas omitempty_sanitize_str = omitempty_sanitize [of _ "JStr x" for x, unfolded sanitize_val.simps]
lemmas omitempty_sanitize_int = omitempty_sanitize [of _ "JInt x" for x, unfolded sanitize_val.simps, symmetric]

lemma record_fields_sanitize:
  "record_fields (sanitize_record r) = map (\<lambda>(k, v). (k, sanitize_val v)) (record_fields r)"
  by (simp add: record_fields_def sanitize_record_def omitempty_sanitize_str omitempty_sanitize_int)

lemma omitempty_valid: "list_all (\<lambda>(k, v). valid_val v) (omitempty k v) = valid_val v"
  by (auto simp: omitempty_def)

lemma utf8_record_fields: "utf8_record r \<longleftrightarrow> list_all (\<lambda>(k, v). valid_val v) (record_fields r)"
  by (simp add: utf8_record_def record_fields_def omitempty_valid)

lemma enc_val_sanitize_length:
  "length (enc_val (sanitize_val v)) + (if valid_val v then 0 else 1) \<le> length (enc_val v)"
proof (cases v)
  case (JStr x)
  with escape_sanitize_length [of x] show ?thesis by (simp add: json_quote_def split: if_splits)
qed simp_all

lemma Join_length:
  "length (Join ws sep) + 1 = sum_list (map (\<lambda>w. length w + 1) ws) + (if ws = [] then 1 else 0)"
  by (induction ws sep rule: Join.induct) auto

lemma sum_list_less:
  fixes f g :: "'a \<Rightarrow> nat"
  assumes "\<And>x. x \<in> set xs \<Longrightarrow> f x \<le> g x" "y \<in> set xs" "f y < g y"
  shows "sum_list (map f xs) < sum_list (map g xs)"
  using assms
proof (induction xs)
  case (Cons x xs)
  have le: "sum_list (map f xs) \<le> sum_list (map g xs)"
    using Cons.prems(1) by (intro sum_list_mono) simp
  show ?case
  proof (cases "y = x")
    case True
    with Cons.prems(3) le show ?thesis by simp
  next
    case False
    with Cons have "sum_list (map f xs) < sum_list (map g xs)" "f x \<le> g x" by simp_all
    then show ?thesis by simp
  qed
qed simp

lemma marshal_length:
  "length (marshal r) = 1 + sum_list (map (\<lambda>f. length (enc_field f) + 1) (record_fields r))"
  using Join_length [of "map enc_field (record_fields r)" "CHR '',''"]
  by (simp add: marshal_def comp_def)

text \<open>What is hashed for such a record differs from what the verifier hashes.\<close>

lemma marshal_sanitize_shorter:
  assumes "\<not> utf8_record r"
  shows "length (marshal (sanitize_record r)) < length (marshal r)"
proof -
  define f where "f kv = (case kv of (k, v) \<Rightarrow> length (enc_field (k, sanitize_val v)) + 1)" for kv
  define g where "g kv = length (enc_field kv) + 1" for kv
  obtain k v where kv: "(k, v) \<in> set (record_fields r)" "\<not> valid_val v"
    using assms by (auto simp: utf8_record_fields list_all_iff)
  have le: "f x \<le> g x" for x
    using enc_val_sanitize_length [of "snd x"]
    by (cases x) (simp add: f_def g_def enc_field_def split: if_splits)
  have less: "f (k, v) < g (k, v)"
    using enc_val_sanitize_length [of v] kv(2) by (simp add: f_def g_def enc_field_def)
  have "sum_list (map f (record_fields r)) < sum_list (map g (record_fields r))"
    using le kv(1) less by (intro sum_list_less)
  moreover have "map f (record_fields r) = map g (record_fields (sanitize_record r))"
    by (auto simp: record_fields_sanitize f_def g_def)
  ultimately show ?thesis unfolding marshal_length g_def by simp
qed

text \<open>The record a line holds decides how the line reads, whatever bytes spell it.\<close>

lemma verify_read_back:
  "verify_loop H fail res prev seq (record_line r @ s) =
    (case check_line H res prev seq (marshal r) False of
       Inl res' \<Rightarrow> Inr res'
     | Inr r' \<Rightarrow> verify_loop H fail (count_record res r') (a_hash r') (a_seq r') s)"
  using marshal_no_nl [of r] marshal_shape [of r]
  by (auto simp: record_line_def verify_line TrimSpace_marshal cong: sum.case_cong)

context digest
begin

text \<open>After a clean run, a record with an invalid text: the log it leaves does not verify.\<close>

lemma invalid_utf8_breaks:
  assumes l: "log_of H (start_head head) seq [] rs l"
    and r: "r' = complete H now l r" "\<not> utf8_record r'"
    and n: "\<not> collides H (hash_input (l_prev l) r') (hash_input (l_prev l) (sanitize_record r'))"
  shows "\<exists>res. VerifyFrom H (l_w (fst (Append H now WriteOK l r))) None head seq = Inr res \<and> \<not> v_ok res"
proof -
  define q where "q = sanitize_record r'"
  note c = complete_chained [of H now l r, OF r(1) [symmetric]]
  have h8: "utf8_valid (a_hash r')" using c by (simp add: chainHash_def utf8_valid_ascii digest_ascii)
  have not8: "\<not> utf8_record (r'\<lparr>a_hash := []\<rparr>)"
    using r(2) h8 by (simp add: utf8_record_def)
  have "hash_input (l_prev l) r' \<noteq> hash_input (l_prev l) q"
    using marshal_sanitize_shorter [OF not8] sanitize_a_hash [of "[]" r']
    by (auto simp: hash_input_def q_def)
  with n have "chainHash H (l_prev l) r' \<noteq> chainHash H (l_prev l) q"
    by (simp add: collides_def chainHash_input q_def)
  moreover have "a_hash q = a_hash r'" using h8 by (simp add: q_def sanitize_record_def sanitize_valid)
  ultimately have no: "\<not> chained H (l_prev l) (l_seq l) [q]" using c by simp
  have w: "l_w (fst (Append H now WriteOK l r)) = concat (map record_line rs) @ record_line r'"
    using l r(1) by (simp add: Append_ok log_of_def)
  have rs: "log_records (l_w (fst (Append H now WriteOK l r))) = rs @ [q]"
  proof -
    have "sanitize_record x = x" if "x \<in> set rs" for x
      using l that by (auto simp: log_of_def list_all_iff sanitize_utf8_record)
    then have "map sanitize_record rs = rs" by (simp add: map_idI)
    then show ?thesis
      using log_records_lines [of "rs @ [r']" "[]"] w by (simp add: q_def)
  qed
  have "\<not> chained H (start_head head) seq (rs @ [q])"
    using no l by (auto simp: chained_append log_of_def)
  with VerifyFrom_cases [of "l_w (fst (Append H now WriteOK l r))" H head seq] show ?thesis
    by (simp add: rs)
qed

end

section \<open>A key written twice\<close>

text \<open>The encoded record with one more member in front, which the real one overrides.\<close>

definition splice_host :: "string \<Rightarrow> audit_record \<Rightarrow> string" where
  "splice_host h r = CHR ''{'' # enc_field (''host'', JStr h) @ CHR '','' # tl (marshal r)"

lemma splice_host_decodes:
  "decode_record (splice_host h r @ rest) = Some (sanitize_record r, rest)"
proof -
  let ?f = "(''host'', JStr h)"
  have j: "splice_host h r @ rest
      = CHR ''{'' # (Join (map enc_field (?f # record_fields r)) CHR '','' @ CHR ''}'' # rest)"
    by (cases "record_fields r") (simp_all add: splice_host_def marshal_def)
  have k: "list_all (\<lambda>f. plain_key (fst f)) (?f # record_fields r)"
    using plain_keys [of r] by (simp add: plain_key_def)
  have z: "optional_zero (zero_record\<lparr>a_host := sanitize h\<rparr>)"
    by (simp add: optional_zero_def zero_record_def)
  have "set_fields zero_record (map scal (?f # record_fields r))
      = set_fields (zero_record\<lparr>a_host := sanitize h\<rparr>) (map scal (record_fields r))"
    using set_fields_step [of "''host''" zero_record "scalar_of (JStr h)"]
    by (simp add: set_named_steps del: set_fields.simps scalar_of.simps)
  with z have "set_fields zero_record (map scal (?f # record_fields r)) = Some (sanitize_record r)"
    by (simp add: set_fields_record del: set_fields.simps)
  with parse_object_enc [OF _ k, of rest] show ?thesis
    unfolding j decode_object by simp
qed

lemma splice_shape: "\<exists>m. splice_host h r = CHR ''{'' # m @ ''}''"
proof -
  obtain m where "marshal r = CHR ''{'' # m @ ''}''" using marshal_shape by blast
  then show ?thesis by (simp add: splice_host_def)
qed

lemma length_splice: "length (splice_host h r) \<noteq> length (marshal r)"
proof -
  obtain m where "marshal r = CHR ''{'' # m @ ''}''" using marshal_shape by blast
  then show ?thesis by (simp add: splice_host_def)
qed

lemma splice_no_nl: "nl \<notin> set (splice_host h r)"
proof
  assume "nl \<in> set (splice_host h r)"
  moreover obtain m where m: "marshal r = CHR ''{'' # m @ ''}''" using marshal_shape by blast
  have "nl \<notin> set (enc_field (''host'', JStr h))"
    using enc_field_printable [of "(''host'', JStr h)" nl] by (auto simp: plain_key_def)
  ultimately show False using marshal_no_nl [of r] m by (auto simp: splice_host_def)
qed

lemma TrimSpace_braces: "t = CHR ''{'' # m @ ''}'' \<Longrightarrow> TrimSpace t = t"
  by (intro TrimSpace_trimmed trimmedI) simp_all

lemma verify_splice:
  "verify_loop H fail res prev seq (splice_host h r @ nl # s)
     = verify_loop H fail res prev seq (record_line r @ s)"
proof -
  obtain m where m: "splice_host h r = CHR ''{'' # m @ ''}''" using splice_shape by blast
  have "check_line H res prev seq (splice_host h r) False = check_line H res prev seq (marshal r) False"
    using splice_host_decodes [of h r "[]"] decode_marshal [of r "[]"] by (simp add: check_line_def)
  then show ?thesis
    unfolding verify_read_back verify_line [OF splice_no_nl] TrimSpace_braces [OF m]
    by (simp add: m)
qed

section \<open>A write that fails in the middle\<close>

lemma take_record_line: "\<exists>r'. take 1 (record_line r) @ record_line r'' = ''{'' @ record_line r'"
  using marshal_shape [of r] by (auto simp: record_line_def)

lemma decode_glued: "decode_record (CHR ''{'' # marshal r) = None"
proof -
  obtain m where m: "marshal r = CHR ''{'' # m @ ''}''" using marshal_shape by blast
  then show ?thesis
    by (simp add: decode_object parse_object_def Let_def skip_ws_def json_ws_def HasPrefix_def
        parse_members.simps parse_member_def)
qed

lemma verify_glued:
  "verify_loop H fail res prev seq (CHR ''{'' # record_line r) = Inr (broken res (seq + 1) DecodeProblem)"
proof -
  obtain m where m: "marshal r = CHR ''{'' # m @ ''}''" using marshal_shape by blast
  then have t: "TrimSpace (CHR ''{'' # marshal r) = CHR ''{'' # marshal r"
    by (intro TrimSpace_braces [of _ "CHR ''{'' # m"]) simp
  have n: "nl \<notin> set (CHR ''{'' # marshal r)" using marshal_no_nl [of r] by simp
  have "check_line H res prev seq (CHR ''{'' # marshal r) False = Inl (broken res (seq + 1) DecodeProblem)"
    by (simp add: check_line_def decode_glued)
  with verify_line [OF n, of H fail res prev seq "[]"] t show ?thesis by (simp add: record_line_def)
qed

end
