(* ===== verification/AuditProps.thy ===== *)
theory AuditProps
  imports AuditGaps
begin

text \<open>
  The properties of the audit log, for SHA-256: what the log of a gate verifies as, what a torn
  or refused write leaves, what an accepted log is evidence of, and the three gaps.
\<close>

section \<open>A sample log\<close>

definition sample_record :: audit_record where
  "sample_record = zero_record\<lparr>a_kind := ''http'', a_method := ''GET'', a_host := ''api.example.com'',
     a_port := 443, a_path := ''/v1/models'', a_decision := ''allow'', a_rule := ''api'',
     a_client := ''10.0.0.7'', a_status := 200, a_bytes_down := 512\<rparr>"

definition sample_now :: string where
  "sample_now = ''2026-01-02T03:04:05Z''"

definition sample_calls :: "append_call list" where
  "sample_calls =
     [(sample_now, WriteOK, sample_record), (sample_now, WriteFail ''disk full'' 0, sample_record),
      (sample_now, WriteOK, sample_record\<lparr>a_decision := ''deny''\<rparr>)]"

lemma sample_utf8: "utf8_record sample_record" "utf8_valid sample_now" "utf8_valid []"
  by (simp_all add: sample_record_def sample_now_def zero_record_def utf8_record_def utf8_valid_ascii
      ascii_def)

lemma sample_clean: "list_all clean_call sample_calls" "taken sample_calls = 2"
proof -
  have "utf8_record (sample_record\<lparr>a_decision := ''deny''\<rparr>)"
    using sample_utf8(1) by (simp add: utf8_record_def utf8_valid_ascii ascii_def)
  then show "list_all clean_call sample_calls"
    using sample_utf8 by (simp add: sample_calls_def clean_call_def utf8_call_def)
qed (simp add: sample_calls_def taken_def)

text \<open>The log after the first record, and the first two records.\<close>

definition sample_log :: audit_log where
  "sample_log = fst (Append sha256_hex sample_now WriteOK (Resume [] [] 0) sample_record)"

definition sample_first :: audit_record where
  "sample_first = complete sha256_hex sample_now (Resume [] [] 0) sample_record"

definition sample_second :: audit_record where
  "sample_second = complete sha256_hex sample_now sample_log sample_record"

lemma sample_log_of:
  "log_of sha256_hex (start_head []) 0 [] [sample_first] sample_log"
  "log_of sha256_hex (start_head []) 0 [] [sample_first, sample_second]
     (fst (Append sha256_hex sample_now WriteOK sample_log sample_record))"
proof -
  note step = sha.log_of_Append [OF _ utf8_start_head [OF sample_utf8(3)] sample_utf8(1,2)]
  show l: "log_of sha256_hex (start_head []) 0 [] [sample_first] sample_log"
    using step [OF log_of_start] by (simp add: sample_first_def sample_log_def)
  show "log_of sha256_hex (start_head []) 0 [] [sample_first, sample_second]
     (fst (Append sha256_hex sample_now WriteOK sample_log sample_record))"
    using step [OF l] by (simp add: sample_second_def)
qed

lemma log_records_whole:
  "list_all utf8_record rs \<Longrightarrow> log_records (concat (map record_line rs)) = rs"
proof -
  have "log_records (concat (map record_line rs)) = map sanitize_record rs"
    using log_records_lines [of rs "[]"] by simp
  moreover assume "list_all utf8_record rs"
  then have "map sanitize_record rs = rs"
    by (intro map_idI) (auto simp: list_all_iff sanitize_utf8_record)
  ultimately show ?thesis by simp
qed

lemma audit_run_sample:
  "VerifyFrom sha256_hex (l_w (append_run sha256_hex sample_calls (Resume [] [] 0))) None [] 0 =
     Inr ((start_result (l_prev (append_run sha256_hex sample_calls (Resume [] [] 0)))
             (l_seq (append_run sha256_hex sample_calls (Resume [] [] 0))))\<lparr>v_records := 2\<rparr>)"
  using sha.run_verifies [OF sample_utf8(3) sample_clean(1), of 0] sample_clean(2)
  by (simp add: Let_def)

lemma sample_accepted:
  "VerifyFrom sha256_hex (record_line sample_first) None [] 0 =
     Inr ((start_result (a_hash sample_first) 1)\<lparr>v_records := 1\<rparr>)"
  "VerifyFrom sha256_hex (nl # record_line sample_first @ [nl]) None [] 0 =
     Inr ((start_result (a_hash sample_first) 1)\<lparr>v_records := 1\<rparr>)"
proof -
  from sample_log_of(1) have c: "chained sha256_hex (start_head []) 0 [sample_first]"
    "list_all utf8_record [sample_first]" "a_seq sample_first = 1"
    by (auto simp: log_of_def)
  have blank: "verify_loop H None res p q (nl # s) = verify_loop H None res p q s" for H res p q s
    using verify_line [of "[]" H None res p q s] by (simp add: TrimSpace_def)
  show "VerifyFrom sha256_hex (record_line sample_first) None [] 0 =
     Inr ((start_result (a_hash sample_first) 1)\<lparr>v_records := 1\<rparr>)"
    using verify_chained [OF c(1,2), of None _ "[]"] c(3)
    by (simp add: VerifyFrom_loop verify_end counted_def start_result_def)
  show "VerifyFrom sha256_hex (nl # record_line sample_first @ [nl]) None [] 0 =
     Inr ((start_result (a_hash sample_first) 1)\<lparr>v_records := 1\<rparr>)"
    using verify_chained [OF c(1,2), of None _ "[nl]"] c(3)
    by (simp add: VerifyFrom_loop blank verify_end counted_def start_result_def)
qed

section \<open>Logs the gate writes\<close>

text \<open>C18. A log written from a known head by any sequence of calls verifies from that head, counts the
  calls that succeeded, and ends on the log's own head and sequence number, provided that every text
  of every record handed to it, and every time stamp, is valid UTF-8 and that each write goes out
  whole or not at all. Neither condition can be dropped: a record with an invalid text breaks the
  chain, and a torn write is what recovery is for.\<close>

theorem audit_run_verifies:
  assumes "utf8_valid head" "list_all clean_call es"
  shows "VerifyFrom sha256_hex (l_w (append_run sha256_hex es (Resume [] head seq))) None head seq =
    Inr \<lparr>v_records = taken es,
         v_last_seq = l_seq (append_run sha256_hex es (Resume [] head seq)),
         v_head = l_prev (append_run sha256_hex es (Resume [] head seq)),
         v_ok = True, v_break_at = 0, v_problem = None, v_truncated = False, v_unterminated = False\<rparr>"
  using sha.run_verifies [OF assms, of seq] by (simp add: Let_def start_result_def)

theorem audit_run_verifies_witness:
  "VerifyFrom sha256_hex (l_w (append_run sha256_hex sample_calls (Resume [] [] 0))) None [] 0 =
    Inr \<lparr>v_records = 2,
         v_last_seq = l_seq (append_run sha256_hex sample_calls (Resume [] [] 0)),
         v_head = l_prev (append_run sha256_hex sample_calls (Resume [] [] 0)),
         v_ok = True, v_break_at = 0, v_problem = None, v_truncated = False, v_unterminated = False\<rparr>"
  using audit_run_verifies [OF sample_utf8(3) sample_clean(1), of 0] sample_clean(2) by simp

text \<open>A write that fails leaves the head and the sequence number as they were and returns the
  error; one that succeeds returns the record whose hash is the new head and whose number is the
  next.\<close>

lemma audit_append_head:
  "Head (fst (Append H now (WriteFail e n) l r)) = Head l
   \<and> snd (Append H now (WriteFail e n) l r) = Inl e
   \<and> snd (Append H now WriteOK l r) = Inr (complete H now l r)
   \<and> Head (fst (Append H now WriteOK l r))
       = (chainHash H (l_prev l) (complete H now l r), l_seq l + 1)"
  using complete_chained [of H now l r, OF refl] by (simp add: Append_fail Append_ok Head_def)

text \<open>One record is one line: whatever its texts hold, an append adds a single newline, at
  the end of the bytes it writes, and the line reads back as that record, its invalid UTF-8
  replaced.\<close>

lemma audit_one_line:
  "filter (\<lambda>c. c = nl) (l_w (fst (Append H now WriteOK l r))) = filter (\<lambda>c. c = nl) (l_w l) @ [nl]
   \<and> last (l_w (fst (Append H now WriteOK l r))) = nl
   \<and> log_records (record_line (complete H now l r)) = [sanitize_record (complete H now l r)]"
proof -
  have "log_records (record_line r') = [sanitize_record r']" for r'
    using log_records_lines [of "[r']" "[]"] by simp
  moreover have "filter (\<lambda>c. c = nl) (marshal r') = []" for r'
    using marshal_no_nl by (auto simp: filter_empty_conv)
  ultimately show ?thesis by (simp add: Append_ok record_line_def)
qed

text \<open>C35. An encoded record decodes to itself, up to invalid UTF-8, and leaves what follows it; no
  proper prefix of it decodes.\<close>

theorem audit_codec:
  "decode_record (marshal r @ rest) = Some (sanitize_record r, rest)
   \<and> (utf8_record r \<longrightarrow> sanitize_record r = r)
   \<and> (0 < n \<and> n < length (marshal r) \<longrightarrow> decode_record (take n (marshal r)) = None)"
proof -
  have "marshal r \<noteq> []" using marshal_shape [of r] by auto
  then show ?thesis
    using decode_marshal sanitize_utf8_record decode_torn [of "take n (marshal r)" "drop n (marshal r)" r]
    by auto
qed

theorem audit_codec_witness:
  "decode_record (marshal sample_record @ ''x'') = Some (sample_record, ''x'')
   \<and> decode_record (take 1 (marshal sample_record)) = None"
proof -
  have "1 < length (marshal sample_record)"
    using marshal_shape [of sample_record] by auto
  then show ?thesis
    using audit_codec [of sample_record "''x''" 1] sample_utf8(1) by simp
qed

text \<open>A log that ends in a torn write, any proper part of a record's line, verifies up to the
  last whole record and is reported as truncated, not broken.\<close>

lemma audit_torn_write:
  assumes "utf8_valid head" "list_all clean_call es" "utf8_valid now" "utf8_record r"
    and "l = append_run sha256_hex es (Resume [] head seq)"
    and "0 < n" "n < length (marshal (complete sha256_hex now l r))"
  shows "VerifyFrom sha256_hex (l_w (fst (Append sha256_hex now (WriteFail e n) l r))) None head seq =
    Inr \<lparr>v_records = taken es, v_last_seq = l_seq l, v_head = l_prev l, v_ok = True,
         v_break_at = 0, v_problem = None, v_truncated = True, v_unterminated = False\<rparr>"
proof -
  obtain rs where "log_of sha256_hex (start_head head) seq [] rs l" "length rs = taken es"
    using sha.log_of_run [OF log_of_start utf8_start_head, of head es seq "[]"] assms by auto
  with sha.torn_verifies [OF this(1) assms(1,3,4,6,7), of e] show ?thesis
    by (simp add: start_result_def)
qed

text \<open>A log whose last record lost only its newline verifies with that record counted, and is
  reported as unterminated, not truncated.\<close>

lemma audit_newline_lost:
  assumes "utf8_valid head" "list_all clean_call es" "utf8_valid now" "utf8_record r"
    and "l = append_run sha256_hex es (Resume [] head seq)"
    and "r' = complete sha256_hex now l r"
  shows "VerifyFrom sha256_hex
      (l_w (fst (Append sha256_hex now (WriteFail e (length (marshal r'))) l r))) None head seq =
    Inr \<lparr>v_records = taken es + 1, v_last_seq = a_seq r', v_head = a_hash r', v_ok = True,
         v_break_at = 0, v_problem = None, v_truncated = False, v_unterminated = True\<rparr>"
proof -
  obtain rs where "log_of sha256_hex (start_head head) seq [] rs l" "length rs = taken es"
    using sha.log_of_run [OF log_of_start utf8_start_head, of head es seq "[]"] assms by auto
  with sha.newline_lost_verifies [OF this(1) assms(1,3,4,6), of e] show ?thesis
    by (simp add: start_result_def)
qed

section \<open>Logs the verifier accepts\<close>

text \<open>C11. The verifier accepts a log exactly if every complete line is blank or one record with
  nothing after it, the last line too unless it is torn, and the records are a chain from the head
  and number given: numbers without a gap, each record naming the hash before it, each hash that
  of its record.\<close>

theorem audit_accepts_iff:
  "(\<exists>res. VerifyFrom H s None head seq = Inr res \<and> v_ok res)
     \<longleftrightarrow> readable s \<and> chained H (start_head head) seq (log_records s)"
proof (cases "readable s \<and> chained H (start_head head) seq (log_records s)")
  case True
  then have "VerifyFrom H s None head seq = Inr (verdict (start_result (start_head head) seq) s)"
    using VerifyFrom_cases [of s H head seq] by simp
  with True show ?thesis by (simp add: verdict_def start_result_def)
next
  case False
  with VerifyFrom_accepted(1,2) [of H s head seq] show ?thesis by blast
qed

text \<open>In an accepted log the sequence numbers run on from the number given, without a gap or a
  repetition, and the result names the last of them.\<close>

lemma audit_sequence:
  assumes "VerifyFrom H s None head seq = Inr res" "v_ok res"
  shows "map a_seq (log_records s) = map (\<lambda>i. seq + of_nat i + 1) [0..<v_records res]
    \<and> v_last_seq res = seq + of_nat (v_records res)"
proof
  note a = VerifyFrom_accepted [OF assms]
  show "map a_seq (log_records s) = map (\<lambda>i. seq + of_nat i + 1) [0..<v_records res]"
    using chained_seqs [OF a(2)] a(3) by (intro nth_equalityI) simp_all
  show "v_last_seq res = seq + of_nat (v_records res)"
    using chained_end_seq [OF a(2)] a(3,5) by simp
qed

text \<open>C4. Two accepted logs that start from the same head and end on the same head and the same
  number hold the same records, or the records at one place are two different inputs on which
  SHA-256 collides.\<close>

theorem audit_tamper_evident:
  assumes "VerifyFrom sha256_hex s None head seq = Inr res" "v_ok res"
    and "VerifyFrom sha256_hex t None head seq = Inr res'" "v_ok res'"
    and "v_head res = v_head res'" "v_last_seq res = v_last_seq res'"
    and "v_records res < 2 ^ 64" "v_records res' < 2 ^ 64"
  shows "map sanitize_record (log_records s) = map sanitize_record (log_records t)
    \<or> (\<exists>i < v_records res.
         collides sha256_hex (hash_inputs (start_head head) (log_records s) ! i)
           (hash_inputs (start_head head) (log_records t) ! i))"
proof -
  note a = VerifyFrom_accepted [OF assms(1,2)] and b = VerifyFrom_accepted [OF assms(3,4)]
  have "(of_nat (v_records res) :: uint64) = of_nat (v_records res')"
    using assms(6) chained_end_seq [OF a(2)] chained_end_seq [OF b(2)] a(3,5) b(3,5) by simp
  then have "v_records res = v_records res'"
    using assms(7,8) by (simp add: word_of_nat_eq_iff take_bit_eq_mod)
  then show ?thesis
    using sha.chained_determined [OF a(2) b(2)] a(3,4) b(3,4) assms(5) by simp
qed

theorem audit_tamper_evident_witness:
  "map sanitize_record (log_records (record_line sample_first))
     = map sanitize_record (log_records (nl # record_line sample_first @ [nl]))
   \<or> (\<exists>i < 1. collides sha256_hex
         (hash_inputs (start_head []) (log_records (record_line sample_first)) ! i)
         (hash_inputs (start_head []) (log_records (nl # record_line sample_first @ [nl])) ! i))"
  using audit_tamper_evident [OF sample_accepted(1) _ sample_accepted(2)]
  by (simp add: start_result_def)

text \<open>A record replaced by a different one, whatever hash the new one states, is detected as
  long as another record follows it; otherwise the two records are a collision.\<close>

lemma audit_edit_detected:
  assumes "chained sha256_hex (start_head head) seq (rs @ r # s # ss)"
    and "list_all utf8_record (rs @ r # r' # s # ss)" "r' \<noteq> r"
  shows "(\<exists>res. VerifyFrom sha256_hex (concat (map record_line (rs @ r' # s # ss))) None head seq = Inr res
           \<and> \<not> v_ok res)
    \<or> collides sha256_hex (hash_input (end_hash (start_head head) rs) r)
        (hash_input (end_hash (start_head head) rs) r')"
proof (rule disjCI)
  assume n: "\<not> collides sha256_hex (hash_input (end_hash (start_head head) rs) r)
        (hash_input (end_hash (start_head head) rs) r')"
  let ?s = "concat (map record_line (rs @ r' # s # ss))"
  have "log_records ?s = rs @ r' # s # ss"
    using log_records_whole [of "rs @ r' # s # ss"] assms(2) by simp
  with edit_breaks [OF assms(1) _ _ assms(3) n] assms(2)
  have "\<not> chained sha256_hex (start_head head) seq (log_records ?s)" by simp
  with VerifyFrom_cases [of ?s sha256_hex head seq]
  show "\<exists>res. VerifyFrom sha256_hex ?s None head seq = Inr res \<and> \<not> v_ok res" by simp
qed

text \<open>After any number of records that fit, the first record that does not is where the walk
  stops: the result counts the ones before it, keeps their head and names the record's number,
  whatever follows.\<close>

lemma audit_break_located:
  assumes "chained H (start_head head) seq rs" "list_all utf8_record (rs @ [r])"
    and "\<not> chained H (end_hash (start_head head) rs) (end_seq seq rs) [r]"
  shows "\<exists>p. VerifyFrom H (concat (map record_line (rs @ [r])) @ rest) fail head seq =
    Inr \<lparr>v_records = length rs, v_last_seq = end_seq seq rs, v_head = end_hash (start_head head) rs,
         v_ok = False, v_break_at = a_seq r, v_problem = Some p, v_truncated = False,
         v_unterminated = False\<rparr>"
  using assms verify_chained [of H "start_head head" seq rs fail _ "record_line r @ rest"]
  by (auto simp: VerifyFrom_loop verify_record_line check_line_record broken_def counted_def
      start_result_def)

section \<open>Gaps\<close>

text \<open>C40. A record with a text that is not valid UTF-8, a request path for one, breaks the log the
  gate itself writes: after a clean run and one such append the verifier answers that the chain
  does not hold, unless SHA-256 collides on the bytes written and the bytes read back.\<close>

theorem audit_invalid_utf8:
  assumes "utf8_valid head" "list_all clean_call es"
    and "l = append_run sha256_hex es (Resume [] head seq)"
    and "r' = complete sha256_hex now l r" "\<not> utf8_record r'"
  shows "(\<exists>res. VerifyFrom sha256_hex (l_w (fst (Append sha256_hex now WriteOK l r))) None head seq = Inr res
           \<and> \<not> v_ok res)
    \<or> collides sha256_hex (hash_input (l_prev l) r') (hash_input (l_prev l) (sanitize_record r'))"
proof -
  obtain rs where "log_of sha256_hex (start_head head) seq [] rs l"
    using sha.log_of_run [OF log_of_start utf8_start_head, of head es seq "[]"] assms by auto
  from sha.invalid_utf8_breaks [OF this assms(4,5)] show ?thesis by blast
qed

theorem audit_invalid_utf8_witness:
  "let r = sample_record\<lparr>a_path := ''/'' @ [chr 255]\<rparr>; l = Resume [] [] 0;
       r' = complete sha256_hex sample_now l r
   in (\<exists>res. VerifyFrom sha256_hex (l_w (fst (Append sha256_hex sample_now WriteOK l r))) None [] 0 = Inr res
          \<and> \<not> v_ok res)
      \<or> collides sha256_hex (hash_input (l_prev l) r') (hash_input (l_prev l) (sanitize_record r'))"
proof -
  define r where "r = sample_record\<lparr>a_path := ''/'' @ [chr 255]\<rparr>"
  have "\<not> utf8_valid (''/'' @ [chr 255])" by (simp add: utf8_valid.simps)
  then have "\<not> utf8_record (complete sha256_hex sample_now (Resume [] [] 0) r)"
    by (simp add: utf8_record_def complete_def Let_def r_def)
  from audit_invalid_utf8 [OF sample_utf8(3) _ refl refl, of "[]" sample_now 0 r] this
  show ?thesis by (simp add: r_def Let_def)
qed

text \<open>A member spliced in front of an audited line's own, with a key the record repeats, changes
  nothing in what the verifier answers, though the line is a different one.\<close>

lemma audit_repeated_key:
  "VerifyFrom H (splice_host h r @ nl # s) fail head seq = VerifyFrom H (record_line r @ s) fail head seq
   \<and> splice_host h r \<noteq> marshal r"
proof
  show "VerifyFrom H (splice_host h r @ nl # s) fail head seq = VerifyFrom H (record_line r @ s) fail head seq"
    unfolding VerifyFrom_loop by (rule verify_splice)
  show "splice_host h r \<noteq> marshal r"
    using length_splice [of h r] by auto
qed

text \<open>A write that fails after its first byte went out, followed by one that succeeds, leaves a
  log that does not verify, although both calls left the chain as its comment promises.\<close>

lemma audit_partial_write:
  assumes "utf8_valid head" "list_all clean_call es"
    and "l = append_run sha256_hex es (Resume [] head seq)"
  shows "VerifyFrom sha256_hex
      (l_w (append_run sha256_hex [(now, WriteFail e 1, r), (now', WriteOK, r2)] l)) None head seq =
    Inr \<lparr>v_records = taken es, v_last_seq = l_seq l, v_head = l_prev l, v_ok = False,
         v_break_at = l_seq l + 1, v_problem = Some DecodeProblem, v_truncated = False,
         v_unterminated = False\<rparr>"
proof -
  obtain rs where l: "log_of sha256_hex (start_head head) seq [] rs l" "length rs = taken es"
    using sha.log_of_run [OF log_of_start utf8_start_head, of head es seq "[]"] assms by auto
  let ?l = "append_run sha256_hex [(now, WriteFail e 1, r), (now', WriteOK, r2)] l"
  obtain r' where "l_w ?l = l_w l @ ''{'' @ record_line r'"
    using take_record_line by (simp add: Append_fail Append_ok) blast
  with l have w: "l_w ?l = concat (map record_line rs) @ (CHR ''{'' # record_line r')"
    by (simp add: log_of_def)
  from l show ?thesis
    unfolding w VerifyFrom_loop
    by (simp add: log_of_def verify_chained verify_glued broken_def counted_def start_result_def)
qed

end
