(* ===== verification/GoNet.thy ===== *)
theory GoNet
  imports GoStrings
begin

text \<open>
  The parts of Go's \<open>net\<close>, \<open>net/url\<close> and \<open>path\<close> packages that the gate rests its
  decisions on: host and port splitting, the escaped form of a URL path, and \<open>path.Clean\<close>.
  All of it is computed on byte strings as the library computes it; the lemmas are the facts
  the proxy and the command line use.
\<close>

section \<open>net: host and port\<close>

datatype addr_error = MissingPort | TooManyColons | MissingClose | UnexpectedOpen | UnexpectedClose

definition SplitHostPort :: "string \<Rightarrow> addr_error + string \<times> string" where
  "SplitHostPort hp =
     (case LastIndexByte hp CHR '':'' of
        None \<Rightarrow> Inl MissingPort
      | Some i \<Rightarrow>
          (if HasPrefix hp ''['' then
             (case IndexByte hp CHR '']'' of
                None \<Rightarrow> Inl MissingClose
              | Some e \<Rightarrow>
                  (if e + 1 = length hp then Inl MissingPort
                   else if e + 1 = i then
                     (if CHR ''['' \<in> set (drop 1 hp) then Inl UnexpectedOpen
                      else if CHR '']'' \<in> set (drop (e + 1) hp) then Inl UnexpectedClose
                      else Inr (take (e - 1) (drop 1 hp), drop (i + 1) hp))
                   else if hp ! (e + 1) = CHR '':'' then Inl TooManyColons
                   else Inl MissingPort))
           else if CHR '':'' \<in> set (take i hp) then Inl TooManyColons
           else if CHR ''['' \<in> set hp then Inl UnexpectedOpen
           else if CHR '']'' \<in> set hp then Inl UnexpectedClose
           else Inr (take i hp, drop (i + 1) hp)))"

definition JoinHostPort :: "string \<Rightarrow> string \<Rightarrow> string" where
  "JoinHostPort h p =
     (if CHR '':'' \<in> set h then ''['' @ h @ '']:'' @ p else h @ '':'' @ p)"

lemma LastIndexByte_append: "c \<notin> set t \<Longrightarrow> LastIndexByte (s @ c # t) c = Some (length s)"
proof (induction s)
  case Nil
  have "LastIndexByte t c = None" if "c \<notin> set t" for t
    using that by (induction t) auto
  with Nil show ?case by simp
qed simp

lemma LastIndexByte_None_iff: "LastIndexByte s c = None \<longleftrightarrow> c \<notin> set s"
  by (induction s) (auto split: option.splits)

lemma IndexByte_append: "c \<notin> set s \<Longrightarrow> IndexByte (s @ c # t) c = Some (length s)"
  by (induction s) auto

lemma LastIndexByte_Some:
  "LastIndexByte s c = Some i \<Longrightarrow> i < length s \<and> s ! i = c \<and> c \<notin> set (drop (i + 1) s)"
  by (induction s arbitrary: i) (auto simp: LastIndexByte_None_iff split: option.splits if_splits)

lemma IndexByte_Some:
  "IndexByte s c = Some i \<Longrightarrow> i < length s \<and> s ! i = c \<and> c \<notin> set (take i s)"
  by (induction s arbitrary: i) (auto split: if_splits)

lemma SplitHostPort_no_colon: "CHR '':'' \<notin> set hp \<Longrightarrow> SplitHostPort hp = Inl MissingPort"
  by (simp add: SplitHostPort_def LastIndexByte_None_iff [THEN iffD2])

text \<open>Splitting what \<open>JoinHostPort\<close> joined gives the two parts back.\<close>

lemma SplitHostPort_JoinHostPort:
  assumes h: "CHR ''['' \<notin> set h" "CHR '']'' \<notin> set h"
    and p: "CHR '':'' \<notin> set p" "CHR ''['' \<notin> set p" "CHR '']'' \<notin> set p"
  shows "SplitHostPort (JoinHostPort h p) = Inr (h, p)"
proof (cases "CHR '':'' \<in> set h")
  case False
  then have "LastIndexByte (h @ CHR '':'' # p) CHR '':'' = Some (length h)"
    using p by (simp add: LastIndexByte_append)
  moreover have "\<not> HasPrefix (h @ CHR '':'' # p) ''[''"
    using h by (cases h) (auto simp: HasPrefix_def)
  ultimately show ?thesis using False h p by (simp add: SplitHostPort_def JoinHostPort_def)
next
  case True
  let ?s = "CHR ''['' # h @ CHR '']'' # CHR '':'' # p"
  have "LastIndexByte ((CHR ''['' # h @ '']'') @ CHR '':'' # p) CHR '':''
      = Some (length (CHR ''['' # h @ '']''))"
    using p by (intro LastIndexByte_append) simp
  then have last: "LastIndexByte ?s CHR '':'' = Some (length h + 2)" by simp
  have "IndexByte ((CHR ''['' # h) @ CHR '']'' # CHR '':'' # p) CHR '']''
      = Some (length (CHR ''['' # h))"
    using h by (intro IndexByte_append) simp
  then have idx: "IndexByte ?s CHR '']'' = Some (length h + 1)" by simp
  have "HasPrefix ?s ''[''" by (simp add: HasPrefix_def)
  with True last idx h p show ?thesis
    by (simp add: SplitHostPort_def JoinHostPort_def)
qed

section \<open>net/url\<close>

text \<open>
  The fields of \<open>url.URL\<close> that the gate reads. \<open>u_rawpath\<close> is \<open>RawPath\<close>, the encoding
  hint: empty where the default encoding of \<open>Path\<close> is the one the client sent.
\<close>

record url =
  u_scheme :: string
  u_host :: string
  u_path :: string
  u_rawpath :: string

definition IsAbs :: "url \<Rightarrow> bool" where
  "IsAbs u \<longleftrightarrow> u_scheme u \<noteq> []"

text \<open>\<open>splitHostPort\<close> of \<open>net/url\<close>: a port is a colon and digits only at the end.\<close>

definition url_split_host :: "string \<Rightarrow> string \<times> string" where
  "url_split_host hp =
     (let (h, p) =
        (case LastIndexByte hp CHR '':'' of
           None \<Rightarrow> (hp, [])
         | Some i \<Rightarrow>
             (if list_all is_digit (drop (i + 1) hp) then (take i hp, drop (i + 1) hp)
              else (hp, [])))
      in (if HasPrefix h ''['' \<and> HasSuffix h '']'' then take (length h - 2) (drop 1 h) else h, p))"

definition Hostname :: "url \<Rightarrow> string" where
  "Hostname u = fst (url_split_host (u_host u))"

definition Port :: "url \<Rightarrow> string" where
  "Port u = snd (url_split_host (u_host u))"

lemma Port_digits: "list_all is_digit (Port u)"
  by (auto simp: Port_def url_split_host_def Let_def split: option.splits prod.splits)

subsection \<open>Percent encoding of paths\<close>

definition is_hex :: "char \<Rightarrow> bool" where
  "is_hex c \<longleftrightarrow> is_digit c \<or> 97 \<le> byte c \<and> byte c \<le> 102 \<or> 65 \<le> byte c \<and> byte c \<le> 70"

definition unhex :: "char \<Rightarrow> nat" where
  "unhex c = (if is_digit c then byte c - 48
              else if 97 \<le> byte c \<and> byte c \<le> 102 then byte c - 87 else byte c - 55)"

definition upper_hex :: "nat \<Rightarrow> char" where
  "upper_hex n = (if n < 10 then chr (48 + n) else chr (55 + n))"

definition is_alnum :: "char \<Rightarrow> bool" where
  "is_alnum c \<longleftrightarrow> is_digit c \<or> 97 \<le> byte c \<and> byte c \<le> 122 \<or> 65 \<le> byte c \<and> byte c \<le> 90"

text \<open>\<open>shouldEscape\<close> in the mode \<open>encodePath\<close>.\<close>

definition shouldEscape :: "char \<Rightarrow> bool" where
  "shouldEscape c \<longleftrightarrow> \<not> (is_alnum c \<or> c \<in> set ''-_.~$&+,/:;=@'')"

definition validEncoded :: "string \<Rightarrow> bool" where
  "validEncoded s \<longleftrightarrow>
     list_all (\<lambda>c. c \<in> set ''!$&()*+,;=:@[]%'' \<or> byte c = 39 \<or> \<not> shouldEscape c) s"

fun unescape :: "string \<Rightarrow> string option" where
  "unescape [] = Some []"
| "unescape (c # s) =
     (if c = CHR ''%'' then
        (case s of
           a # b # t \<Rightarrow>
             (if is_hex a \<and> is_hex b
              then map_option ((#) (chr (16 * unhex a + unhex b))) (unescape t) else None)
         | _ \<Rightarrow> None)
      else map_option ((#) c) (unescape s))"

definition escape_byte :: "char \<Rightarrow> string" where
  "escape_byte c =
     (if shouldEscape c then [CHR ''%'', upper_hex (byte c div 16), upper_hex (byte c mod 16)]
      else [c])"

definition escape :: "string \<Rightarrow> string" where
  "escape s = concat (map escape_byte s)"

definition EscapedPath :: "url \<Rightarrow> string" where
  "EscapedPath u =
     (if u_rawpath u \<noteq> [] \<and> validEncoded (u_rawpath u) \<and> unescape (u_rawpath u) = Some (u_path u)
      then u_rawpath u
      else if u_path u = ''*'' then ''*''
      else escape (u_path u))"

lemma upper_hex_props:
  assumes "n < 16"
  shows "is_hex (upper_hex n)" and "unhex (upper_hex n) = n" and "byte (upper_hex n) < 128"
  using assms by (auto simp: upper_hex_def is_hex_def unhex_def is_digit_def)

lemma shouldEscape_percent [simp]: "shouldEscape CHR ''%''"
  by (simp add: shouldEscape_def is_alnum_def is_digit_def)

lemma unescape_escape: "unescape (escape s) = Some s"
proof (induction s)
  case Nil
  show ?case by (simp add: escape_def)
next
  case (Cons c s)
  have hex: "byte c div 16 < 16" "byte c mod 16 < 16"
    using byte_less_256 [of c] by (simp_all add: less_mult_imp_div_less)
  have sum: "chr (16 * (byte c div 16) + byte c mod 16) = c" by simp
  have IH: "unescape (concat (map escape_byte s)) = Some s" using Cons.IH by (simp add: escape_def)
  show ?case
  proof (cases "shouldEscape c")
    case True
    then show ?thesis
      by (simp add: escape_def escape_byte_def IH upper_hex_props [OF hex(1)]
          upper_hex_props [OF hex(2)] sum del: mult_div_mod_eq)
  next
    case False
    then have "c \<noteq> CHR ''%''" by auto
    with False show ?thesis by (simp add: escape_def escape_byte_def IH)
  qed
qed

lemma path_marks_ascii: "ascii ''-_.~$&+,/:;=@''" "ascii ''!$&()*+,;=:@[]%''"
  by code_simp+

lemma ascii_memD: "ascii s \<Longrightarrow> c \<in> set s \<Longrightarrow> byte c < 128"
  by (simp add: ascii_def list_all_iff)

lemma not_shouldEscape_ascii: "\<not> shouldEscape c \<Longrightarrow> byte c < 128"
  using ascii_memD [OF path_marks_ascii(1), of c]
  unfolding shouldEscape_def is_alnum_def is_digit_def by linarith

lemma ascii_escape: "ascii (escape s)"
proof (induction s)
  case (Cons c s)
  have "byte c div 16 < 16" "byte c mod 16 < 16"
    using byte_less_256 [of c] by (simp_all add: less_mult_imp_div_less)
  then have "ascii (escape_byte c)"
    by (auto simp: escape_byte_def ascii_def upper_hex_props(3) not_shouldEscape_ascii)
  with Cons.IH show ?case by (simp add: escape_def)
qed (simp add: escape_def)

lemma ascii_validEncoded: "validEncoded s \<Longrightarrow> ascii s"
  unfolding validEncoded_def ascii_def list_all_iff
  using not_shouldEscape_ascii ascii_memD [OF path_marks_ascii(2)] by fastforce

text \<open>The escaped path is plain ASCII and decodes to the path, whatever the hint said.\<close>

lemma ascii_EscapedPath: "ascii (EscapedPath u)"
  using ascii_escape ascii_validEncoded by (auto simp: EscapedPath_def ascii_Cons)

lemma unescape_EscapedPath: "unescape (EscapedPath u) = Some (u_path u)"
  using unescape_escape by (auto simp: EscapedPath_def)

end
