(* ===== verification/GoPath.thy ===== *)
theory GoPath
  imports GoNet
begin

text \<open>
  Go's \<open>path.Clean\<close> on byte strings, as a walk over the segments of the path with a stack of
  the segments kept, and two facts the gate's path rules rest on: which paths are their own
  cleaned form, and that a path whose escaped form hides no separator has the same segments
  before and after decoding.
\<close>

section \<open>path.Clean\<close>

abbreviation slash :: char where
  "slash \<equiv> CHR ''/''"

text \<open>The stack holds the kept segments, the last one first.\<close>

fun clean_segs :: "bool \<Rightarrow> string list \<Rightarrow> string list \<Rightarrow> string list" where
  "clean_segs rooted st [] = rev st"
| "clean_segs rooted st (w # ws) =
     (if w = [] \<or> w = ''.'' then clean_segs rooted st ws
      else if w = ''..'' then
        (case st of
           [] \<Rightarrow> clean_segs rooted (if rooted then [] else [''..'']) ws
         | t # ts \<Rightarrow> clean_segs rooted (if t = ''..'' then ''..'' # st else ts) ws)
      else clean_segs rooted (w # st) ws)"

definition Clean :: "string \<Rightarrow> string" where
  "Clean p =
     (if p = [] then ''.''
      else if hd p = slash then slash # Join (clean_segs True [] (Split p slash)) slash
      else (let cs = clean_segs False [] (Split p slash)
            in if cs = [] then ''.'' else Join cs slash))"

text \<open>A segment that cleaning keeps wherever it stands.\<close>

definition plain_seg :: "string \<Rightarrow> bool" where
  "plain_seg w \<longleftrightarrow> w \<noteq> [] \<and> w \<noteq> ''.'' \<and> w \<noteq> ''..'' \<and> slash \<notin> set w"

lemma clean_segs_plain:
  "list_all plain_seg ws \<Longrightarrow> clean_segs rooted st ws = rev st @ ws"
  by (induction ws arbitrary: st) (auto simp: plain_seg_def)

lemma clean_segs_rooted_plain:
  assumes "list_all plain_seg st" and "\<forall>w \<in> set ws. slash \<notin> set w"
  shows "list_all plain_seg (clean_segs True st ws)"
  using assms
proof (induction True st ws rule: clean_segs.induct)
  case (2 st w ws)
  then show ?case by (cases st) (auto simp: plain_seg_def)
qed simp

lemma clean_segs_snoc_Nil: "clean_segs rooted st (ws @ [[]]) = clean_segs rooted st ws"
  by (induction rooted st ws rule: clean_segs.induct) (auto split: list.splits)

lemma Split_rooted: "Split (slash # p) slash = [] # Split p slash"
  by simp

lemma Split_snoc_sep: "Split (s @ [sep]) sep = Split s sep @ [[]]"
  using Split_append [of s sep "[]"] by simp

lemma Clean_rooted:
  "Clean (slash # p) = slash # Join (clean_segs True [] (Split p slash)) slash"
  by (simp add: Clean_def)

lemma plain_seg_no_slash: "plain_seg w \<Longrightarrow> slash \<notin> set w"
  by (simp add: plain_seg_def)

lemma clean_split_plain: "list_all plain_seg (clean_segs True [] (Split p slash))"
  by (rule clean_segs_rooted_plain) (auto dest: Split_pieces)

text \<open>
  The rooted paths that are already clean, up to one trailing slash: their segments are plain.
\<close>

definition plain_path :: "string \<Rightarrow> bool" where
  "plain_path p \<longleftrightarrow>
     (\<exists>ws. list_all plain_seg ws
        \<and> (p = slash # Join ws slash \<or> ws \<noteq> [] \<and> p = slash # Join ws slash @ [slash]))"

lemma Split_Join_plain:
  assumes "list_all plain_seg ws"
  shows "Split (Join ws slash) slash = (if ws = [] then [[]] else ws)"
proof (cases "ws = []")
  case False
  with assms show ?thesis
    by (simp add: Split_Join list_all_iff plain_seg_def)
qed simp

lemma clean_segs_Join_plain:
  assumes "list_all plain_seg ws"
  shows "clean_segs True [] (Split (Join ws slash) slash) = ws"
  using assms by (simp add: Split_Join_plain clean_segs_plain)

lemma Clean_Join_plain:
  "list_all plain_seg ws \<Longrightarrow> Clean (slash # Join ws slash) = slash # Join ws slash"
  by (simp add: Clean_rooted clean_segs_Join_plain)

lemma Clean_Join_plain_slash:
  assumes "list_all plain_seg ws" "ws \<noteq> []"
  shows "Clean (slash # Join ws slash @ [slash]) = slash # Join ws slash"
  using assms
  by (simp add: Clean_rooted Split_snoc_sep clean_segs_snoc_Nil clean_segs_Join_plain)

lemma Clean_rooted_form: "\<exists>ws. list_all plain_seg ws \<and> Clean (slash # p) = slash # Join ws slash"
  using clean_split_plain by (auto simp: Clean_rooted)

text \<open>Cleaning a rooted path twice changes nothing more.\<close>

lemma Clean_rooted_idem: "Clean (Clean (slash # p)) = Clean (slash # p)"
  using Clean_rooted_form [of p] Clean_Join_plain by fastforce

lemma Join_Nil_iff_plain: "list_all plain_seg ws \<Longrightarrow> Join ws slash = [] \<longleftrightarrow> ws = []"
  by (cases "(ws, slash)" rule: Join.cases) (auto simp: plain_seg_def)

text \<open>The normal form the gate demands of a rooted path is exactly \<open>plain_path\<close>.\<close>

lemma Clean_fix_iff_plain:
  "(Clean (slash # p) = slash # p
      \<or> Clean (slash # p) \<noteq> [slash] \<and> HasSuffix (slash # p) [slash]
        \<and> Clean (slash # p) @ [slash] = slash # p)
   \<longleftrightarrow> plain_path (slash # p)" (is "?L \<longleftrightarrow> ?R")
proof
  assume ?L
  obtain ws where ws: "list_all plain_seg ws" "Clean (slash # p) = slash # Join ws slash"
    using Clean_rooted_form by blast
  from \<open>?L\<close> ws have "slash # p = slash # Join ws slash
      \<or> ws \<noteq> [] \<and> slash # p = slash # Join ws slash @ [slash]"
    by (auto simp: Join_Nil_iff_plain)
  with ws(1) show ?R unfolding plain_path_def by blast
next
  assume ?R
  then obtain ws where ws: "list_all plain_seg ws"
    and p: "slash # p = slash # Join ws slash
      \<or> ws \<noteq> [] \<and> slash # p = slash # Join ws slash @ [slash]"
    unfolding plain_path_def by blast
  from p show ?L
  proof
    assume "slash # p = slash # Join ws slash"
    with Clean_Join_plain [OF ws] show ?L by simp
  next
    assume a: "ws \<noteq> [] \<and> slash # p = slash # Join ws slash @ [slash]"
    with Clean_Join_plain_slash [OF ws] have "Clean (slash # p) = slash # Join ws slash" by simp
    with a ws show ?L by (simp add: HasSuffix_Cons_last Join_Nil_iff_plain)
  qed
qed

lemma Clean_no_trailing:
  assumes "Clean (slash # p) = slash # p" "slash # p \<noteq> [slash]"
  shows "\<not> HasSuffix (slash # p) [slash]"
proof
  assume t: "HasSuffix (slash # p) [slash]"
  obtain ws where ws: "list_all plain_seg ws" "Clean (slash # p) = slash # Join ws slash"
    using Clean_rooted_form by blast
  with assms have p: "p = Join ws slash" and ne: "ws \<noteq> []" by auto
  with ws(1) have s: "Split p slash = ws" by (simp add: Split_Join_plain)
  from t assms(2) have "last p = slash" "p \<noteq> []" by (auto simp: HasSuffix_Cons_last split: if_splits)
  then obtain q where "p = q @ [slash]" by (metis append_butlast_last_id)
  then have "[] \<in> set (Split p slash)" by (simp add: Split_snoc_sep)
  with s ws(1) show False by (auto simp: list_all_iff plain_seg_def)
qed

text \<open>What being plain means segment by segment.\<close>

lemma plain_path_segments:
  assumes "plain_path p" and "w \<in> set (Split p slash)"
  shows "w \<noteq> ''.'' \<and> w \<noteq> ''..''"
proof -
  from assms(1) obtain ws where ws: "list_all plain_seg ws"
    and p: "p = slash # Join ws slash \<or> p = slash # Join ws slash @ [slash]"
    unfolding plain_path_def by blast
  from p have "set (Split p slash) \<subseteq> {[]} \<union> set (Split (Join ws slash) slash)"
    by (auto simp: Split_snoc_sep)
  also have "\<dots> \<subseteq> {[]} \<union> set ws"
    using ws by (auto simp: Split_Join_plain)
  finally show ?thesis
    using assms(2) ws by (auto simp: list_all_iff plain_seg_def)
qed

section \<open>Decoding keeps the segments apart\<close>

text \<open>
  The gate looks for \<open>%2f\<close> in the lower-cased escaped path. Where there is none, decoding
  introduces no separator: the segments of the decoded path are the decoded segments.
\<close>

definition hides :: "string \<Rightarrow> string \<Rightarrow> bool" where
  "hides s pat \<longleftrightarrow> Contains (map lower_char s) pat"

lemma hides_Cons: "\<not> hides (c # s) pat \<Longrightarrow> \<not> hides s pat"
  by (simp add: hides_def)

lemma lower_char_chr: "byte c = n \<Longrightarrow> lower_char c = (if 65 \<le> n \<and> n \<le> 90 then chr (n + 32) else c)"
  by (auto simp: lower_char_def)

lemma unhex_eq_2: "is_hex a \<Longrightarrow> unhex a = 2 \<longleftrightarrow> a = CHR ''2''"
  by (subst byte_eq_iff [symmetric]) (auto simp: is_hex_def unhex_def is_digit_def)

lemma unhex_eq_15: "is_hex a \<Longrightarrow> unhex a = 15 \<longleftrightarrow> lower_char a = CHR ''f''"
  by (subst byte_eq_iff [symmetric])
    (auto simp: is_hex_def unhex_def is_digit_def byte_lower_char)

lemma unhex_less: "is_hex a \<Longrightarrow> unhex a < 16"
  by (auto simp: is_hex_def unhex_def is_digit_def)

lemma decoded_slash:
  assumes "is_hex a" "is_hex b"
  shows "chr (16 * unhex a + unhex b) = slash \<longleftrightarrow> a = CHR ''2'' \<and> lower_char b = CHR ''f''"
proof -
  have b: "16 * unhex a + unhex b < 256"
    using unhex_less [OF assms(1)] unhex_less [OF assms(2)] by simp
  have "chr (16 * unhex a + unhex b) = slash \<longleftrightarrow> 16 * unhex a + unhex b = 47"
    by (subst byte_eq_iff [symmetric]) (simp add: byte_chr [OF b] del: of_char_of)
  also have "\<dots> \<longleftrightarrow> unhex a = 2 \<and> unhex b = 15"
    using unhex_less [OF assms(2)] by presburger
  finally show ?thesis using assms by (simp add: unhex_eq_2 unhex_eq_15)
qed

lemma lower_percent: "lower_char CHR ''%'' = CHR ''%''" "lower_char CHR ''2'' = CHR ''2''"
  by (simp_all add: lower_char_def)

lemma not_hidden_slash:
  assumes "\<not> hides (CHR ''%'' # a # b # t) ''%2f''" "is_hex a" "is_hex b"
  shows "chr (16 * unhex a + unhex b) \<noteq> slash"
  using assms by (auto simp: decoded_slash hides_def HasPrefix_def lower_percent)

lemma Split_Cons_nonsep:
  "c \<noteq> sep \<Longrightarrow> Split (c # s) sep = (c # hd (Split s sep)) # tl (Split s sep)"
  by (cases "Split s sep") auto

lemma hex_not_slash: "is_hex a \<Longrightarrow> a \<noteq> slash"
  by (auto simp: is_hex_def is_digit_def)

lemma unescape_segments:
  assumes "unescape s = Some p" and "\<not> hides s ''%2f''"
  shows "map unescape (Split s slash) = map Some (Split p slash)"
  using assms
proof (induction s arbitrary: p rule: unescape.induct)
  case (2 c s)
  show ?case
  proof (cases "c = CHR ''%''")
    case True
    with "2.prems"(1) obtain a b t q where s: "s = a # b # t" and hx: "is_hex a" "is_hex b"
      and t: "unescape t = Some q" and p: "p = chr (16 * unhex a + unhex b) # q"
      by (auto split: list.splits if_splits)
    have nh: "\<not> hides t ''%2f''"
      using "2.prems"(2) s hides_Cons by blast
    have IH: "map unescape (Split t slash) = map Some (Split q slash)"
      using "2.IH"(1) True s hx t nh by auto
    have ns: "chr (16 * unhex a + unhex b) \<noteq> slash"
      using not_hidden_slash "2.prems"(2) True s hx by metis
    have e: "Split (c # s) slash = (c # a # b # hd (Split t slash)) # tl (Split t slash)"
      using True s hx hex_not_slash by (simp add: Split_Cons_nonsep del: Split.simps)
    from IH have "unescape (hd (Split t slash)) = Some (hd (Split q slash))"
      and "map unescape (tl (Split t slash)) = map Some (tl (Split q slash))"
      by (cases "Split t slash"; cases "Split q slash"; simp)+
    with e p ns hx True show ?thesis by (simp add: Split_Cons_nonsep del: Split.simps)
  next
    case False
    with "2.prems"(1) obtain q where t: "unescape s = Some q" and p: "p = c # q" by auto
    have nh: "\<not> hides s ''%2f''" using "2.prems"(2) hides_Cons by blast
    have IH: "map unescape (Split s slash) = map Some (Split q slash)"
      using "2.IH"(2) False t nh by auto
    show ?thesis
    proof (cases "c = slash")
      case True
      with IH p show ?thesis by simp
    next
      case ns: False
      from IH have "unescape (hd (Split s slash)) = Some (hd (Split q slash))"
        and "map unescape (tl (Split s slash)) = map Some (tl (Split q slash))"
        by (cases "Split s slash"; cases "Split q slash"; simp)+
      with p ns False show ?thesis by (simp add: Split_Cons_nonsep del: Split.simps)
    qed
  qed
qed simp

end
