(* ===== verification/ProxyBase.thy ===== *)
theory ProxyBase
  imports GoPath
begin

text \<open>
  The parts of \<open>internal/proxy/proxy.go\<close> that hold no shared state: the configuration and its
  defaults, the headers a proxy must not forward, the path it refuses to guess about, and the
  counter of the bytes a request body sends.
\<close>

section \<open>Configuration\<close>

text \<open>Durations are nanoseconds.\<close>

record config =
  cfg_dial :: int
  cfg_header :: int
  cfg_idle :: int
  cfg_max_tunnel :: int
  cfg_idle_conn :: int
  cfg_max_idle :: int
  cfg_max_per_host :: int
  cfg_tls :: int

definition second :: int where
  "second = 1000000000"

definition transportDefaults :: config where
  "transportDefaults =
     \<lparr>cfg_dial = 0, cfg_header = 0, cfg_idle = 0, cfg_max_tunnel = 0,
      cfg_idle_conn = 90 * second, cfg_max_idle = 100, cfg_max_per_host = 64, cfg_tls = 10 * second\<rparr>"

definition DefaultConfig :: config where
  "DefaultConfig =
     \<lparr>cfg_dial = 10 * second, cfg_header = 30 * second, cfg_idle = 5 * 60 * second, cfg_max_tunnel = 0,
      cfg_idle_conn = cfg_idle_conn transportDefaults, cfg_max_idle = cfg_max_idle transportDefaults,
      cfg_max_per_host = cfg_max_per_host transportDefaults, cfg_tls = cfg_tls transportDefaults\<rparr>"

definition withTransportDefaults :: "config \<Rightarrow> config" where
  "withTransportDefaults cfg =
     (let c1 = (if cfg_idle_conn cfg = 0 then cfg\<lparr>cfg_idle_conn := cfg_idle_conn transportDefaults\<rparr> else cfg);
          c2 = (if cfg_max_idle c1 = 0 then c1\<lparr>cfg_max_idle := cfg_max_idle transportDefaults\<rparr> else c1);
          c3 = (if cfg_max_per_host c2 = 0 then c2\<lparr>cfg_max_per_host := cfg_max_per_host transportDefaults\<rparr>
                else c2)
      in if cfg_tls c3 = 0 then c3\<lparr>cfg_tls := cfg_tls transportDefaults\<rparr> else c3)"

text \<open>What \<open>New\<close> builds of it: the dialer of the tunnels and the transport of plain requests.\<close>

record transport =
  tr_dial :: int
  tr_header :: int
  tr_proxy :: "string option"
  tr_http2 :: bool
  tr_idle_conn :: int
  tr_max_idle :: int
  tr_max_per_host :: int
  tr_tls :: int

record handler =
  h_cfg :: config
  h_dialer :: int
  h_transport :: transport

definition proxy_New :: "config \<Rightarrow> handler" where
  "proxy_New cfg0 =
     (let cfg = withTransportDefaults cfg0; dialer = cfg_dial cfg
      in \<lparr>h_cfg = cfg, h_dialer = dialer,
          h_transport =
            \<lparr>tr_dial = dialer, tr_header = cfg_header cfg, tr_proxy = None, tr_http2 = False,
             tr_idle_conn = cfg_idle_conn cfg, tr_max_idle = cfg_max_idle cfg,
             tr_max_per_host = cfg_max_per_host cfg, tr_tls = cfg_tls cfg\<rparr>\<rparr>)"

text \<open>A transport that pools a bounded number of connections and goes to the upstream itself; zero is no bound.\<close>

definition bounded_transport :: "transport \<Rightarrow> bool" where
  "bounded_transport t \<longleftrightarrow>
     tr_idle_conn t \<noteq> 0 \<and> tr_max_idle t \<noteq> 0 \<and> tr_max_per_host t \<noteq> 0 \<and> tr_tls t \<noteq> 0 \<and> tr_proxy t = None"

section \<open>Headers\<close>

text \<open>
  \<open>http.Header\<close>: canonical names with their values. \<open>CanonicalMIMEHeaderKey\<close> leaves a name
  with a byte that is no token byte as it is.
\<close>

type_synonym header = "(string \<times> string list) list"

definition token_byte :: "char \<Rightarrow> bool" where
  "token_byte c \<longleftrightarrow> is_alnum c \<or> c \<in> set ''!#$%&*+-.^_`|~'' \<or> byte c = 39"

fun canon_bytes :: "bool \<Rightarrow> string \<Rightarrow> string" where
  "canon_bytes upper [] = []"
| "canon_bytes upper (c # s) =
     (let d = (if upper then upper_char c else lower_char c) in d # canon_bytes (d = CHR ''-'') s)"

definition CanonicalHeaderKey :: "string \<Rightarrow> string" where
  "CanonicalHeaderKey s = (if list_all token_byte s then canon_bytes True s else s)"

definition header_Values :: "header \<Rightarrow> string \<Rightarrow> string list" where
  "header_Values h k = (case map_of h (CanonicalHeaderKey k) of None \<Rightarrow> [] | Some vs \<Rightarrow> vs)"

definition header_Del :: "string \<Rightarrow> header \<Rightarrow> header" where
  "header_Del k h = filter (\<lambda>(n, _). n \<noteq> CanonicalHeaderKey k) h"

definition hopByHopHeaders :: "string list" where
  "hopByHopHeaders =
     [''Connection'', ''Proxy-Connection'', ''Keep-Alive'', ''Proxy-Authenticate'', ''Proxy-Authorization'',
      ''Te'', ''Trailer'', ''Transfer-Encoding'', ''Upgrade'']"

text \<open>The names listed in the \<open>Connection\<close> fields.\<close>

definition connection_names :: "header \<Rightarrow> string list" where
  "connection_names h =
     filter (\<lambda>n. n \<noteq> [])
       (concat (map (\<lambda>v. map TrimSpace (Split v CHR '','')) (header_Values h ''Connection'')))"

definition removeHopByHop :: "header \<Rightarrow> header" where
  "removeHopByHop h = fold header_Del hopByHopHeaders (fold header_Del (connection_names h) h)"

lemma fold_header_Del:
  "fold header_Del ks h = filter (\<lambda>(n, _). n \<notin> CanonicalHeaderKey ` set ks) h"
  by (induction ks arbitrary: h) (auto simp: header_Del_def intro!: filter_cong)

lemma removeHopByHop_filter:
  "removeHopByHop h =
     filter (\<lambda>(n, _). n \<notin> CanonicalHeaderKey ` (set hopByHopHeaders \<union> set (connection_names h))) h"
  by (auto simp: removeHopByHop_def fold_header_Del intro!: filter_cong)

lemma hop_headers_canonical: "CanonicalHeaderKey ` set hopByHopHeaders = set hopByHopHeaders"
  by code_simp

section \<open>The request path\<close>

definition defaultPortFor :: "string \<Rightarrow> int" where
  "defaultPortFor scheme = (if scheme = ''https'' then 443 else 80)"

definition clientIP :: "string \<Rightarrow> string" where
  "clientIP remote = (case SplitHostPort remote of Inl _ \<Rightarrow> remote | Inr (host, _) \<Rightarrow> host)"

text \<open>\<open>normalisedPath\<close>: the cleaned path and whether it is the path itself.\<close>

definition normalisedPath :: "casemap \<Rightarrow> url \<Rightarrow> string \<times> bool" where
  "normalisedPath cm u =
     (let raw = EscapedPath u
      in if Contains (ToLower cm raw) ''%2f'' \<or> Contains (ToLower cm raw) ''%5c'' then (raw, False)
         else
           (let p = (if u_path u = [] then ''/'' else u_path u);
                cleaned = (if Clean p \<noteq> ''/'' \<and> HasSuffix p ''/'' then Clean p @ ''/'' else Clean p)
            in (cleaned, cleaned = p)))"

text \<open>The path the client asked for, the empty one standing for the root.\<close>

definition asked_path :: "url \<Rightarrow> string" where
  "asked_path u = (if u_path u = [] then ''/'' else u_path u)"

lemma normalisedPath_hides:
  "snd (normalisedPath cm u) \<Longrightarrow> \<not> hides (EscapedPath u) ''%2f'' \<and> \<not> hides (EscapedPath u) ''%5c''"
  by (auto simp: normalisedPath_def hides_def ToLower_ascii ascii_EscapedPath Let_def split: if_splits)

lemma normalisedPath_plain:
  assumes "snd (normalisedPath cm u)" "HasPrefix (asked_path u) ''/''"
  shows "plain_path (asked_path u)"
proof -
  obtain p where p: "asked_path u = slash # p" using assms(2) by (auto simp: HasPrefix_iff)
  have "Clean (slash # p) = slash # p
      \<or> Clean (slash # p) \<noteq> [slash] \<and> HasSuffix (slash # p) [slash] \<and> Clean (slash # p) @ [slash] = slash # p"
    using assms(1) p
    by (auto simp: normalisedPath_def asked_path_def Let_def split: if_splits)
  then show ?thesis by (simp add: p Clean_fix_iff_plain)
qed

lemma normalisedPath_iff:
  assumes "HasPrefix (asked_path u) ''/''"
  shows "snd (normalisedPath cm u) \<longleftrightarrow>
    plain_path (asked_path u) \<and> \<not> hides (EscapedPath u) ''%2f'' \<and> \<not> hides (EscapedPath u) ''%5c''"
proof
  assume "plain_path (asked_path u) \<and> \<not> hides (EscapedPath u) ''%2f'' \<and> \<not> hides (EscapedPath u) ''%5c''"
  moreover obtain p where p: "asked_path u = slash # p" using assms by (auto simp: HasPrefix_iff)
  ultimately have "Clean (slash # p) = slash # p
      \<or> Clean (slash # p) \<noteq> [slash] \<and> HasSuffix (slash # p) [slash] \<and> Clean (slash # p) @ [slash] = slash # p"
    and h: "\<not> hides (EscapedPath u) ''%2f''" "\<not> hides (EscapedPath u) ''%5c''"
    by (simp_all add: Clean_fix_iff_plain)
  moreover have "Clean (slash # p) = slash # p \<Longrightarrow> slash # p \<noteq> [slash] \<Longrightarrow> \<not> HasSuffix (slash # p) [slash]"
    by (rule Clean_no_trailing)
  ultimately show "snd (normalisedPath cm u)"
    using p
    by (auto simp: normalisedPath_def asked_path_def Let_def hides_def ToLower_ascii ascii_EscapedPath
        split: if_splits)
qed (use assms normalisedPath_plain normalisedPath_hides in blast)

section \<open>Counting a request body\<close>

text \<open>
  \<open>c_open\<close> is whether there is an underlying reader. One \<open>Read\<close> is given what the underlying
  reader answers: a byte count and an error.
\<close>

record counting =
  c_open :: bool
  c_n :: int64

definition counting_Read :: "nat \<times> string option \<Rightarrow> counting \<Rightarrow> counting \<times> (nat \<times> string option)" where
  "counting_Read a c =
     (if \<not> c_open c then (c, (0, Some ''EOF''))
      else (c\<lparr>c_n := c_n c + of_nat (fst a)\<rparr>, a))"

definition counting_Close :: "string option \<Rightarrow> counting \<Rightarrow> string option" where
  "counting_Close e c = (if c_open c then e else None)"

definition counting_count :: "counting \<Rightarrow> int64" where
  "counting_count c = c_n c"

fun counting_run :: "(nat \<times> string option) list \<Rightarrow> counting \<Rightarrow> counting" where
  "counting_run [] c = c"
| "counting_run (a # as) c = counting_run as (fst (counting_Read a c))"

lemma counting_run_sum:
  "counting_run as c = c\<lparr>c_n := c_n c + (if c_open c then of_nat (sum_list (map fst as)) else 0)\<rparr>"
  by (induction as arbitrary: c) (auto simp: counting_Read_def algebra_simps)

section \<open>Properties\<close>

text \<open>Removing the hop-by-hop headers keeps, in order and untouched, exactly the headers that are
  neither on the fixed list nor named in a Connection field, whatever the case they are named in.\<close>

lemma proxy_hop_by_hop:
  "removeHopByHop h =
     filter (\<lambda>(n, _). n \<notin> set hopByHopHeaders \<and> n \<notin> CanonicalHeaderKey ` set (connection_names h)) h"
  unfolding removeHopByHop_filter image_Un hop_headers_canonical by (auto intro!: filter_cong)

text \<open>C34. A rooted path is accepted exactly if it has no empty segment but a last one, no dot-segment
  and neither separator hidden in its escaped form; the path of an accepted URL and its escaped form
  then have the same segments.\<close>

theorem proxy_normalised_path:
  assumes "HasPrefix (asked_path u) ''/''"
  shows "(snd (normalisedPath cm u) \<longleftrightarrow>
      plain_path (asked_path u) \<and> \<not> hides (EscapedPath u) ''%2f'' \<and> \<not> hides (EscapedPath u) ''%5c'')
    \<and> (snd (normalisedPath cm u) \<longrightarrow>
         map unescape (Split (EscapedPath u) slash) = map Some (Split (u_path u) slash))"
  using normalisedPath_iff [OF assms] unescape_segments unescape_EscapedPath by blast

theorem proxy_normalised_path_witness:
  "\<not> snd (normalisedPath plain_casemap \<lparr>u_scheme = ''http'', u_host = ''h'', u_path = ''/a/../b'', u_rawpath = []\<rparr>)"
proof -
  let ?u = "\<lparr>u_scheme = ''http'', u_host = ''h'', u_path = ''/a/../b'', u_rawpath = []\<rparr>"
  have a: "asked_path ?u = ''/a/../b''" by (simp add: asked_path_def)
  then have p: "HasPrefix (asked_path ?u) ''/''" by (simp add: HasPrefix_def)
  have "''..'' \<in> set (Split ''/a/../b'' slash)" by simp
  then have "\<not> plain_path (asked_path ?u)" using plain_path_segments a by metis
  with proxy_normalised_path [OF p] show ?thesis by blast
qed

text \<open>
  Whatever configuration it is given, the gate's transport has all four bounds on its connection
  pool and chains to no other proxy; a bound the caller set, and every other field, is left as it
  was, and both ways out dial with the same timeout.
\<close>

lemma withTransportDefaults_fields:
  "withTransportDefaults cfg =
       cfg\<lparr>cfg_idle_conn := (if cfg_idle_conn cfg = 0 then 90 * second else cfg_idle_conn cfg),
           cfg_max_idle := (if cfg_max_idle cfg = 0 then 100 else cfg_max_idle cfg),
           cfg_max_per_host := (if cfg_max_per_host cfg = 0 then 64 else cfg_max_per_host cfg),
           cfg_tls := (if cfg_tls cfg = 0 then 10 * second else cfg_tls cfg)\<rparr>"
  by (simp add: withTransportDefaults_def transportDefaults_def Let_def)

lemma transport_bounded:
  "bounded_transport (h_transport (proxy_New cfg))"
  "h_cfg (proxy_New cfg) = withTransportDefaults cfg"
  "h_dialer (proxy_New cfg) = cfg_dial cfg \<and> tr_dial (h_transport (proxy_New cfg)) = cfg_dial cfg"
  by (simp_all add: proxy_New_def Let_def bounded_transport_def withTransportDefaults_fields second_def)

lemma DefaultConfig_fixed: "withTransportDefaults DefaultConfig = DefaultConfig"
  by code_simp

text \<open>The count of a request body is the sum of what its reads returned, and zero without a body.\<close>

lemma body_count:
  "counting_count (counting_run as \<lparr>c_open = opened, c_n = 0\<rparr>) =
     (if opened then of_nat (sum_list (map fst as)) else 0)"
  by (simp add: counting_count_def counting_run_sum)

end
