(* ===== verification/Metrics.thy ===== *)
theory Metrics
  imports Policy
begin

text \<open>
  \<open>internal/metrics/metrics.go\<close>: the gate's collectors, each a map from its label values. The
  counters are Prometheus floats; the integers here are exact below 2 to the 53.
\<close>

record metrics =
  m_requests :: "string \<times> string \<times> string \<Rightarrow> nat"
  m_duration :: "string \<Rightarrow> int list"
  m_bytes :: "string \<Rightarrow> int"
  m_tunnels :: int
  m_reloads :: "string \<Rightarrow> nat"

definition metrics_New :: metrics where
  "metrics_New =
     \<lparr>m_requests = (\<lambda>_. 0), m_duration = (\<lambda>_. []), m_bytes = (\<lambda>_. 0), m_tunnels = 0,
      m_reloads = (\<lambda>_. 0)\<rparr>"

definition count_request :: "string \<Rightarrow> string \<Rightarrow> string \<Rightarrow> metrics \<Rightarrow> metrics" where
  "count_request decision rule kind m =
     m\<lparr>m_requests := (m_requests m)((decision, rule, kind) := m_requests m (decision, rule, kind) + 1)\<rparr>"

definition observe :: "string \<Rightarrow> int \<Rightarrow> metrics \<Rightarrow> metrics" where
  "observe kind d m = m\<lparr>m_duration := (m_duration m)(kind := m_duration m kind @ [d])\<rparr>"

definition add_bytes :: "string \<Rightarrow> int \<Rightarrow> metrics \<Rightarrow> metrics" where
  "add_bytes dir n m = (if n > 0 then m\<lparr>m_bytes := (m_bytes m)(dir := m_bytes m dir + n)\<rparr> else m)"

definition count_reload :: "string \<Rightarrow> metrics \<Rightarrow> metrics" where
  "count_reload res m = m\<lparr>m_reloads := (m_reloads m)(res := m_reloads m res + 1)\<rparr>"

definition tunnels_Inc :: "metrics \<Rightarrow> metrics" where
  "tunnels_Inc m = m\<lparr>m_tunnels := m_tunnels m + 1\<rparr>"

definition tunnels_Dec :: "metrics \<Rightarrow> metrics" where
  "tunnels_Dec m = m\<lparr>m_tunnels := m_tunnels m - 1\<rparr>"

text \<open>The requests counted for a decision, over all the rules and kinds of a list of labels.\<close>

definition counted_for :: "(string \<times> string \<times> string) list \<Rightarrow> metrics \<Rightarrow> nat" where
  "counted_for ls m = sum_list (map (m_requests m) ls)"

lemma count_request_at:
  "m_requests (count_request d r k m) l = m_requests m l + (if l = (d, r, k) then 1 else 0)"
  by (simp add: count_request_def)

lemma metrics_frame [simp]:
  "m_requests (observe k d m) = m_requests m" "m_requests (add_bytes dir n m) = m_requests m"
  "m_tunnels (observe k d m) = m_tunnels m" "m_tunnels (add_bytes dir n m) = m_tunnels m"
  "m_tunnels (count_request a b c m) = m_tunnels m" "m_bytes (observe k d m) = m_bytes m"
  "m_bytes (count_request a b c m) = m_bytes m" "m_requests (tunnels_Inc m) = m_requests m"
  "m_requests (tunnels_Dec m) = m_requests m" "m_bytes (tunnels_Inc m) = m_bytes m"
  "m_bytes (tunnels_Dec m) = m_bytes m" "m_tunnels (tunnels_Inc m) = m_tunnels m + 1"
  "m_tunnels (tunnels_Dec m) = m_tunnels m - 1"
  by (simp_all add: observe_def add_bytes_def count_request_def tunnels_Inc_def tunnels_Dec_def)

text \<open>Opening and closing a tunnel does not get in the way of the other counters.\<close>

lemma tunnels_commute:
  "count_request a b c (tunnels_Inc m) = tunnels_Inc (count_request a b c m)"
  "observe k d (tunnels_Inc m) = tunnels_Inc (observe k d m)"
  "add_bytes dir n (tunnels_Inc m) = tunnels_Inc (add_bytes dir n m)"
  "tunnels_Dec (tunnels_Inc m) = m"
  by (simp_all add: observe_def add_bytes_def count_request_def tunnels_Inc_def tunnels_Dec_def)

end
