(* ===== verification/ProxyHttp.thy ===== *)
theory ProxyHttp
  imports ProxyBase Metrics Store AuditLog
begin

text \<open>
  \<open>internal/proxy/proxy.go\<close>: the plain-HTTP path. A handler takes the proxy's state to a new
  one; the state carries the audit log, the metrics and the list of effects the handler had on
  the world, in order. What the world answers (the policy in force, the upstream, the audit
  writer, the clock) is the environment of a request.
\<close>

section \<open>Requests, effects and state\<close>

record http_request =
  hr_method :: string
  hr_url :: url
  hr_host :: string
  hr_uri :: string
  hr_remote :: string
  hr_header :: header
  hr_body :: bool

datatype effect =
    Asked request
  | RoundTrip http_request
  | Dialled string
  | Hijacked
  | Wrote string
  | Responded int header
  | Refused int string
  | Audited audit_record
  | Registered
  | Piped int64 int64
  | Unregistered
  | ClosedClient
  | ClosedUpstream

record proxy =
  px_log :: audit_log
  px_metrics :: metrics
  px_trace :: "effect list"

definition emit :: "effect \<Rightarrow> proxy \<Rightarrow> proxy" where
  "emit e st = st\<lparr>px_trace := px_trace st @ [e]\<rparr>"

definition with_metrics :: "(metrics \<Rightarrow> metrics) \<Rightarrow> proxy \<Rightarrow> proxy" where
  "with_metrics f st = st\<lparr>px_metrics := f (px_metrics st)\<rparr>"

text \<open>
  The policy in force, the audit writer's answer and the clock, as one request meets them; and
  Go's \<open>%q\<close> for texts that are not ASCII, which depends on Unicode tables.
\<close>

record gate_env =
  ge_eval :: "request \<Rightarrow> decision"
  ge_now :: string
  ge_write :: write_result
  ge_ms :: int64
  ge_quote :: "string \<Rightarrow> string"

definition quote_byte :: "char \<Rightarrow> string" where
  "quote_byte c =
     (if c = CHR 0x22 \<or> byte c = 92 then [chr 92, c]
      else if byte c = 7 then [chr 92, CHR ''a'']
      else if byte c = 8 then [chr 92, CHR ''b'']
      else if byte c = 9 then [chr 92, CHR ''t'']
      else if byte c = 10 then [chr 92, CHR ''n'']
      else if byte c = 11 then [chr 92, CHR ''v'']
      else if byte c = 12 then [chr 92, CHR ''f'']
      else if byte c = 13 then [chr 92, CHR ''r'']
      else if byte c < 32 \<or> byte c = 127
        then [chr 92, CHR ''x'', hex_digit (byte c div 16), hex_digit (byte c mod 16)]
      else [c])"

definition Quote :: "gate_env \<Rightarrow> string \<Rightarrow> string" where
  "Quote env s =
     (if ascii s then CHR 0x22 # concat (map quote_byte s) @ [CHR 0x22] else ge_quote env s)"

section \<open>finish\<close>

text \<open>Stamp the record, append it, count it. \<open>http.Error\<close> answers the client.\<close>

definition finish ::
  "(string \<Rightarrow> string) \<Rightarrow> gate_env \<Rightarrow> audit_record \<Rightarrow> int \<Rightarrow> proxy \<Rightarrow> proxy" where
  "finish H env rec0 status st =
     (let r = rec0\<lparr>a_status := of_int status, a_duration_ms := ge_ms env\<rparr>;
          log1 = fst (Append H (ge_now env) (ge_write env) (px_log st) r);
          m1 = count_request (a_decision r) (a_rule r) (a_kind r) (px_metrics st);
          m2 = observe (a_kind r) (sint (ge_ms env)) m1;
          m3 = add_bytes ''up'' (sint (a_bytes_up r)) m2;
          m4 = add_bytes ''down'' (sint (a_bytes_down r)) m3
      in emit (Audited r) (st\<lparr>px_log := log1, px_metrics := m4\<rparr>))"

definition http_Error :: "string \<Rightarrow> int \<Rightarrow> proxy \<Rightarrow> proxy" where
  "http_Error msg code st = emit (Refused code msg) st"

section \<open>handleHTTP\<close>

text \<open>
  The upstream: \<open>ue_rt\<close> is \<open>RoundTrip\<close>, an error or the status, the headers and how many bytes
  \<open>io.Copy\<close> moved; \<open>ue_reads\<close> are the transport's reads of the request body up to the count.
\<close>

record upstream_env =
  ue_rt :: "http_request \<Rightarrow> string + int \<times> header \<times> nat \<times> string option"
  ue_reads :: "(nat \<times> string option) list"

definition request_port :: "url \<Rightarrow> int option" where
  "request_port u =
     (if Port u = [] then Some (defaultPortFor (u_scheme u))
      else case Atoi (Port u) of
             None \<Rightarrow> None
           | Some n \<Rightarrow> if n < 1 \<or> n > 65535 then None else Some n)"

definition not_absolute_reason :: string where
  "not_absolute_reason =
     ''request URI is not absolute; this port is a forward proxy, not an origin server''"

definition path_reason :: "gate_env \<Rightarrow> string \<Rightarrow> string \<Rightarrow> string" where
  "path_reason env path norm =
     ''path '' @ Quote env path @ '' contains dot-segments or encoded separators; it normalises to ''
     @ Quote env norm @ '', so a path rule could not be enforced on what the upstream would route''"

text \<open>What the gate asks the policy, and what it forwards.\<close>

definition http_question :: "http_request \<Rightarrow> int \<Rightarrow> request" where
  "http_question r port =
     \<lparr>q_kind = KindHTTP, q_host = Hostname (hr_url r), q_port = port, q_method = hr_method r,
      q_path = u_path (hr_url r)\<rparr>"

definition forwarded :: "http_request \<Rightarrow> http_request" where
  "forwarded r = r\<lparr>hr_uri := [], hr_header := removeHopByHop (hr_header r)\<rparr>"

definition sent_count :: "upstream_env \<Rightarrow> http_request \<Rightarrow> int64" where
  "sent_count ue r =
     counting_count (counting_run (if hr_body r then ue_reads ue else []) \<lparr>c_open = hr_body r, c_n = 0\<rparr>)"

definition forward ::
  "(string \<Rightarrow> string) \<Rightarrow> gate_env \<Rightarrow> upstream_env \<Rightarrow> audit_record \<Rightarrow> http_request \<Rightarrow> proxy \<Rightarrow> proxy" where
  "forward H env ue rec0 r st =
     (let st1 = emit (RoundTrip (forwarded r)) st
      in case ue_rt ue (forwarded r) of
           Inl _ \<Rightarrow>
             http_Error ''egressgate: upstream request failed'' 502
               (finish H env (rec0\<lparr>a_bytes_up := sent_count ue r\<rparr>) 502 st1)
         | Inr (status, hdr, down, _) \<Rightarrow>
             finish H env (rec0\<lparr>a_bytes_up := sent_count ue r, a_bytes_down := of_nat down\<rparr>) status
               (emit (Responded status (removeHopByHop hdr)) st1))"

definition handleHTTP ::
  "(string \<Rightarrow> string) \<Rightarrow> casemap \<Rightarrow> gate_env \<Rightarrow> upstream_env \<Rightarrow> http_request \<Rightarrow> proxy \<Rightarrow> proxy" where
  "handleHTTP H cm env ue r st =
     (let u = hr_url r;
          rec0 = zero_record\<lparr>a_kind := KindHTTP, a_method := hr_method r, a_client := clientIP (hr_remote r)\<rparr>
      in if \<not> IsAbs u then
           http_Error ''egressgate: this is a forward proxy; configure it as one and send an absolute request URI'' 400
             (finish H env
               (rec0\<lparr>a_decision := Deny, a_reason := not_absolute_reason, a_host := hr_host r,
                     a_path := u_path u\<rparr>) 400 st)
         else case request_port u of
           None \<Rightarrow>
             http_Error ''egressgate: bad port in request URI'' 400
               (finish H env
                 (rec0\<lparr>a_decision := Deny, a_reason := ''unparseable port '' @ Quote env (Port u),
                       a_host := Hostname u\<rparr>) 400 st)
         | Some port \<Rightarrow>
             (let rec1 = rec0\<lparr>a_host := Hostname u, a_port := of_int port, a_path := u_path u\<rparr>
              in case normalisedPath cm u of (norm, ok) \<Rightarrow>
                (if \<not> ok then
                   http_Error (''egressgate: '' @ path_reason env (u_path u) norm) 400
                     (finish H env
                       (rec1\<lparr>a_decision := Deny, a_reason := path_reason env (u_path u) norm\<rparr>) 400 st)
                 else
                   (let q = http_question r port;
                        d = ge_eval env q;
                        st1 = emit (Asked q) st;
                        rec2 = rec1\<lparr>a_decision := d_action d, a_rule := d_rule d, a_reason := d_reason d\<rparr>
                    in if d_action d \<noteq> Allow then
                         http_Error (''egressgate: denied by policy: '' @ d_reason d) 403
                           (finish H env rec2 403 st1)
                       else forward H env ue rec2 r st1))))"

section \<open>The effects of a request\<close>

text \<open>The effects a handler adds, in order.\<close>

definition effects :: "proxy \<Rightarrow> proxy \<Rightarrow> effect list" where
  "effects st st' = drop (length (px_trace st)) (px_trace st')"

definition stamped :: "gate_env \<Rightarrow> audit_record \<Rightarrow> int \<Rightarrow> audit_record" where
  "stamped env r status = r\<lparr>a_status := of_int status, a_duration_ms := ge_ms env\<rparr>"

lemma finish_simps [simp]:
  "px_trace (finish H env r s st) = px_trace st @ [Audited (stamped env r s)]"
  "px_log (finish H env r s st) = fst (Append H (ge_now env) (ge_write env) (px_log st) (stamped env r s))"
  by (simp_all add: finish_def emit_def stamped_def Let_def)

lemma emit_simps [simp]:
  "px_trace (emit e st) = px_trace st @ [e]" "px_log (emit e st) = px_log st"
  "px_metrics (emit e st) = px_metrics st"
  by (simp_all add: emit_def)

lemma with_metrics_simps [simp]:
  "px_trace (with_metrics f st) = px_trace st" "px_log (with_metrics f st) = px_log st"
  "px_metrics (with_metrics f st) = f (px_metrics st)"
  "emit e (with_metrics f st) = with_metrics f (emit e st)"
  by (simp_all add: with_metrics_def emit_def)

lemma finish_tunnel:
  "with_metrics tunnels_Dec (finish H env r s (with_metrics tunnels_Inc st)) = finish H env r s st"
  by (simp add: finish_def emit_def with_metrics_def Let_def tunnels_commute)

lemma http_Error_simps [simp]:
  "px_trace (http_Error msg code st) = px_trace st @ [Refused code msg]"
  "px_log (http_Error msg code st) = px_log st" "px_metrics (http_Error msg code st) = px_metrics st"
  by (simp_all add: http_Error_def)

lemma finish_metrics:
  "m_requests (px_metrics (finish H env r s st)) l =
     m_requests (px_metrics st) l + (if l = (a_decision r, a_rule r, a_kind r) then 1 else 0)"
  "m_tunnels (px_metrics (finish H env r s st)) = m_tunnels (px_metrics st)"
  by (simp_all add: finish_def emit_def count_request_at Let_def)

text \<open>The shapes the effects of one plain-HTTP request can have.\<close>

definition describes :: "http_request \<Rightarrow> int \<Rightarrow> audit_record \<Rightarrow> bool" where
  "describes r port rec0 \<longleftrightarrow>
     a_kind rec0 = KindHTTP \<and> a_method rec0 = hr_method r \<and> a_host rec0 = Hostname (hr_url r)
     \<and> a_port rec0 = of_int port \<and> a_path rec0 = u_path (hr_url r)
     \<and> a_client rec0 = clientIP (hr_remote r)"

inductive http_shape :: "casemap \<Rightarrow> gate_env \<Rightarrow> upstream_env \<Rightarrow> http_request \<Rightarrow> effect list \<Rightarrow> bool"
  for cm :: casemap and env :: gate_env and ue :: upstream_env and r :: http_request where
  refused: "a_decision rec0 = Deny \<Longrightarrow>
     http_shape cm env ue r [Audited (stamped env rec0 400), Refused 400 msg]"
| denied: "d_action (ge_eval env q) \<noteq> Allow \<Longrightarrow> a_decision rec0 = d_action (ge_eval env q) \<Longrightarrow>
     a_rule rec0 = d_rule (ge_eval env q) \<Longrightarrow> q = http_question r port \<Longrightarrow>
     describes r port rec0 \<Longrightarrow>
     http_shape cm env ue r [Asked q, Audited (stamped env rec0 403), Refused 403 msg]"
| failed: "d_action (ge_eval env q) = Allow \<Longrightarrow> a_decision rec0 = Allow \<Longrightarrow>
     a_rule rec0 = d_rule (ge_eval env q) \<Longrightarrow> q = http_question r port \<Longrightarrow>
     describes r port rec0 \<Longrightarrow>
     snd (normalisedPath cm (hr_url r)) \<Longrightarrow> request_port (hr_url r) = Some port \<Longrightarrow>
     ue_rt ue (forwarded r) = Inl e \<Longrightarrow> a_bytes_up rec0 = sent_count ue r \<Longrightarrow>
     http_shape cm env ue r
       [Asked q, RoundTrip (forwarded r), Audited (stamped env rec0 502), Refused 502 msg]"
| served: "d_action (ge_eval env q) = Allow \<Longrightarrow> a_decision rec0 = Allow \<Longrightarrow>
     a_rule rec0 = d_rule (ge_eval env q) \<Longrightarrow> q = http_question r port \<Longrightarrow>
     describes r port rec0 \<Longrightarrow>
     snd (normalisedPath cm (hr_url r)) \<Longrightarrow> request_port (hr_url r) = Some port \<Longrightarrow>
     ue_rt ue (forwarded r) = Inr (status, hdr, down, ce) \<Longrightarrow> a_bytes_up rec0 = sent_count ue r \<Longrightarrow>
     a_bytes_down rec0 = of_nat down \<Longrightarrow>
     http_shape cm env ue r
       [Asked q, RoundTrip (forwarded r), Responded status (removeHopByHop hdr),
        Audited (stamped env rec0 status)]"

inductive_cases http_shapeE: "http_shape cm env ue r es"

lemma handleHTTP_shape: "http_shape cm env ue r (effects st (handleHTTP H cm env ue r st))"
proof (cases "IsAbs (hr_url r)")
  case False
  then show ?thesis
    by (auto simp: handleHTTP_def effects_def Let_def intro!: refused)
next
  case abs: True
  show ?thesis
  proof (cases "request_port (hr_url r)")
    case None
    with abs show ?thesis
      by (auto simp: handleHTTP_def effects_def Let_def intro!: refused)
  next
    case (Some port)
    obtain norm ok where n: "normalisedPath cm (hr_url r) = (norm, ok)" by fastforce
    let ?q = "http_question r port"
    consider "\<not> ok" | "ok" "d_action (ge_eval env ?q) \<noteq> Allow"
      | e where "ok" "d_action (ge_eval env ?q) = Allow" "ue_rt ue (forwarded r) = Inl e"
      | s h d c where "ok" "d_action (ge_eval env ?q) = Allow" "ue_rt ue (forwarded r) = Inr (s, h, d, c)"
      by (cases "ue_rt ue (forwarded r)") auto
    then show ?thesis
    proof cases
      case 1
      with abs Some n show ?thesis
        by (auto simp: handleHTTP_def effects_def Let_def intro!: refused)
    next
      case 2
      with abs Some n show ?thesis
        by (auto simp: handleHTTP_def effects_def Let_def describes_def intro!: denied)
    next
      case 3
      with abs Some n show ?thesis
        by (auto simp: handleHTTP_def effects_def Let_def forward_def describes_def intro!: failed)
    next
      case 4
      with abs Some n show ?thesis
        by (auto simp: handleHTTP_def effects_def Let_def forward_def describes_def intro!: served)
    qed
  qed
qed

end
