(* ===== verification/Tunnel.thy ===== *)
theory Tunnel
  imports Prelude
begin

text \<open>
  The data path of a tunnel, \<open>internal/proxy/connect.go\<close>: the writer that caps one direction,
  the reader that keeps the idle clock, \<open>io.Copy\<close> between them and \<open>pump\<close>. Connections are
  abstract: the locale \<open>writer\<close> is the contract of \<open>io.Writer\<close>, and a cap on a writer is a writer.
\<close>

section \<open>Writers\<close>

type_synonym 's write_op = "'s \<Rightarrow> string \<Rightarrow> 's \<times> nat \<times> string option"

text \<open>
  A write takes a prefix of what it is offered, appends it to what has gone out, and reports an
  error if it took less than all.
\<close>

locale writer =
  fixes w :: "'s write_op" and sent :: "'s \<Rightarrow> string"
  assumes write_takes: "w s p = (s', n, e) \<Longrightarrow> n \<le> length p \<and> sent s' = sent s @ take n p"
    and write_short: "w s p = (s', n, e) \<Longrightarrow> n < length p \<Longrightarrow> e \<noteq> None"
begin

lemma write_all: "w s p = (s', n, None) \<Longrightarrow> n = length p \<and> sent s' = sent s @ p"
  using write_takes [of s p s' n None] write_short [of s p s' n None] by (cases "n < length p") auto

end

text \<open>
  A connection, as far as its writes go: what went out, and how many more bytes it takes before
  the peer is gone, if it ever is. \<open>conn_Write\<close> is what a write that returns has done. A write has no
  deadline and waits for a peer that does not read: when it returns, and whether it does, is a
  matter of the schedule, and a state of its own in \<open>Pump\<close>.
\<close>

record conn =
  conn_sent :: string
  conn_left :: "nat option"

definition conn_Write :: "conn write_op" where
  "conn_Write c p =
     (case conn_left c of
        None \<Rightarrow> (c\<lparr>conn_sent := conn_sent c @ p\<rparr>, length p, None)
      | Some k \<Rightarrow>
          (if length p \<le> k then
             (c\<lparr>conn_sent := conn_sent c @ p, conn_left := Some (k - length p)\<rparr>, length p, None)
           else
             (c\<lparr>conn_sent := conn_sent c @ take k p, conn_left := Some 0\<rparr>, k, Some ''broken pipe'')))"

interpretation conn: writer conn_Write conn_sent
  by unfold_locales (auto simp: conn_Write_def split: option.splits if_splits)

section \<open>cappedWriter\<close>

record 's capped =
  cw_w :: 's
  cw_remaining :: int
  cw_capped :: bool
  cw_unlimited :: bool

definition newCappedWriter :: "'s \<Rightarrow> int \<Rightarrow> 's capped" where
  "newCappedWriter s limit =
     \<lparr>cw_w = s, cw_remaining = limit, cw_capped = False, cw_unlimited = (limit \<le> 0)\<rparr>"

definition errTunnelCapExceeded :: string where
  "errTunnelCapExceeded = ''tunnel byte cap reached''"

definition capped_Write :: "'s write_op \<Rightarrow> 's capped write_op" where
  "capped_Write w c p =
     (if cw_unlimited c then
        (case w (cw_w c) p of (s, n, e) \<Rightarrow> (c\<lparr>cw_w := s\<rparr>, n, e))
      else if cw_remaining c \<le> 0 then (c\<lparr>cw_capped := True\<rparr>, 0, Some errTunnelCapExceeded)
      else
        (let over = int (length p) > cw_remaining c;
             p' = (if over then take (nat (cw_remaining c)) p else p)
         in case w (cw_w c) p' of
              (s, n, e) \<Rightarrow>
                (let c' = c\<lparr>cw_w := s, cw_remaining := cw_remaining c - int n\<rparr>
                 in if e \<noteq> None then (c', n, e)
                    else if over then (c'\<lparr>cw_capped := True\<rparr>, n, Some errTunnelCapExceeded)
                    else (c', n, None))))"

definition exceeded :: "'s capped \<Rightarrow> bool" where
  "exceeded c = cw_capped c"

context writer
begin

definition capped_sent :: "'s capped \<Rightarrow> string" where
  "capped_sent c = sent (cw_w c)"

end

text \<open>What a capped write amounts to: a write of the part that fits, and the cap's own verdict.\<close>

definition fits :: "'s capped \<Rightarrow> string \<Rightarrow> string" where
  "fits c p = (if cw_unlimited c then p else take (nat (cw_remaining c)) p)"

lemma capped_Write_fits:
  assumes "cw_unlimited c \<or> 0 < cw_remaining c" "w (cw_w c) (fits c p) = (t, k, x)"
  shows "capped_Write w c p =
    (let over = \<not> cw_unlimited c \<and> int (length p) > cw_remaining c
     in (c\<lparr>cw_w := t, cw_remaining := (if cw_unlimited c then cw_remaining c else cw_remaining c - int k),
          cw_capped := cw_capped c \<or> (over \<and> x = None)\<rparr>, k,
        if x = None \<and> over then Some errTunnelCapExceeded else x))"
proof (cases "cw_unlimited c")
  case True
  with assms(2) show ?thesis by (simp add: capped_Write_def fits_def)
next
  case False
  then have "fits c p = (if int (length p) > cw_remaining c then take (nat (cw_remaining c)) p else p)"
    by (simp add: fits_def)
  with False assms show ?thesis by (cases x) (auto simp: capped_Write_def Let_def)
qed

lemma capped_Write_full:
  "\<not> cw_unlimited c \<Longrightarrow> cw_remaining c \<le> 0 \<Longrightarrow>
     capped_Write w c p = (c\<lparr>cw_capped := True\<rparr>, 0, Some errTunnelCapExceeded)"
  by (simp add: capped_Write_def)

context writer
begin

lemma capped_writer: "writer (capped_Write w) capped_sent"
proof
  fix c p c' n e
  assume a: "capped_Write w c p = (c', n, e)"
  obtain t k x where q: "w (cw_w c) (fits c p) = (t, k, x)" by (cases "w (cw_w c) (fits c p)")
  note k = write_takes [OF q]
  have pre: "take k (fits c p) = take k p" "k \<le> length p"
    using k by (auto simp: fits_def min_absorb1 split: if_splits)
  show "n \<le> length p \<and> capped_sent c' = capped_sent c @ take n p"
  proof (cases "cw_unlimited c \<or> 0 < cw_remaining c")
    case True
    from a capped_Write_fits [of c w p t k x, OF True q] k pre show ?thesis by (auto simp: capped_sent_def Let_def)
  next
    case False
    with a capped_Write_full [of c w p] show ?thesis by (auto simp: capped_sent_def)
  qed
  show "n < length p \<Longrightarrow> e \<noteq> None"
  proof (cases "cw_unlimited c \<or> 0 < cw_remaining c")
    case True
    have f: "fits c p = p" if "\<not> (\<not> cw_unlimited c \<and> int (length p) > cw_remaining c)"
      using that by (auto simp: fits_def)
    assume "n < length p"
    with a capped_Write_fits [of c w p t k x, OF True q] f write_short [OF q] show ?thesis
      by (auto simp: Let_def split: if_splits)
  next
    case False
    with a capped_Write_full [of c w p] show "e \<noteq> None" by auto
  qed
qed

end

interpretation capped_conn: writer "capped_Write conn_Write" "\<lambda>c. conn_sent (cw_w c)"
  using conn.capped_writer by (simp add: conn.capped_sent_def [abs_def])

section \<open>io.Copy\<close>

datatype copy_end = CopyEOF | CopyError string | Blocked

text \<open>
  The loop over the answers of the reader: a chunk and an error each. A list that ends without
  an error is a copy still waiting for its next read.
\<close>

fun Copy :: "'s write_op \<Rightarrow> 's \<Rightarrow> (string \<times> string option) list \<Rightarrow> nat \<Rightarrow> 's \<times> nat \<times> copy_end" where
  "Copy w s [] written = (s, written, Blocked)"
| "Copy w s ((chunk, er) # rs) written =
     (case (if chunk = [] then (s, 0, None) else w s chunk) of
        (s', nw, ew) \<Rightarrow>
          (case ew of
             Some e \<Rightarrow> (s', written + nw, CopyError e)
           | None \<Rightarrow>
               (if nw \<noteq> length chunk then (s', written + nw, CopyError ''short write'')
                else case er of
                       Some e \<Rightarrow> (s', written + nw, if e = ''EOF'' then CopyEOF else CopyError e)
                     | None \<Rightarrow> Copy w s' rs (written + nw))))"

text \<open>The bytes the reader offers, up to its first error.\<close>

fun offered :: "(string \<times> string option) list \<Rightarrow> string" where
  "offered [] = []"
| "offered ((chunk, er) # rs) = chunk @ (if er = None then offered rs else [])"

context writer
begin

lemma copy_prefix:
  "Copy w s rs k = (s', m, e) \<Longrightarrow>
     \<exists>n. m = k + n \<and> n \<le> length (offered rs) \<and> sent s' = sent s @ take n (offered rs)"
proof (induction rs arbitrary: s k)
  case (Cons r rs)
  obtain chunk er where r: "r = (chunk, er)" by (cases r)
  obtain t n x where q: "(if chunk = [] then (s, 0, None) else w s chunk) = (t, n, x)"
    by (cases "if chunk = [] then (s, 0, None) else w s chunk")
  then have n: "n \<le> length chunk" "sent t = sent s @ take n chunk"
    using write_takes [of s chunk] by (auto split: if_splits)
  show ?case
  proof (cases "x = None \<and> n = length chunk \<and> er = None")
    case True
    with Cons.prems r q have "Copy w t rs (k + n) = (s', m, e)" by simp
    from Cons.IH [OF this] obtain j where
      "m = k + n + j" "j \<le> length (offered rs)" "sent s' = sent t @ take j (offered rs)" by blast
    with True n r show ?thesis by (intro exI [of _ "n + j"]) simp
  next
    case False
    with Cons.prems r q have "m = k + n" "s' = t" by (auto split: option.splits if_splits)
    with n r show ?thesis by (intro exI [of _ n]) auto
  qed
qed simp

text \<open>A copy that ends at the end of its input has sent all of it.\<close>

lemma copy_complete:
  "Copy w s rs k = (s', m, CopyEOF) \<Longrightarrow> sent s' = sent s @ offered rs \<and> m = k + length (offered rs)"
proof (induction rs arbitrary: s k)
  case (Cons r rs)
  obtain chunk er where r: "r = (chunk, er)" by (cases r)
  obtain t n x where q: "(if chunk = [] then (s, 0, None) else w s chunk) = (t, n, x)"
    by (cases "if chunk = [] then (s, 0, None) else w s chunk")
  then have n: "x = None \<Longrightarrow> n = length chunk \<and> sent t = sent s @ chunk"
    using write_all [of s chunk] by (auto split: if_splits)
  from Cons.prems r q have x: "x = None" by (auto split: option.splits)
  show ?case
  proof (cases er)
    case None
    with Cons.prems r q x n have "Copy w t rs (k + n) = (s', m, CopyEOF)" by simp
    from Cons.IH [OF this] n x r None show ?thesis by simp
  next
    case (Some e)
    with Cons.prems r q x n show ?thesis by (auto split: if_splits)
  qed
qed simp

text \<open>
  The cap. What remains is what has not gone out; nothing goes out past the limit; the flag is
  up exactly if the limit went out and more was offered.
\<close>

definition cap_inv :: "int \<Rightarrow> string \<Rightarrow> 's capped \<Rightarrow> bool" where
  "cap_inv limit before c \<longleftrightarrow>
     (if limit \<le> 0 then cw_unlimited c \<and> \<not> cw_capped c
      else \<not> cw_unlimited c \<and> 0 \<le> cw_remaining c
           \<and> int (length (capped_sent c)) = int (length before) + limit - cw_remaining c
           \<and> (cw_capped c \<longrightarrow> cw_remaining c = 0))"

lemma cap_inv_new: "cap_inv limit (sent s) (newCappedWriter s limit)"
  by (simp add: cap_inv_def newCappedWriter_def capped_sent_def)

lemma cap_inv_write:
  assumes "cap_inv limit b c" "capped_Write w c p = (c', n, e)"
  shows "cap_inv limit b c'"
proof -
  obtain t k x where q: "w (cw_w c) (fits c p) = (t, k, x)" by (cases "w (cw_w c) (fits c p)")
  show ?thesis
  proof (cases "cw_unlimited c \<or> 0 < cw_remaining c")
    case True
    note write_takes [OF q]
    moreover have "length (fits c p) \<le> nat (cw_remaining c)" if "\<not> cw_unlimited c"
      using that by (simp add: fits_def)
    moreover have "int k = cw_remaining c"
      if "\<not> cw_unlimited c" "int (length p) > cw_remaining c" "x = None"
    proof -
      have "k = length (fits c p)" using write_all [of "cw_w c" "fits c p" t k] q that(3) by simp
      with that True show ?thesis by (simp add: fits_def min_def)
    qed
    ultimately show ?thesis
      using assms capped_Write_fits [of c w p t k x, OF True q]
      by (auto simp: cap_inv_def capped_sent_def Let_def split: if_splits)
  next
    case False
    with assms capped_Write_full [of c w p] show ?thesis
      by (auto simp: cap_inv_def capped_sent_def split: if_splits)
  qed
qed

lemma cap_inv_copy:
  "Copy (capped_Write w) c rs k = (c', m, e) \<Longrightarrow> cap_inv limit b c \<Longrightarrow> cap_inv limit b c'"
proof (induction rs arbitrary: c k)
  case (Cons r rs)
  obtain chunk er where r: "r = (chunk, er)" by (cases r)
  obtain t n x where q: "(if chunk = [] then (c, 0, None) else capped_Write w c chunk) = (t, n, x)"
    by (cases "if chunk = [] then (c, 0, None) else capped_Write w c chunk")
  with Cons.prems(2) have t: "cap_inv limit b t" by (auto split: if_splits intro: cap_inv_write)
  show ?case
  proof (cases "x = None \<and> n = length chunk \<and> er = None")
    case True
    with Cons.prems(1) r q have "Copy (capped_Write w) t rs (k + n) = (c', m, e)" by simp
    from Cons.IH [OF this t] show ?thesis .
  next
    case False
    with Cons.prems(1) r q have "c' = t" by (auto split: option.splits if_splits)
    with t show ?thesis by simp
  qed
qed simp

lemma copy_within_cap:
  assumes "Copy (capped_Write w) (newCappedWriter s limit) rs 0 = (c', m, e)" "0 < limit"
  shows "int m \<le> limit" and "exceeded c' \<Longrightarrow> int m = limit"
    and "sent (cw_w c') = sent s @ take m (offered rs)"
proof -
  have i: "cap_inv limit (sent s) c'" using cap_inv_copy [OF assms(1) cap_inv_new] .
  obtain n where n: "m = 0 + n" "n \<le> length (offered rs)"
    "capped_sent c' = capped_sent (newCappedWriter s limit) @ take n (offered rs)"
    using writer.copy_prefix [OF capped_writer assms(1)] by blast
  then show s: "sent (cw_w c') = sent s @ take m (offered rs)"
    by (simp add: capped_sent_def newCappedWriter_def)
  show "int m \<le> limit" "exceeded c' \<Longrightarrow> int m = limit"
    using i assms(2) s n(1,2) by (auto simp: cap_inv_def capped_sent_def exceeded_def)
qed

end

text \<open>A connection whose peer stays takes the whole stream, or exactly the cap.\<close>

lemma copy_cap_exact:
  "Copy (capped_Write conn_Write) c rs k = (c', m, e) \<Longrightarrow> conn_left (cw_w c) = None \<Longrightarrow>
     \<not> cw_unlimited c \<Longrightarrow> \<not> cw_capped c \<Longrightarrow> 0 \<le> cw_remaining c \<Longrightarrow>
     m = k + min (length (offered rs)) (nat (cw_remaining c))
     \<and> cw_capped c' = (int (length (offered rs)) > cw_remaining c)"
proof (induction rs arbitrary: c k)
  case (Cons r rs)
  obtain chunk er where r: "r = (chunk, er)" by (cases r)
  have w: "conn_Write (cw_w c) p = ((cw_w c)\<lparr>conn_sent := conn_sent (cw_w c) @ p\<rparr>, length p, None)" for p
    using Cons.prems(2) by (simp add: conn_Write_def)
  show ?case
  proof (cases "chunk = []")
    case True
    then show ?thesis using Cons r by (auto split: option.splits)
  next
    case ne: False
    show ?thesis
    proof (cases "int (length chunk) > cw_remaining c")
      case True
      with Cons.prems r ne w show ?thesis
        by (auto simp: capped_Write_def Let_def errTunnelCapExceeded_def min_def split: option.splits if_splits)
    next
      case False
      let ?c = "c\<lparr>cw_w := (cw_w c)\<lparr>conn_sent := conn_sent (cw_w c) @ chunk\<rparr>,
          cw_remaining := cw_remaining c - int (length chunk)\<rparr>"
      from ne False have pos: "\<not> cw_remaining c \<le> 0" by (cases chunk) auto
      have step: "capped_Write conn_Write c chunk = (?c, length chunk, None)"
        using False pos Cons.prems(3) w by (simp add: capped_Write_def Let_def)
      show ?thesis
      proof (cases er)
        case None
        with Cons.prems(1) r ne step have "Copy (capped_Write conn_Write) ?c rs (k + length chunk) = (c', m, e)"
          by simp
        from Cons.IH [OF this] Cons.prems False r None show ?thesis by auto
      next
        case (Some x)
        with Cons.prems r ne step False show ?thesis by auto
      qed
    qed
  qed
qed simp

section \<open>The idle clock\<close>

text \<open>
  Times are nanoseconds. \<open>ic_last\<close> is the time of the last byte moved either way. One attempt of
  \<open>idleReader.Read\<close> is what the connection answered, what the other direction had stamped on the
  clock by then, and the time.
\<close>

record idleClock =
  ic_idle :: int
  ic_last :: int

definition newIdleClock :: "int \<Rightarrow> int \<Rightarrow> idleClock" where
  "newIdleClock idle now = \<lparr>ic_idle = idle, ic_last = now\<rparr>"

definition touch :: "int \<Rightarrow> idleClock \<Rightarrow> idleClock" where
  "touch now c = c\<lparr>ic_last := now\<rparr>"

definition deadline :: "idleClock \<Rightarrow> int" where
  "deadline c = ic_last c + ic_idle c"

datatype net_error = Timeout | OtherError string

definition isTimeout :: "net_error option \<Rightarrow> bool" where
  "isTimeout e = (e = Some Timeout)"

record attempt =
  at_chunk :: string
  at_error :: "net_error option"
  at_other :: int
  at_now :: int

text \<open>
  The deadlines set before each attempt, then the answer: \<open>None\<close> where the attempts listed all
  timed out early and the read is still waiting.
\<close>

fun idle_Read :: "idleClock \<Rightarrow> attempt list \<Rightarrow> int list \<times> (idleClock \<times> string \<times> net_error option) option" where
  "idle_Read c [] = ([], None)"
| "idle_Read c (a # as) =
     (let set = (if ic_idle c > 0 then [deadline c] else []);
          c1 = touch (at_other a) c;
          c2 = (if at_chunk a \<noteq> [] then touch (at_now a) c1 else c1)
      in if at_chunk a = [] \<and> ic_idle c > 0 \<and> isTimeout (at_error a) \<and> at_now a < deadline c2
         then (case idle_Read c2 as of (ds, r) \<Rightarrow> (set @ ds, r))
         else (set, Some (c2, at_chunk a, at_error a)))"

lemma idle_Read_timeout:
  "idle_Read c as = (ds, Some (c', [], Some Timeout)) \<Longrightarrow> ic_idle c > 0 \<Longrightarrow>
     \<exists>a \<in> set as. ic_last c' = at_other a \<and> ic_idle c' = ic_idle c \<and> at_other a + ic_idle c \<le> at_now a"
proof (induction c as arbitrary: ds rule: idle_Read.induct)
  case (2 c a as)
  show ?case
  proof (cases "at_chunk a = [] \<and> isTimeout (at_error a) \<and> at_now a < at_other a + ic_idle c")
    case True
    let ?c = "touch (at_other a) c"
    obtain ds' r where q: "idle_Read ?c as = (ds', r)" by (cases "idle_Read ?c as")
    with 2(2,3) True have "r = Some (c', [], Some Timeout)"
      by (simp add: Let_def deadline_def touch_def)
    with 2(1) [OF refl refl refl] q True 2(3) show ?thesis
      by (auto simp: deadline_def touch_def)
  next
    case False
    with 2(2,3) show ?thesis
      by (auto simp: Let_def deadline_def touch_def isTimeout_def split: if_splits prod.splits)
  qed
qed simp

section \<open>pump\<close>

text \<open>
  The two copies, each on its own capped writer, over the reads each direction gets before it
  ends; the client's first bytes are those buffered with the request. The counts are \<open>int64\<close>.
\<close>

record pumped =
  pu_up :: int64
  pu_down :: int64
  pu_capped :: bool

definition pump ::
  "int \<Rightarrow> conn \<Rightarrow> conn \<Rightarrow> (string \<times> string option) list \<Rightarrow> (string \<times> string option) list
     \<Rightarrow> conn \<times> conn \<times> pumped" where
  "pump limit client upstream ups downs =
     (case Copy (capped_Write conn_Write) (newCappedWriter upstream limit) ups 0 of
        (uw, up, _) \<Rightarrow>
          (case Copy (capped_Write conn_Write) (newCappedWriter client limit) downs 0 of
             (dw, down, _) \<Rightarrow>
               (cw_w dw, cw_w uw,
                \<lparr>pu_up = of_nat up, pu_down = of_nat down, pu_capped = exceeded uw \<or> exceeded dw\<rparr>)))"

lemma pump_bounds:
  assumes "0 < limit" "pump limit client upstream ups downs = (client', upstream', p)"
  shows "\<exists>u d. conn_sent upstream' = conn_sent upstream @ take u (offered ups)
      \<and> conn_sent client' = conn_sent client @ take d (offered downs)
      \<and> int u \<le> limit \<and> int d \<le> limit \<and> pu_up p = of_nat u \<and> pu_down p = of_nat d
      \<and> (pu_capped p \<longrightarrow> int u = limit \<or> int d = limit)"
proof -
  obtain uw up ue where u: "Copy (capped_Write conn_Write) (newCappedWriter upstream limit) ups 0 = (uw, up, ue)"
    by (metis prod_cases3)
  obtain dw dn de where d: "Copy (capped_Write conn_Write) (newCappedWriter client limit) downs 0 = (dw, dn, de)"
    by (metis prod_cases3)
  from assms(2) u d have "client' = cw_w dw" "upstream' = cw_w uw"
    "p = \<lparr>pu_up = of_nat up, pu_down = of_nat dn, pu_capped = exceeded uw \<or> exceeded dw\<rparr>"
    by (simp_all add: pump_def)
  with conn.copy_within_cap [OF u assms(1)] conn.copy_within_cap [OF d assms(1)] show ?thesis
    by (intro exI [of _ up] exI [of _ dn]) auto
qed

section \<open>Properties\<close>

text \<open>C26. A capped direction forwards a prefix of what its source offers, never more than the cap,
  and reports the cap as reached only if exactly the cap went out; to a peer that stays it forwards
  all there is up to the cap and reports it exactly when more was offered.\<close>

theorem tunnel_cap:
  assumes "0 < limit"
    and "Copy (capped_Write conn_Write) (newCappedWriter c limit) rs 0 = (c', m, e)"
  shows "int m \<le> limit \<and> conn_sent (cw_w c') = conn_sent c @ take m (offered rs)
    \<and> (exceeded c' \<longrightarrow> int m = limit)
    \<and> (conn_left c = None \<longrightarrow>
         m = min (length (offered rs)) (nat limit)
         \<and> (exceeded c' \<longleftrightarrow> int (length (offered rs)) > limit))"
  using conn.copy_within_cap [OF assms(2,1)] copy_cap_exact [OF assms(2)] assms(1)
  by (auto simp: newCappedWriter_def exceeded_def)

definition sample_reads :: "(string \<times> string option) list" where
  "sample_reads = [(''hello '', None), (''world'', None), ([], Some ''EOF'')]"

theorem tunnel_cap_witness:
  "let (c', m, e) = Copy (capped_Write conn_Write) (newCappedWriter \<lparr>conn_sent = [], conn_left = None\<rparr> 8)
       sample_reads 0
   in m = 8 \<and> conn_sent (cw_w c') = ''hello wo'' \<and> exceeded c'"
proof -
  obtain c' m e where q: "Copy (capped_Write conn_Write)
      (newCappedWriter \<lparr>conn_sent = [], conn_left = None\<rparr> 8) sample_reads 0 = (c', m, e)"
    by (metis prod_cases3)
  have l: "offered sample_reads = ''hello world''" by (simp add: sample_reads_def)
  from tunnel_cap [OF _ q] show ?thesis by (simp add: q l)
qed

text \<open>Without a cap a direction that ends at the end of its input has forwarded every byte of
  it, and its count is their number.\<close>

lemma tunnel_uncapped:
  assumes "limit \<le> 0"
    and "Copy (capped_Write conn_Write) (newCappedWriter c limit) rs 0 = (c', m, CopyEOF)"
  shows "conn_sent (cw_w c') = conn_sent c @ offered rs \<and> m = length (offered rs) \<and> \<not> exceeded c'"
proof -
  have "conn.cap_inv limit (conn_sent c) c'"
    using conn.cap_inv_copy [OF assms(2) conn.cap_inv_new] .
  then have "\<not> exceeded c'" using assms(1) by (simp add: conn.cap_inv_def exceeded_def)
  then show ?thesis
    using capped_conn.copy_complete [OF assms(2)] by (simp add: newCappedWriter_def)
qed

text \<open>A read of an idle-guarded tunnel ends in a timeout only if no byte had moved in either
  direction for the whole idle period; a quiet direction waits as long as the other is busy.\<close>

lemma tunnel_idle:
  assumes "idle_Read c as = (ds, Some (c', [], Some Timeout))" "ic_idle c > 0"
  shows "\<exists>a \<in> set as. ic_last c' = at_other a \<and> at_now a - ic_last c' \<ge> ic_idle c"
  using idle_Read_timeout [OF assms] by force

lemma tunnel_idle_instance:
  "\<exists>a \<in> set [\<lparr>at_chunk = [], at_error = Some Timeout, at_other = 90, at_now = 100\<rparr>,
             \<lparr>at_chunk = [], at_error = Some Timeout, at_other = 90, at_now = 190\<rparr>].
     at_other a = 90 \<and> at_now a - 90 \<ge> 100"
proof -
  have q: "idle_Read (newIdleClock 100 0)
      [\<lparr>at_chunk = [], at_error = Some Timeout, at_other = 90, at_now = 100\<rparr>,
       \<lparr>at_chunk = [], at_error = Some Timeout, at_other = 90, at_now = 190\<rparr>]
      = ([100, 190], Some (\<lparr>ic_idle = 100, ic_last = 90\<rparr>, [], Some Timeout))"
    by (simp add: newIdleClock_def Let_def touch_def deadline_def isTimeout_def)
  from tunnel_idle [OF q] show ?thesis by (simp add: newIdleClock_def)
qed

text \<open>The pump caps each direction on its own: both sides receive a prefix of what the other
  offered, of at most the cap, and the tunnel counts as capped only if one of them got all of it.\<close>

lemma tunnel_pump:
  assumes "0 < limit" "pump limit client upstream ups downs = (client', upstream', p)"
  shows "\<exists>u d. conn_sent upstream' = conn_sent upstream @ take u (offered ups)
      \<and> conn_sent client' = conn_sent client @ take d (offered downs)
      \<and> int u \<le> limit \<and> int d \<le> limit \<and> pu_up p = of_nat u \<and> pu_down p = of_nat d
      \<and> (pu_capped p \<longrightarrow> int u = limit \<or> int d = limit)"
  using pump_bounds [OF assms] by blast

end
