(* ===== verification/ProxyConnect.thy ===== *)
theory ProxyConnect
  imports ProxyHttp Tunnel
begin

text \<open>
  \<open>internal/proxy/connect.go\<close>: the authority of a CONNECT, its handler, step by step with the
  deferred calls in their order, and \<open>ServeHTTP\<close>. What \<open>isClosing\<close> and \<open>registerTunnel\<close> answer is
  the environment of one request; their interleaving with \<open>Shutdown\<close> is the theory \<open>Shutdown\<close>.
\<close>

section \<open>splitAuthority\<close>

datatype authority_error = NoAuthority | Malformed string | MalformedPort string | NoHost string

definition splitAuthority :: "string \<Rightarrow> authority_error + string \<times> int" where
  "splitAuthority authority =
     (if authority = [] then Inl NoAuthority
      else case SplitHostPort authority of
        Inl e \<Rightarrow> (if e = MissingPort then Inr (authority, 443) else Inl (Malformed authority))
      | Inr (h, p) \<Rightarrow>
          (case Atoi p of
             None \<Rightarrow> Inl (MalformedPort authority)
           | Some n \<Rightarrow>
               (if n < 1 \<or> n > 65535 then Inl (MalformedPort authority)
                else if h = [] then Inl (NoHost authority)
                else Inr (h, n))))"

definition authority_message :: "gate_env \<Rightarrow> authority_error \<Rightarrow> string" where
  "authority_message env e =
     (case e of
        NoAuthority \<Rightarrow> ''CONNECT requires an authority such as host:443''
      | Malformed a \<Rightarrow> ''malformed CONNECT authority '' @ Quote env a
      | MalformedPort a \<Rightarrow> ''malformed port in CONNECT authority '' @ Quote env a
      | NoHost a \<Rightarrow> ''CONNECT authority '' @ Quote env a @ '' has no host'')"

section \<open>handleConnect\<close>

text \<open>
  The world of one CONNECT: what \<open>isClosing\<close>, the dial, the hijack, the write of the 200 and
  \<open>registerTunnel\<close> answer, and the reads either end of the tunnel gets.
\<close>

record connect_env =
  ce_closing :: bool
  ce_dial :: "string \<Rightarrow> string option"
  ce_hijacker :: bool
  ce_hijack :: "string option"
  ce_established :: "string option"
  ce_started :: bool
  ce_client :: conn
  ce_upstream :: conn
  ce_ups :: "(string \<times> string option) list"
  ce_downs :: "(string \<times> string option) list"

definition connect_question :: "string \<Rightarrow> int \<Rightarrow> request" where
  "connect_question host port =
     \<lparr>q_kind = KindConnect, q_host = host, q_port = port, q_method = [], q_path = []\<rparr>"

definition dial_address :: "string \<Rightarrow> int \<Rightarrow> string" where
  "dial_address host port = JoinHostPort host (Itoa port)"

definition established :: string where
  "established = ''HTTP/1.1 200 Connection Established'' @ [CHR 0x0D, CHR 0x0A, CHR 0x0D, CHR 0x0A]"

definition shutting_down_reason :: string where
  "shutting_down_reason = ''the gate was shutting down; the tunnel was refused rather than opened unaudited''"

definition began_closing_reason :: string where
  "began_closing_reason =
     ''the gate began shutting down as the tunnel opened; it was closed before carrying traffic''"

definition cap_reason :: "int \<Rightarrow> string" where
  "cap_reason limit = ''tunnel closed after reaching the '' @ Itoa limit @ '' byte cap''"

definition ends_closed :: "proxy \<Rightarrow> proxy" where
  "ends_closed st = emit ClosedUpstream (emit ClosedClient st)"

text \<open>The record of a tunnel that ran.\<close>

definition tunnel_record :: "config \<Rightarrow> audit_record \<Rightarrow> pumped \<Rightarrow> audit_record" where
  "tunnel_record cfg rec0 p =
     (let r = rec0\<lparr>a_bytes_up := pu_up p, a_bytes_down := pu_down p\<rparr>
      in if pu_capped p then r\<lparr>a_reason := cap_reason (cfg_max_tunnel cfg)\<rparr> else r)"

definition pumped_through :: "config \<Rightarrow> connect_env \<Rightarrow> pumped" where
  "pumped_through cfg ce =
     snd (snd (pump (cfg_max_tunnel cfg) (ce_client ce) (ce_upstream ce) (ce_ups ce) (ce_downs ce)))"

text \<open>From the started tunnel to the return, the deferred calls last in, first out.\<close>

definition run_tunnel ::
  "(string \<Rightarrow> string) \<Rightarrow> config \<Rightarrow> gate_env \<Rightarrow> connect_env \<Rightarrow> audit_record \<Rightarrow> proxy \<Rightarrow> proxy" where
  "run_tunnel H cfg env ce rec0 st =
     (let p = pumped_through cfg ce;
          st1 = with_metrics tunnels_Inc (emit Registered st);
          st2 = emit (Piped (pu_up p) (pu_down p)) st1;
          st3 = finish H env (tunnel_record cfg rec0 p) 200 st2
      in ends_closed (emit Unregistered (with_metrics tunnels_Dec st3)))"

text \<open>From the successful dial on; the upstream is closed whatever happens.\<close>

definition open_tunnel ::
  "(string \<Rightarrow> string) \<Rightarrow> config \<Rightarrow> gate_env \<Rightarrow> connect_env \<Rightarrow> audit_record \<Rightarrow> proxy \<Rightarrow> proxy" where
  "open_tunnel H cfg env ce rec0 st =
     (if \<not> ce_hijacker ce then
        emit ClosedUpstream
          (http_Error ''egressgate: tunnelling unsupported on this server'' 500
            (finish H env (rec0\<lparr>a_reason := ''the server does not support connection hijacking''\<rparr>) 500 st))
      else if ce_hijack ce \<noteq> None then
        emit ClosedUpstream
          (http_Error ''egressgate: could not take over the connection'' 500 (finish H env rec0 500 st))
      else
        (let st1 = emit (Wrote established) (emit Hijacked st)
         in if ce_established ce \<noteq> None then
              ends_closed
                (finish H env (rec0\<lparr>a_reason := ''client went away before the tunnel opened''\<rparr>) 502 st1)
            else if \<not> ce_started ce then
              ends_closed (finish H env (rec0\<lparr>a_reason := began_closing_reason\<rparr>) 503 st1)
            else run_tunnel H cfg env ce rec0 st1))"

definition handleConnect ::
  "(string \<Rightarrow> string) \<Rightarrow> config \<Rightarrow> gate_env \<Rightarrow> connect_env \<Rightarrow> http_request \<Rightarrow> proxy \<Rightarrow> proxy" where
  "handleConnect H cfg env ce r st =
     (let rec0 = zero_record\<lparr>a_kind := KindConnect, a_client := clientIP (hr_remote r)\<rparr>;
          authority = (if hr_host r = [] then u_host (hr_url r) else hr_host r)
      in case splitAuthority authority of
           Inl e \<Rightarrow>
             http_Error (''egressgate: '' @ authority_message env e) 400
               (finish H env
                 (rec0\<lparr>a_host := authority, a_decision := Deny, a_reason := authority_message env e\<rparr>) 400 st)
         | Inr (host, port) \<Rightarrow>
             (let q = connect_question host port;
                  d = ge_eval env q;
                  st1 = emit (Asked q) st;
                  rec1 = rec0\<lparr>a_host := host, a_port := of_int port, a_decision := d_action d,
                              a_rule := d_rule d, a_reason := d_reason d\<rparr>
              in if d_action d \<noteq> Allow then
                   http_Error (''egressgate: denied by policy: '' @ d_reason d) 403 (finish H env rec1 403 st1)
                 else if ce_closing ce then
                   http_Error (''egressgate: '' @ shutting_down_reason) 503
                     (finish H env (rec1\<lparr>a_reason := shutting_down_reason\<rparr>) 503 st1)
                 else
                   (let st2 = emit (Dialled (dial_address host port)) st1
                    in case ce_dial ce (dial_address host port) of
                         Some _ \<Rightarrow>
                           http_Error ''egressgate: could not reach upstream'' 502 (finish H env rec1 502 st2)
                       | None \<Rightarrow> open_tunnel H cfg env ce rec1 st2)))"

definition ServeHTTP ::
  "(string \<Rightarrow> string) \<Rightarrow> casemap \<Rightarrow> config \<Rightarrow> gate_env \<Rightarrow> upstream_env \<Rightarrow> connect_env \<Rightarrow> http_request
     \<Rightarrow> proxy \<Rightarrow> proxy" where
  "ServeHTTP H cm cfg env ue ce r st =
     (if hr_method r = ''CONNECT'' then handleConnect H cfg env ce r st
      else handleHTTP H cm env ue r st)"

section \<open>The authority\<close>

lemma SplitHostPort_parts:
  assumes "SplitHostPort a = Inr (h, p)"
  shows "CHR ''['' \<notin> set h" "CHR '']'' \<notin> set h" "CHR '':'' \<notin> set p" "CHR ''['' \<notin> set p" "CHR '']'' \<notin> set p"
proof -
  obtain i where i: "LastIndexByte a CHR '':'' = Some i"
    using assms by (cases "LastIndexByte a CHR '':''") (simp_all add: SplitHostPort_def)
  note last = LastIndexByte_Some [OF i]
  have "(CHR ''['' \<notin> set h \<and> CHR '']'' \<notin> set h) \<and> CHR ''['' \<notin> set p \<and> CHR '']'' \<notin> set p \<and> p = drop (i + 1) a"
  proof (cases "HasPrefix a ''[''")
    case True
    then obtain e where e: "IndexByte a CHR '']'' = Some e"
      using assms i by (cases "IndexByte a CHR '']''") (simp_all add: SplitHostPort_def)
    have s: "e + 1 = i" "CHR ''['' \<notin> set (drop 1 a)" "CHR '']'' \<notin> set (drop (e + 1) a)"
      "h = take (e - 1) (drop 1 a)" "p = drop (i + 1) a"
      using assms i e True by (auto simp: SplitHostPort_def split: if_splits)
    have "h = drop 1 (take e a)" using s(4) by (simp add: drop_take)
    then have "set h \<subseteq> set (take e a)" by (metis set_drop_subset)
    moreover have "set h \<subseteq> set (drop 1 a)" unfolding s(4) by (rule set_take_subset)
    moreover have "p = drop i (drop 1 a)" "p = drop 1 (drop (e + 1) a)" using s(1,5) by simp_all
    then have "set p \<subseteq> set (drop 1 a)" "set p \<subseteq> set (drop (e + 1) a)" by (metis set_drop_subset)+
    ultimately show ?thesis
      using s IndexByte_Some [OF e] by blast
  next
    case False
    with assms i have "h = take i a" "p = drop (i + 1) a" "CHR ''['' \<notin> set a" "CHR '']'' \<notin> set a"
      by (auto simp: SplitHostPort_def split: if_splits)
    then show ?thesis by (auto dest: in_set_takeD in_set_dropD)
  qed
  with last show "CHR ''['' \<notin> set h" "CHR '']'' \<notin> set h" "CHR '':'' \<notin> set p" "CHR ''['' \<notin> set p"
    "CHR '']'' \<notin> set p" by auto
qed

end
