(* ===== verification/ProxyProps.thy ===== *)
theory ProxyProps
  imports ProxyConnect AuditTamper
begin

text \<open>
  What the data plane promises: the policy is asked before anything leaves, every request leaves
  exactly one record that says what happened, and what is forwarded is what was judged.
\<close>

section \<open>The effects of a CONNECT\<close>

text \<open>Where a tunnel that was taken over is not started: the reason of the record and its status.\<close>

definition unstarted_reason :: "connect_env \<Rightarrow> string" where
  "unstarted_reason ce =
     (if ce_established ce \<noteq> None then ''client went away before the tunnel opened'' else began_closing_reason)"

definition unstarted_status :: "connect_env \<Rightarrow> int" where
  "unstarted_status ce = (if ce_established ce \<noteq> None then 502 else 503)"

definition authority_of :: "http_request \<Rightarrow> string" where
  "authority_of r = (if hr_host r = [] then u_host (hr_url r) else hr_host r)"

text \<open>A record of a CONNECT to a host and port the policy allowed.\<close>

definition allowed_record :: "gate_env \<Rightarrow> string \<Rightarrow> int \<Rightarrow> audit_record \<Rightarrow> bool" where
  "allowed_record env host port rec0 \<longleftrightarrow>
     a_kind rec0 = KindConnect \<and> a_host rec0 = host \<and> a_port rec0 = of_int port
     \<and> a_decision rec0 = Allow \<and> a_rule rec0 = d_rule (ge_eval env (connect_question host port))
     \<and> a_method rec0 = [] \<and> a_path rec0 = []"

inductive connect_shape ::
  "config \<Rightarrow> gate_env \<Rightarrow> connect_env \<Rightarrow> http_request \<Rightarrow> effect list \<Rightarrow> bool"
  for cfg :: config and env :: gate_env and ce :: connect_env and r :: http_request where
  malformed: "a_decision rec0 = Deny \<Longrightarrow> splitAuthority (authority_of r) = Inl e \<Longrightarrow>
     connect_shape cfg env ce r [Audited (stamped env rec0 400), Refused 400 msg]"
| forbidden: "splitAuthority (authority_of r) = Inr (host, port) \<Longrightarrow>
     d_action (ge_eval env (connect_question host port)) \<noteq> Allow \<Longrightarrow>
     a_decision rec0 = d_action (ge_eval env (connect_question host port)) \<Longrightarrow>
     connect_shape cfg env ce r
       [Asked (connect_question host port), Audited (stamped env rec0 403), Refused 403 msg]"
| closing: "splitAuthority (authority_of r) = Inr (host, port) \<Longrightarrow>
     d_action (ge_eval env (connect_question host port)) = Allow \<Longrightarrow>
     allowed_record env host port rec0 \<Longrightarrow> ce_closing ce \<Longrightarrow>
     connect_shape cfg env ce r
       [Asked (connect_question host port), Audited (stamped env rec0 503), Refused 503 msg]"
| unreachable: "splitAuthority (authority_of r) = Inr (host, port) \<Longrightarrow>
     d_action (ge_eval env (connect_question host port)) = Allow \<Longrightarrow>
     allowed_record env host port rec0 \<Longrightarrow> \<not> ce_closing ce \<Longrightarrow>
     connect_shape cfg env ce r
       [Asked (connect_question host port), Dialled (dial_address host port),
        Audited (stamped env rec0 502), Refused 502 msg]"
| unhijacked: "splitAuthority (authority_of r) = Inr (host, port) \<Longrightarrow>
     d_action (ge_eval env (connect_question host port)) = Allow \<Longrightarrow>
     allowed_record env host port rec0 \<Longrightarrow> \<not> ce_closing ce \<Longrightarrow>
     connect_shape cfg env ce r
       [Asked (connect_question host port), Dialled (dial_address host port),
        Audited (stamped env rec0 500), Refused 500 msg, ClosedUpstream]"
| unstarted: "splitAuthority (authority_of r) = Inr (host, port) \<Longrightarrow>
     d_action (ge_eval env (connect_question host port)) = Allow \<Longrightarrow>
     allowed_record env host port rec0 \<Longrightarrow> \<not> ce_closing ce \<Longrightarrow>
     ce_established ce \<noteq> None \<or> \<not> ce_started ce \<Longrightarrow> a_reason rec0 = unstarted_reason ce \<Longrightarrow>
     connect_shape cfg env ce r
       [Asked (connect_question host port), Dialled (dial_address host port), Hijacked,
        Wrote established, Audited (stamped env rec0 (unstarted_status ce)), ClosedClient, ClosedUpstream]"
| tunnelled: "splitAuthority (authority_of r) = Inr (host, port) \<Longrightarrow>
     d_action (ge_eval env (connect_question host port)) = Allow \<Longrightarrow>
     allowed_record env host port rec0 \<Longrightarrow> \<not> ce_closing ce \<Longrightarrow>
     ce_established ce = None \<Longrightarrow> ce_started ce \<Longrightarrow>
     pumped_through cfg ce = p \<Longrightarrow>
     a_bytes_up rec0 = pu_up p \<Longrightarrow> a_bytes_down rec0 = pu_down p \<Longrightarrow>
     connect_shape cfg env ce r
       [Asked (connect_question host port), Dialled (dial_address host port), Hijacked,
        Wrote established, Registered, Piped (pu_up p) (pu_down p), Audited (stamped env rec0 200),
        Unregistered, ClosedClient, ClosedUpstream]"

inductive_cases connect_shapeE: "connect_shape cfg env ce r es"

lemma px_trace_update [simp]: "px_trace (st\<lparr>px_metrics := m\<rparr>) = px_trace st"
  by simp

lemma open_tunnel_shape:
  assumes "splitAuthority (authority_of r) = Inr (host, port)"
    "d_action (ge_eval env (connect_question host port)) = Allow"
    "allowed_record env host port rec0" "\<not> ce_closing ce"
    "px_trace st = tr @ [Asked (connect_question host port), Dialled (dial_address host port)]"
  shows "\<exists>es. px_trace (open_tunnel H cfg env ce rec0 st) = tr @ es \<and> connect_shape cfg env ce r es"
proof -
  have a: "allowed_record env host port (rec0\<lparr>a_reason := x\<rparr>)"
    "allowed_record env host port (rec0\<lparr>a_bytes_up := u, a_bytes_down := d\<rparr>)"
    "allowed_record env host port (rec0\<lparr>a_bytes_up := u, a_bytes_down := d, a_reason := x\<rparr>)" for x u d
    using assms(3) by (simp_all add: allowed_record_def)
  consider "\<not> ce_hijacker ce" | "ce_hijacker ce" "ce_hijack ce \<noteq> None"
    | "ce_hijacker ce" "ce_hijack ce = None" "ce_established ce \<noteq> None"
    | "ce_hijacker ce" "ce_hijack ce = None" "ce_established ce = None" "\<not> ce_started ce"
    | "ce_hijacker ce" "ce_hijack ce = None" "ce_established ce = None" "ce_started ce"
    by blast
  then show ?thesis
  proof cases
    case 1
    with assms a show ?thesis
      by (auto simp: open_tunnel_def intro!: unhijacked)
  next
    case 2
    with assms show ?thesis by (auto simp: open_tunnel_def intro!: unhijacked)
  next
    case 3
    let ?rec = "rec0\<lparr>a_reason := unstarted_reason ce\<rparr>"
    have "connect_shape cfg env ce r
       [Asked (connect_question host port), Dialled (dial_address host port), Hijacked, Wrote established,
        Audited (stamped env ?rec (unstarted_status ce)), ClosedClient, ClosedUpstream]"
      using assms 3 a by (intro unstarted) simp_all
    with 3 assms(5) show ?thesis
      by (simp add: open_tunnel_def ends_closed_def unstarted_reason_def unstarted_status_def Let_def)
  next
    case 4
    let ?rec = "rec0\<lparr>a_reason := unstarted_reason ce\<rparr>"
    have "connect_shape cfg env ce r
       [Asked (connect_question host port), Dialled (dial_address host port), Hijacked, Wrote established,
        Audited (stamped env ?rec (unstarted_status ce)), ClosedClient, ClosedUpstream]"
      using assms 4 a by (intro unstarted) simp_all
    with 4 assms(5) show ?thesis
      by (simp add: open_tunnel_def ends_closed_def unstarted_reason_def unstarted_status_def Let_def)
  next
    case 5
    let ?p = "pumped_through cfg ce"
    have "connect_shape cfg env ce r
       [Asked (connect_question host port), Dialled (dial_address host port), Hijacked,
        Wrote established, Registered, Piped (pu_up ?p) (pu_down ?p),
        Audited (stamped env (tunnel_record cfg rec0 ?p) 200), Unregistered, ClosedClient, ClosedUpstream]"
      using assms 5 a by (intro tunnelled) (simp_all add: tunnel_record_def Let_def)
    with 5 assms(5) show ?thesis
      by (simp add: open_tunnel_def run_tunnel_def ends_closed_def Let_def)
  qed
qed

lemma handleConnect_shape: "connect_shape cfg env ce r (effects st (handleConnect H cfg env ce r st))"
proof (cases "splitAuthority (authority_of r)")
  case (Inl e)
  then show ?thesis
    by (auto simp: handleConnect_def authority_of_def effects_def Let_def intro!: malformed)
next
  case (Inr hp)
  obtain host port where hp: "hp = (host, port)" by (cases hp)
  let ?q = "connect_question host port"
  let ?rec = "zero_record\<lparr>a_kind := KindConnect, a_client := clientIP (hr_remote r), a_host := host,
    a_port := of_int port, a_decision := d_action (ge_eval env ?q), a_rule := d_rule (ge_eval env ?q),
    a_reason := d_reason (ge_eval env ?q)\<rparr>"
  have z: "d_action (ge_eval env ?q) = Allow \<Longrightarrow> allowed_record env host port ?rec"
    by (simp add: allowed_record_def zero_record_def)
  have z': "d_action (ge_eval env ?q) = Allow \<Longrightarrow> allowed_record env host port (?rec\<lparr>a_reason := x\<rparr>)" for x
    by (simp add: allowed_record_def zero_record_def)
  consider "d_action (ge_eval env ?q) \<noteq> Allow"
    | "d_action (ge_eval env ?q) = Allow" "ce_closing ce"
    | e where "d_action (ge_eval env ?q) = Allow" "\<not> ce_closing ce" "ce_dial ce (dial_address host port) = Some e"
    | "d_action (ge_eval env ?q) = Allow" "\<not> ce_closing ce" "ce_dial ce (dial_address host port) = None"
    by (cases "ce_dial ce (dial_address host port)") blast+
  then show ?thesis
  proof cases
    case 1
    with Inr hp show ?thesis
      by (auto simp: handleConnect_def authority_of_def effects_def Let_def intro!: forbidden)
  next
    case 2
    with Inr hp z' show ?thesis
      by (auto simp: handleConnect_def authority_of_def effects_def Let_def intro!: closing)
  next
    case 3
    with Inr hp z show ?thesis
      by (auto simp: handleConnect_def authority_of_def effects_def Let_def intro!: unreachable)
  next
    case 4
    let ?st = "emit (Dialled (dial_address host port)) (emit (Asked ?q) st)"
    from open_tunnel_shape [of r host port env ?rec ce ?st "px_trace st" H cfg] Inr hp z 4
    obtain es where "px_trace (open_tunnel H cfg env ce ?rec ?st) = px_trace st @ es"
      "connect_shape cfg env ce r es" by auto
    with 4 Inr hp show ?thesis
      by (simp add: handleConnect_def authority_of_def effects_def Let_def)
  qed
qed

section \<open>One record for each request\<close>

fun audits :: "effect list \<Rightarrow> audit_record list" where
  "audits [] = []"
| "audits (Audited r # es) = r # audits es"
| "audits (_ # es) = audits es"

definition not_audit :: "effect \<Rightarrow> bool" where
  "not_audit e \<longleftrightarrow> audits [e] = []"

lemma audits_append: "audits (xs @ ys) = audits xs @ audits ys"
  by (induction xs rule: audits.induct) auto

lemma not_audit_simps [simp]:
  "not_audit (Asked q)" "not_audit (RoundTrip x)" "not_audit (Dialled a)" "not_audit Hijacked"
  "not_audit (Wrote a)" "not_audit (Responded c h)" "not_audit (Refused c a)" "not_audit Registered"
  "not_audit (Piped u d)" "not_audit Unregistered" "not_audit ClosedClient" "not_audit ClosedUpstream"
  by (simp_all add: not_audit_def)

text \<open>
  From \<open>st\<close> to \<open>st'\<close> the record \<open>rec\<close> was audited, once: it is the only one among the effects, the
  one the log was given, and the one the counters moved for. \<open>no_record\<close>: none was.
\<close>

definition one_record :: "(string \<Rightarrow> string) \<Rightarrow> gate_env \<Rightarrow> audit_record \<Rightarrow> proxy \<Rightarrow> proxy \<Rightarrow> bool" where
  "one_record H env rec st st' \<longleftrightarrow>
     (\<exists>es. px_trace st' = px_trace st @ es \<and> audits es = [rec])
     \<and> px_log st' = fst (Append H (ge_now env) (ge_write env) (px_log st) rec)
     \<and> (\<forall>l. m_requests (px_metrics st') l
            = m_requests (px_metrics st) l + (if l = (a_decision rec, a_rule rec, a_kind rec) then 1 else 0))
     \<and> m_tunnels (px_metrics st') = m_tunnels (px_metrics st)"

definition no_record :: "proxy \<Rightarrow> proxy \<Rightarrow> bool" where
  "no_record st st' \<longleftrightarrow>
     (\<exists>es. px_trace st' = px_trace st @ es \<and> audits es = []) \<and> px_log st' = px_log st
     \<and> px_metrics st' = px_metrics st"

named_theorems record_intros "what leaves one record, and what none"

lemma no_record_refl [record_intros]: "no_record st st"
  by (simp add: no_record_def)

lemma no_record_emit [record_intros]: "no_record st st' \<Longrightarrow> not_audit e \<Longrightarrow> no_record st (emit e st')"
  by (fastforce simp: no_record_def audits_append not_audit_def)

lemma one_record_finish [record_intros]:
  assumes "no_record st st'"
  shows "one_record H env (stamped env r s) st (finish H env r s st')"
proof -
  obtain es where "px_trace st' = px_trace st @ es" "audits es = []"
    using assms by (auto simp: no_record_def)
  then have "px_trace (finish H env r s st') = px_trace st @ (es @ [Audited (stamped env r s)])"
    "audits (es @ [Audited (stamped env r s)]) = [stamped env r s]" by (simp_all add: audits_append)
  with assms show ?thesis
    unfolding one_record_def no_record_def
    by (auto simp: finish_metrics) (simp_all add: stamped_def)
qed

lemma one_record_emit [record_intros]:
  "one_record H env rec st st' \<Longrightarrow> not_audit e \<Longrightarrow> one_record H env rec st (emit e st')"
  by (fastforce simp: one_record_def audits_append not_audit_def)

lemma one_record_http_Error [record_intros]:
  "one_record H env rec st st' \<Longrightarrow> one_record H env rec st (http_Error msg code st')"
  by (fastforce simp: one_record_def audits_append)

lemma one_record_ends_closed [record_intros]:
  "one_record H env rec st st' \<Longrightarrow> one_record H env rec st (ends_closed st')"
  by (simp add: ends_closed_def record_intros)

lemma run_tunnel_finish:
  "run_tunnel H cfg env ce rec0 st =
     ends_closed (emit Unregistered (finish H env (tunnel_record cfg rec0 (pumped_through cfg ce)) 200
       (emit (Piped (pu_up (pumped_through cfg ce)) (pu_down (pumped_through cfg ce))) (emit Registered st))))"
  by (simp add: run_tunnel_def Let_def finish_tunnel del: with_metrics_simps(4) 
      add: with_metrics_simps(4) [of "Piped x y" for x y])

text \<open>Some record was audited, once: with this the handlers' cases are settled by rewriting.\<close>

definition logs_one :: "(string \<Rightarrow> string) \<Rightarrow> gate_env \<Rightarrow> proxy \<Rightarrow> proxy \<Rightarrow> bool" where
  "logs_one H env st st' \<longleftrightarrow> (\<exists>rec. one_record H env rec st st')"

lemma logs_one_simps [simp]:
  "no_record st st' \<Longrightarrow> logs_one H env st (finish H env r s st')"
  "logs_one H env st st' \<Longrightarrow> not_audit e \<Longrightarrow> logs_one H env st (emit e st')"
  "logs_one H env st st' \<Longrightarrow> logs_one H env st (http_Error msg code st')"
  "logs_one H env st st' \<Longrightarrow> logs_one H env st (ends_closed st')"
  unfolding logs_one_def by (blast intro: record_intros)+

lemma logs_one_tunnel: "no_record st st' \<Longrightarrow> logs_one H env st (run_tunnel H cfg env ce rec0 st')"
  by (simp add: run_tunnel_finish record_intros)

lemma logs_one_open_tunnel: "no_record st st' \<Longrightarrow> logs_one H env st (open_tunnel H cfg env ce rec0 st')"
  by (simp add: open_tunnel_def Let_def record_intros logs_one_tunnel)

lemma logs_one_HTTP: "logs_one H env st (handleHTTP H cm env ue r st)"
  by (simp add: handleHTTP_def forward_def Let_def record_intros split: option.split prod.split sum.split)

lemma logs_one_Connect: "logs_one H env st (handleConnect H cfg env ce r st)"
  by (simp add: handleConnect_def Let_def record_intros logs_one_open_tunnel
      split: option.split prod.split sum.split)

lemma ServeHTTP_one_record: "\<exists>rec. one_record H env rec st (ServeHTTP H cm cfg env ue ce r st)"
  using logs_one_HTTP logs_one_Connect by (simp add: ServeHTTP_def logs_one_def)

lemma one_record_effects: "one_record H env rec st st' \<Longrightarrow> audits (effects st st') = [rec]"
  by (auto simp: one_record_def effects_def)

section \<open>Addresses\<close>

lemma Itoa_no_colon:
  assumes "0 \<le> n"
  shows "CHR '':'' \<notin> set (Itoa n)" "CHR ''['' \<notin> set (Itoa n)" "CHR '']'' \<notin> set (Itoa n)"
  using assms dec_digits [of "nat n"] by (auto simp: Itoa_def list_all_iff is_digit_def)

lemma sint_of_nat_small: "n < 2 ^ 63 \<Longrightarrow> sint (of_nat n :: int64) = int n"
  by (simp add: signed_of_nat signed_take_bit_int_eq_self)

section \<open>What the shapes say\<close>

text \<open>The effects by which something leaves the gate towards an upstream, or a tunnel opens.\<close>

fun reaches_out :: "effect \<Rightarrow> bool" where
  "reaches_out (RoundTrip _) = True"
| "reaches_out (Dialled _) = True"
| "reaches_out Hijacked = True"
| "reaches_out (Wrote _) = True"
| "reaches_out Registered = True"
| "reaches_out (Piped _ _) = True"
| "reaches_out _ = False"

text \<open>The effects of a request that was judged and allowed start with the question.\<close>

definition allowed_first :: "gate_env \<Rightarrow> effect list \<Rightarrow> bool" where
  "allowed_first env es \<longleftrightarrow>
     (\<exists>q rest. es = Asked q # rest \<and> d_action (ge_eval env q) = Allow \<and> list_all (\<lambda>e. \<forall>x. e \<noteq> Asked x) rest)"

definition truthful :: "gate_env \<Rightarrow> effect list \<Rightarrow> audit_record \<Rightarrow> bool" where
  "truthful env es rec \<longleftrightarrow>
     (\<forall>c m. Refused c m \<in> set es \<longrightarrow> a_status rec = of_int c)
     \<and> (\<forall>c h. Responded c h \<in> set es \<longrightarrow> a_status rec = of_int c)
     \<and> (\<forall>e \<in> set es. reaches_out e \<longrightarrow> a_decision rec = Allow \<and> allowed_first env es)
     \<and> (a_decision rec = Allow \<longrightarrow>
          (\<exists>q rest. es = Asked q # rest \<and> d_action (ge_eval env q) = Allow \<and> a_rule rec = d_rule (ge_eval env q)))"

lemma stamped_simps [simp]:
  "a_status (stamped env r s) = of_int s" "a_reason (stamped env r s) = a_reason r" "a_decision (stamped env r s) = a_decision r"
  "a_rule (stamped env r s) = a_rule r" "a_bytes_up (stamped env r s) = a_bytes_up r"
  "a_bytes_down (stamped env r s) = a_bytes_down r"
  by (simp_all add: stamped_def)

lemma http_shape_truthful:
  assumes "http_shape cm env ue r es" "audits es = [rec]"
  shows "truthful env es rec"
  using assms by (cases rule: http_shape.cases) (auto simp: truthful_def allowed_first_def)

lemma connect_shape_truthful:
  assumes "connect_shape cfg env ce r es" "audits es = [rec]"
  shows "truthful env es rec"
  using assms
  by (cases rule: connect_shape.cases) (auto simp: truthful_def allowed_first_def allowed_record_def)





lemma ServeHTTP_truthful:
  assumes "audits (effects st (ServeHTTP H cm cfg env ue ce r st)) = [rec]"
  shows "truthful env (effects st (ServeHTTP H cm cfg env ue ce r st)) rec"
  using assms http_shape_truthful [OF handleHTTP_shape] connect_shape_truthful [OF handleConnect_shape]
  by (auto simp: ServeHTTP_def split: if_splits)

section \<open>A sample request\<close>

definition sample_request :: http_request where
  "sample_request =
     \<lparr>hr_method = ''GET'',
      hr_url = \<lparr>u_scheme = ''http'', u_host = ''api.example.com:80'', u_path = ''/v1/models'', u_rawpath = []\<rparr>,
      hr_host = ''api.example.com'', hr_uri = ''http://api.example.com/v1/models'', hr_remote = ''10.0.0.7:4242'',
      hr_header = [(''Connection'', [''X-Trace'']), (''X-Trace'', [''1'']), (''Accept'', [''any''])], hr_body = True\<rparr>"

definition sample_connect_request :: http_request where
  "sample_connect_request = sample_request\<lparr>hr_method := ''CONNECT'', hr_host := ''files.pythonhosted.org:443''\<rparr>"

definition sample_gate :: gate_env where
  "sample_gate =
     \<lparr>ge_eval = store_Evaluate plain_casemap (NewStore sample_policy), ge_now = ''2026-01-02T03:04:05Z'',
      ge_write = WriteOK, ge_ms = 12, ge_quote = id\<rparr>"

definition sample_upstream :: upstream_env where
  "sample_upstream = \<lparr>ue_rt = (\<lambda>_. Inr (200, [(''Server'', [''x''])], 512, None)), ue_reads = [(3, None), (0, Some ''EOF'')]\<rparr>"

definition sample_world :: connect_env where
  "sample_world =
     \<lparr>ce_closing = False, ce_dial = (\<lambda>_. None), ce_hijacker = True, ce_hijack = None, ce_established = None,
      ce_started = True, ce_client = \<lparr>conn_sent = [], conn_left = None\<rparr>,
      ce_upstream = \<lparr>conn_sent = [], conn_left = None\<rparr>, ce_ups = sample_reads, ce_downs = []\<rparr>"

definition sample_proxy :: proxy where
  "sample_proxy = \<lparr>px_log = New [], px_metrics = metrics_New, px_trace = []\<rparr>"

lemma sample_http_parts:
  "request_port (hr_url sample_request) = Some 80" "Hostname (hr_url sample_request) = ''api.example.com''"
  "normalisedPath plain_casemap (hr_url sample_request) = (''/v1/models'', True)"
  "d_action (ge_eval sample_gate (http_question sample_request 80)) = Allow"
  "splitAuthority (authority_of sample_connect_request) = Inr (''files.pythonhosted.org'', 443)"
  "d_action (ge_eval sample_gate (connect_question ''files.pythonhosted.org'' 443)) = Allow"
  by code_simp+

lemma sample_http_effects:
  "RoundTrip (forwarded sample_request) \<in> set (effects sample_proxy
     (ServeHTTP H plain_casemap DefaultConfig sample_gate sample_upstream sample_world sample_request sample_proxy))"
proof -
  have "hr_method sample_request \<noteq> ''CONNECT''" "IsAbs (hr_url sample_request)"
    by (simp_all add: sample_request_def IsAbs_def)
  then show ?thesis
    using sample_http_parts(1,3,4)
    by (simp add: ServeHTTP_def handleHTTP_def forward_def Let_def effects_def sample_upstream_def)
qed

lemma sample_connect_effects:
  "Dialled (dial_address ''files.pythonhosted.org'' 443) \<in> set (effects sample_proxy
     (ServeHTTP H plain_casemap DefaultConfig sample_gate sample_upstream sample_world sample_connect_request sample_proxy))"
  "Registered \<in> set (effects sample_proxy
     (ServeHTTP H plain_casemap DefaultConfig sample_gate sample_upstream sample_world sample_connect_request sample_proxy))"
proof -
  have "hr_method sample_connect_request = ''CONNECT''" by (simp add: sample_connect_request_def)
  then show "Dialled (dial_address ''files.pythonhosted.org'' 443) \<in> set (effects sample_proxy
     (ServeHTTP H plain_casemap DefaultConfig sample_gate sample_upstream sample_world sample_connect_request sample_proxy))"
    and "Registered \<in> set (effects sample_proxy
     (ServeHTTP H plain_casemap DefaultConfig sample_gate sample_upstream sample_world sample_connect_request sample_proxy))"
    using sample_http_parts(5,6)
    by (simp_all add: ServeHTTP_def handleConnect_def authority_of_def open_tunnel_def run_tunnel_finish
        ends_closed_def Let_def effects_def sample_world_def)
qed

section \<open>Properties\<close>

text \<open>C1. Nothing leaves the gate before the policy has been asked and has said allow: whatever the
  request, if its handling forwards, dials, hijacks or moves tunnel bytes, then its first effect was
  the one question it put to the policy, and the answer was allow.\<close>

theorem proxy_policy_first:
  assumes "e \<in> set (effects st (ServeHTTP H cm cfg env ue ce r st))" "reaches_out e"
  shows "allowed_first env (effects st (ServeHTTP H cm cfg env ue ce r st))"
proof -
  obtain rec where "one_record H env rec st (ServeHTTP H cm cfg env ue ce r st)"
    using ServeHTTP_one_record by blast
  from ServeHTTP_truthful [OF one_record_effects [OF this]] assms show ?thesis
    by (auto simp: truthful_def)
qed

theorem proxy_policy_first_witness:
  "allowed_first sample_gate (effects sample_proxy
     (ServeHTTP sha256_hex plain_casemap DefaultConfig sample_gate sample_upstream sample_world sample_request sample_proxy))"
  by (rule proxy_policy_first [OF sample_http_effects]) simp

text \<open>Every request, on every path, leaves exactly one record: one record is audited, the log
  gains that one record with the payload the handler gave it, the request counter moves by one at
  its decision, rule and kind and nowhere else, and the tunnel gauge ends where it began.\<close>

lemma proxy_one_record:
  assumes "at_line_end (px_log st)" "ge_write env = WriteOK"
  shows "\<exists>rec rec'. audits (effects st (ServeHTTP H cm cfg env ue ce r st)) = [rec]
    \<and> held (px_log (ServeHTTP H cm cfg env ue ce r st)) = held (px_log st) @ [sanitize_record rec']
    \<and> payload rec' = payload rec
    \<and> (\<forall>l. m_requests (px_metrics (ServeHTTP H cm cfg env ue ce r st)) l
          = m_requests (px_metrics st) l + (if l = (a_decision rec, a_rule rec, a_kind rec) then 1 else 0))
    \<and> m_tunnels (px_metrics (ServeHTTP H cm cfg env ue ce r st)) = m_tunnels (px_metrics st)"
proof -
  let ?st = "ServeHTTP H cm cfg env ue ce r st"
  obtain rec where one: "one_record H env rec st ?st" using ServeHTTP_one_record by blast
  have "log_append H (ge_now env, WriteOK) (px_log st) rec
      = (px_log ?st, Inr (complete H (ge_now env) (px_log st) rec))"
    using one assms(2) by (simp add: one_record_def log_append_def Append_ok)
  from gate_audit.append_adds [OF assms(1) this] gate_audit.append_payload [OF this]
  show ?thesis
    using one one_record_effects [OF one] unfolding one_record_def by blast
qed



text \<open>C17. What a plain-HTTP request forwards is what was judged: the URL and method unchanged, the
  question about this host, port, method and path, a path in its normal form that hides no
  separator, so that it has the same segments decoded or not and none of them is a dot-segment, and
  no hop-by-hop header.\<close>

theorem proxy_forwards_judged:
  assumes "RoundTrip out \<in> set (effects st (handleHTTP H cm env ue r st))"
    and "HasPrefix (asked_path (hr_url r)) ''/''"
  shows "hr_url out = hr_url r \<and> hr_method out = hr_method r
    \<and> (\<exists>port rest. effects st (handleHTTP H cm env ue r st) = Asked (http_question r port) # rest
         \<and> request_port (hr_url r) = Some port \<and> d_action (ge_eval env (http_question r port)) = Allow)
    \<and> plain_path (asked_path (hr_url out))
    \<and> map unescape (Split (EscapedPath (hr_url out)) slash) = map Some (Split (u_path (hr_url out)) slash)
    \<and> (\<forall>w \<in> set (Split (u_path (hr_url out)) slash). w \<noteq> ''.'' \<and> w \<noteq> ''..'')
    \<and> fst ` set (hr_header out) \<inter> set hopByHopHeaders = {}"
proof -
  from handleHTTP_shape [of cm env ue r st H] assms(1)
  obtain port rest cm' where s: "out = forwarded r" "snd (normalisedPath cm (hr_url r))"
    "effects st (handleHTTP H cm env ue r st) = Asked (http_question r port) # rest"
    "request_port (hr_url r) = Some port" "d_action (ge_eval env (http_question r port)) = Allow"
    by (cases rule: http_shape.cases) auto
  let ?u = "hr_url r"
  have plain: "plain_path (asked_path ?u)" using normalisedPath_plain [OF s(2) assms(2)] .
  have segs: "map unescape (Split (EscapedPath ?u) slash) = map Some (Split (u_path ?u) slash)"
    using unescape_segments unescape_EscapedPath normalisedPath_hides [OF s(2)] by blast
  have dots: "w \<noteq> ''.'' \<and> w \<noteq> ''..''" if "w \<in> set (Split (u_path ?u) slash)" for w
    using that plain_path_segments [OF plain, of w]
    by (cases "u_path ?u = []") (auto simp: asked_path_def)
  have hop: "fst ` set (hr_header (forwarded r)) \<inter> set hopByHopHeaders = {}"
    using hop_headers_canonical by (auto simp: forwarded_def removeHopByHop_filter image_Un)
  show ?thesis using s plain segs dots hop by (auto simp: forwarded_def)
qed

theorem proxy_forwards_judged_witness:
  "plain_path (asked_path (hr_url (forwarded sample_request)))
   \<and> fst ` set (hr_header (forwarded sample_request)) \<inter> set hopByHopHeaders = {}"
proof -
  have m: "hr_method sample_request \<noteq> ''CONNECT''" by (simp add: sample_request_def)
  have p: "HasPrefix (asked_path (hr_url sample_request)) ''/''"
    by (simp add: sample_request_def asked_path_def HasPrefix_def)
  have "RoundTrip (forwarded sample_request) \<in> set (effects sample_proxy
      (handleHTTP sha256_hex plain_casemap sample_gate sample_upstream sample_request sample_proxy))"
    using sample_http_effects [of sha256_hex] m by (simp add: ServeHTTP_def)
  from proxy_forwards_judged [OF this p] show ?thesis by blast
qed

text \<open>C25. A CONNECT dials only the host and port the policy allowed, the port in range and the host
  not empty, and where the authority splits into host and port the address it dials splits back
  into that host and that port.\<close>

theorem proxy_dials_judged:
  assumes "Dialled a \<in> set (effects st (handleConnect H cfg env ce r st))"
  shows "\<exists>host port. splitAuthority (authority_of r) = Inr (host, port) \<and> a = dial_address host port
    \<and> d_action (ge_eval env (connect_question host port)) = Allow \<and> \<not> ce_closing ce
    \<and> 1 \<le> port \<and> port \<le> 65535 \<and> host \<noteq> []
    \<and> (\<forall>p. SplitHostPort (authority_of r) = Inr (host, p) \<longrightarrow> SplitHostPort a = Inr (host, Itoa port))"
proof -
  from handleConnect_shape [of cfg env ce r st H] assms obtain host port where
    s: "splitAuthority (authority_of r) = Inr (host, port)" "a = dial_address host port"
      "d_action (ge_eval env (connect_question host port)) = Allow" "\<not> ce_closing ce"
    by (cases rule: connect_shape.cases) auto
  from s(1) have range: "1 \<le> port" "port \<le> 65535" "host \<noteq> []"
    by (auto simp: splitAuthority_def split: if_splits sum.splits option.splits prod.splits)
  have "SplitHostPort a = Inr (host, Itoa port)" if "SplitHostPort (authority_of r) = Inr (host, p)" for p
    unfolding s(2) dial_address_def
    using SplitHostPort_parts [OF that] range by (intro SplitHostPort_JoinHostPort Itoa_no_colon) auto
  with s range show ?thesis by blast
qed

theorem proxy_dials_judged_witness:
  "\<exists>host port. splitAuthority (authority_of sample_connect_request) = Inr (host, port)
    \<and> dial_address ''files.pythonhosted.org'' 443 = dial_address host port \<and> 1 \<le> port \<and> port \<le> 65535"
proof -
  have "hr_method sample_connect_request = ''CONNECT''" by (simp add: sample_connect_request_def)
  with sample_connect_effects(1) [of sha256_hex]
  have "Dialled (dial_address ''files.pythonhosted.org'' 443) \<in> set (effects sample_proxy
      (handleConnect sha256_hex DefaultConfig sample_gate sample_world sample_connect_request sample_proxy))"
    by (simp add: ServeHTTP_def)
  from proxy_dials_judged [OF this] show ?thesis by blast
qed

text \<open>C13. A tunnel's record is written after its last byte has moved and before it is unregistered,
  which is what \<open>Shutdown\<close> waits for; it carries the counts of the pump, within the cap if there is
  one (a cap above 0 and, as the configuration's 64-bit integer always is, below 2 to the 63), and
  both ends are closed afterwards.\<close>

theorem proxy_tunnel_recorded:
  assumes "Registered \<in> set (effects st (handleConnect H cfg env ce r st))"
  shows "\<exists>q a rec. effects st (handleConnect H cfg env ce r st) =
      [Asked q, Dialled a, Hijacked, Wrote established, Registered, Piped (a_bytes_up rec) (a_bytes_down rec),
       Audited rec, Unregistered, ClosedClient, ClosedUpstream]
    \<and> a_decision rec = Allow \<and> a_status rec = 200
    \<and> (0 < cfg_max_tunnel cfg \<and> cfg_max_tunnel cfg < 2 ^ 63 \<longrightarrow>
         0 \<le> sint (a_bytes_up rec) \<and> sint (a_bytes_up rec) \<le> cfg_max_tunnel cfg
         \<and> 0 \<le> sint (a_bytes_down rec) \<and> sint (a_bytes_down rec) \<le> cfg_max_tunnel cfg)"
proof -
  from handleConnect_shape [of cfg env ce r st H] assms obtain host port rec0 p where
    s: "effects st (handleConnect H cfg env ce r st) =
      [Asked (connect_question host port), Dialled (dial_address host port), Hijacked,
        Wrote established, Registered, Piped (pu_up p) (pu_down p), Audited (stamped env rec0 200),
        Unregistered, ClosedClient, ClosedUpstream]"
    and p: "pumped_through cfg ce = p" "a_bytes_up rec0 = pu_up p" "a_bytes_down rec0 = pu_down p"
      "allowed_record env host port rec0"
    by (cases rule: connect_shape.cases) auto
  have "0 \<le> sint (pu_up p) \<and> sint (pu_up p) \<le> cfg_max_tunnel cfg
      \<and> 0 \<le> sint (pu_down p) \<and> sint (pu_down p) \<le> cfg_max_tunnel cfg"
    if lim: "0 < cfg_max_tunnel cfg" "cfg_max_tunnel cfg < 2 ^ 63"
  proof -
    obtain c u p' where q: "pump (cfg_max_tunnel cfg) (ce_client ce) (ce_upstream ce) (ce_ups ce) (ce_downs ce)
        = (c, u, p')" by (metis prod_cases3)
    with p(1) have "p' = p" by (simp add: pumped_through_def)
    with pump_bounds [OF lim(1) q] obtain m n where
      "int m \<le> cfg_max_tunnel cfg" "int n \<le> cfg_max_tunnel cfg" "pu_up p = of_nat m" "pu_down p = of_nat n"
      by blast
    with lim(2) show ?thesis by (simp add: sint_of_nat_small)
  qed
  with s p show ?thesis
    by (intro exI [of _ "connect_question host port"] exI [of _ "dial_address host port"]
        exI [of _ "stamped env rec0 200"]) (auto simp: allowed_record_def)
qed

theorem proxy_tunnel_recorded_witness:
  "\<exists>q a rec. effects sample_proxy (handleConnect sha256_hex (DefaultConfig\<lparr>cfg_max_tunnel := 8\<rparr>) sample_gate sample_world
        sample_connect_request sample_proxy) =
      [Asked q, Dialled a, Hijacked, Wrote established, Registered, Piped (a_bytes_up rec) (a_bytes_down rec),
       Audited rec, Unregistered, ClosedClient, ClosedUpstream]
    \<and> sint (a_bytes_up rec) \<le> 8"
proof -
  have "Registered \<in> set (effects sample_proxy (handleConnect sha256_hex (DefaultConfig\<lparr>cfg_max_tunnel := 8\<rparr>)
      sample_gate sample_world sample_connect_request sample_proxy))"
    using sample_http_parts(5,6)
    by (simp add: handleConnect_def authority_of_def open_tunnel_def run_tunnel_finish
        ends_closed_def Let_def effects_def sample_world_def)
  from proxy_tunnel_recorded [OF this] show ?thesis by fastforce
qed

text \<open>A CONNECT refused because the gate is shutting down opens nothing and is answered 503, but
  its record keeps the policy's decision, allow, and is counted as an allowed request: only the
  status and the reason say that it was refused.\<close>

lemma proxy_closing_refusal:
  assumes "splitAuthority (authority_of r) = Inr (host, port)"
    and "d_action (ge_eval env (connect_question host port)) = Allow" "ce_closing ce"
  shows "\<exists>rec msg. effects st (handleConnect H cfg env ce r st) =
      [Asked (connect_question host port), Audited rec, Refused 503 msg]
    \<and> a_decision rec = Allow \<and> a_status rec = 503 \<and> a_reason rec = shutting_down_reason"
  using assms
  by (auto simp: handleConnect_def authority_of_def effects_def Let_def stamped_def)

text \<open>An IPv6 literal without a port is accepted with its brackets as the host, so a rule for the
  address does not match it and the address it would dial does not split; with a port the brackets
  are gone.\<close>

lemma proxy_bracket_literal:
  "splitAuthority ''[::1]'' = Inr (''[::1]'', 443) \<and> splitAuthority ''[::1]x'' = Inr (''[::1]x'', 443)
   \<and> SplitHostPort (dial_address ''[::1]'' 443) = Inl MissingPort
   \<and> splitAuthority ''[::1]:443'' = Inr (''::1'', 443)"
  by code_simp

definition open_policy :: policy where
  "open_policy = \<lparr>p_version = 1, p_default = Allow, p_rules = []\<rparr>"

definition hostless_url :: url where
  "hostless_url = \<lparr>u_scheme = ''http'', u_host = '':80'', u_path = ''/'', u_rawpath = []\<rparr>"

text \<open>A CONNECT to an authority without a host is refused, but a plain-HTTP request whose URL has
  none goes to the policy with an empty host, and under a default of allow it is forwarded.\<close>

lemma proxy_empty_host:
  "splitAuthority '':80'' = Inl (NoHost '':80'') \<and> Hostname hostless_url = []
   \<and> RoundTrip (forwarded (r\<lparr>hr_url := hostless_url\<rparr>)) \<in>
       set (effects st (handleHTTP H cm (env\<lparr>ge_eval := Evaluate cm open_policy\<rparr>) ue (r\<lparr>hr_url := hostless_url\<rparr>) st))"
proof -
  have a: "splitAuthority '':80'' = Inl (NoHost '':80'')" "Hostname hostless_url = []"
    "request_port hostless_url = Some 80" "IsAbs hostless_url"
    by code_simp+
  have e: "EscapedPath hostless_url = ''/''" "Clean ''/'' = ''/''" by code_simp+
  have n: "normalisedPath cm hostless_url = (''/'', True)"
    using e by (simp add: normalisedPath_def ToLower_ascii ascii_def lower_char_def hostless_url_def HasPrefix_def Let_def)
  have "d_action (Evaluate cm open_policy q) = Allow" for q
    by (simp add: Evaluate_action open_policy_def)
  with a n show ?thesis
    by (simp add: handleHTTP_def forward_def Let_def effects_def split: sum.split prod.split)
qed

end
