(* ===== verification/Inevitable.thy ===== *)
theory Inevitable
  imports Main
begin

text \<open>
  What a run cannot fail to reach. \<open>may\<close> are the steps that can happen, \<open>must\<close> those that the program
  takes by itself and the world cannot hold up. A state is inevitable if every run of either kind comes
  to it, however its steps are ordered, given only that a run does not stop while the program has a
  step to take.
\<close>

inductive inevitable :: "('a \<Rightarrow> 'a \<Rightarrow> bool) \<Rightarrow> ('a \<Rightarrow> 'a \<Rightarrow> bool) \<Rightarrow> ('a \<Rightarrow> bool) \<Rightarrow> 'a \<Rightarrow> bool"
  for must :: "'a \<Rightarrow> 'a \<Rightarrow> bool" and may :: "'a \<Rightarrow> 'a \<Rightarrow> bool" and P :: "'a \<Rightarrow> bool" where
  here: "P s \<Longrightarrow> inevitable must may P s"
| later: "must s t \<Longrightarrow> (\<And>u. must s u \<or> may s u \<Longrightarrow> inevitable must may P u) \<Longrightarrow> inevitable must may P s"

text \<open>The proof rule: an invariant, a step to take outside the goal, and a measure of every step.\<close>

lemma inevitableI:
  assumes "wf r" "I s"
    and step: "\<And>s t. I s \<Longrightarrow> \<not> P s \<Longrightarrow> must s t \<or> may s t \<Longrightarrow> I t \<and> (f t, f s) \<in> r"
    and progress: "\<And>s. I s \<Longrightarrow> \<not> P s \<Longrightarrow> \<exists>t. must s t"
  shows "inevitable must may P s"
  using wf_inv_image [OF assms(1), of f] assms(2)
proof (induction s rule: wf_induct_rule)
  case (less s)
  show ?case
  proof (cases "P s")
    case True
    then show ?thesis by (rule here)
  next
    case False
    then obtain t where "must s t" using progress less.prems by blast
    then show ?thesis
    proof (rule later)
      fix u
      assume "must s u \<or> may s u"
      with step [OF less.prems False, of u] less.IH [of u] show "inevitable must may P u" by simp
    qed
  qed
qed

text \<open>What it says of runs: some step is possible until the goal, and no run goes on for ever before it.\<close>

lemma inevitable_step:
  assumes "inevitable must may P s" "\<not> P s"
  shows "\<exists>t. must s t"
    and "must s t \<or> may s t \<Longrightarrow> inevitable must may P t"
  using assms by (auto elim: inevitable.cases)

lemma inevitable_run:
  assumes "inevitable must may P s" "f 0 = s" "\<And>n. must (f n) (f (Suc n)) \<or> may (f n) (f (Suc n))"
  shows "\<exists>n. P (f n)"
  using assms
proof (induction arbitrary: f rule: inevitable.induct)
  case (here s)
  then show ?case by blast
next
  case (later s t)
  have "must s (f 1) \<or> may s (f 1)" using later.prems(1) later.prems(2) [of 0] by simp
  from later.IH [OF this, of "\<lambda>n. f (Suc n)"] later.prems(2) show ?case by auto
qed

lemma inevitable_reaches:
  assumes "inevitable must may P s"
  shows "\<exists>t. must\<^sup>*\<^sup>* s t \<and> P t"
  using assms
proof (induction rule: inevitable.induct)
  case (here s)
  then show ?case by blast
next
  case (later s t)
  then show ?case by (meson converse_rtranclp_into_rtranclp)
qed

text \<open>A relation that shrinks a number: the length of its runs.\<close>

lemma bounded_runs:
  assumes "\<And>s t. I s \<Longrightarrow> R s t \<Longrightarrow> I t \<and> w t < (w s :: nat)" "I s" "(R ^^ n) s t"
  shows "n + w t \<le> w s"
  using assms(2,3)
proof (induction n arbitrary: s)
  case (Suc n)
  then obtain u where u: "R s u" "(R ^^ n) u t" by (metis relpowp_Suc_E2)
  with Suc.IH [of u] assms(1) [OF Suc.prems(1) u(1)] show ?case by force
qed simp

end
