(* ===== verification/Pump.thy ===== *)
theory Pump
  imports Tunnel Inevitable
begin

text \<open>
  The concurrency of \<open>pump\<close> in \<open>internal/proxy/connect.go\<close>: the two copying goroutines, the channel
  they post to, and the caller that closes both connections after the first post and returns after
  the second. Each read of a copy, each write, each store, each send and receive is a step, a write
  that is waiting for its peer is a state, and \<open>Shutdown\<close> may close the connections at any moment.
  The function \<open>pump\<close> of the theory \<open>Tunnel\<close> is what every run amounts to.
\<close>

section \<open>State and steps\<close>

datatype side = Up | Down
datatype dir_pc = Copying | Writing string "string option" | Ended | Stored | Posted
datatype pump_main = AwaitFirst | ClosingBoth | AwaitSecond | PumpReturned int64 int64 bool

text \<open>
  A copy is about to read or waiting in its read, \<open>Copying\<close>; or has an answer and is about to write
  its bytes or waiting for the peer to take them, \<open>Writing\<close>.
\<close>

fun looping :: "dir_pc \<Rightarrow> bool" where
  "looping Copying = True"
| "looping (Writing _ _) = True"
| "looping _ = False"

text \<open>
  One direction: its capped writer, the count of \<open>io.Copy\<close>, the reads it has had, and how many
  reads its source can still answer from its buffer once the connection is closed.
\<close>

record direction =
  pd_w :: "conn capped"
  pd_n :: nat
  pd_in :: "(string \<times> string option) list"
  pd_buf :: nat
  pd_pc :: dir_pc

record pump_state =
  ps_dir :: "side \<Rightarrow> direction"
  ps_bytes :: "side \<Rightarrow> nat"
  ps_flag :: bool
  ps_done :: nat
  ps_open :: bool
  ps_main :: pump_main

text \<open>The connection a direction writes to.\<close>

definition sink :: "conn \<Rightarrow> conn \<Rightarrow> side \<Rightarrow> conn" where
  "sink client upstream x = (case x of Up \<Rightarrow> upstream | Down \<Rightarrow> client)"

definition pump_init :: "int \<Rightarrow> conn \<Rightarrow> conn \<Rightarrow> (side \<Rightarrow> nat) \<Rightarrow> pump_state" where
  "pump_init limit client upstream buf =
     \<lparr>ps_dir = (\<lambda>x. \<lparr>pd_w = newCappedWriter (sink client upstream x) limit, pd_n = 0, pd_in = [], pd_buf = buf x,
                    pd_pc = Copying\<rparr>),
      ps_bytes = (\<lambda>_. 0), ps_flag = False, ps_done = 0, ps_open = True, ps_main = AwaitFirst\<rparr>"

text \<open>
  The loop of \<open>io.Copy\<close>: a read is answered, and the bytes are passed on, all at once or, when the
  connection takes only some of them before the write waits again, one part after the other.
\<close>

definition dir_read :: "bool \<Rightarrow> string \<times> string option \<Rightarrow> direction \<Rightarrow> direction" where
  "dir_read opened r d =
     d\<lparr>pd_buf := (if opened then pd_buf d else pd_buf d - 1), pd_pc := Writing (fst r) (snd r)\<rparr>"

definition dir_pass :: "string \<times> string option \<Rightarrow> dir_pc \<Rightarrow> direction \<Rightarrow> direction" where
  "dir_pass r next d =
     (case Copy (capped_Write conn_Write) (pd_w d) [r] (pd_n d) of
        (w, n, e) \<Rightarrow> d\<lparr>pd_w := w, pd_n := n, pd_in := pd_in d @ [r], pd_pc := (if e = Blocked then next else Ended)\<rparr>)"

text \<open>A write of these bytes that does not reach the connection: there are none, or the cap has been used up.\<close>

definition passes_none :: "string \<Rightarrow> direction \<Rightarrow> bool" where
  "passes_none chunk d \<longleftrightarrow> chunk = [] \<or> \<not> cw_unlimited (pd_w d) \<and> cw_remaining (pd_w d) \<le> 0"

text \<open>A closed connection takes no more bytes.\<close>

definition conn_Close :: "conn \<Rightarrow> conn" where
  "conn_Close c = c\<lparr>conn_left := Some 0\<rparr>"

definition dir_close :: "direction \<Rightarrow> direction" where
  "dir_close d = d\<lparr>pd_w := (pd_w d)\<lparr>cw_w := conn_Close (cw_w (pd_w d))\<rparr>\<rparr>"

definition with_dir :: "side \<Rightarrow> direction \<Rightarrow> pump_state \<Rightarrow> pump_state" where
  "with_dir x d s = s\<lparr>ps_dir := (ps_dir s)(x := d)\<rparr>"

definition dir_store :: "side \<Rightarrow> pump_state \<Rightarrow> pump_state" where
  "dir_store x s =
     (let d = ps_dir s x
      in with_dir x (d\<lparr>pd_pc := Stored\<rparr>)
           (s\<lparr>ps_bytes := (ps_bytes s)(x := pd_n d), ps_flag := ps_flag s \<or> exceeded (pd_w d)\<rparr>))"

definition dir_post :: "side \<Rightarrow> pump_state \<Rightarrow> pump_state" where
  "dir_post x s = with_dir x ((ps_dir s x)\<lparr>pd_pc := Posted\<rparr>) (s\<lparr>ps_done := ps_done s + 1\<rparr>)"

definition closeBoth :: "pump_state \<Rightarrow> pump_state" where
  "closeBoth s = s\<lparr>ps_open := False, ps_dir := (\<lambda>x. dir_close (ps_dir s x))\<rparr>"

definition pump_return :: "pump_state \<Rightarrow> pump_main" where
  "pump_return s = PumpReturned (of_nat (ps_bytes s Up)) (of_nat (ps_bytes s Down)) (ps_flag s)"

text \<open>The steps of the three goroutines.\<close>

inductive pump_own :: "pump_state \<Rightarrow> pump_state \<Rightarrow> bool" where
  reads: "pd_pc (ps_dir s x) = Copying \<Longrightarrow> ps_open s \<or> snd r \<noteq> None \<or> 0 < pd_buf (ps_dir s x) \<Longrightarrow>
     pump_own s (with_dir x (dir_read (ps_open s) r (ps_dir s x)) s)"
| writes: "pd_pc (ps_dir s x) = Writing chunk er \<Longrightarrow>
     pump_own s (with_dir x (dir_pass (chunk, er) Copying (ps_dir s x)) s)"
| takes: "pd_pc (ps_dir s x) = Writing chunk er \<Longrightarrow> ps_open s \<Longrightarrow> 0 < k \<Longrightarrow> k < length chunk \<Longrightarrow>
     pd_pc (dir_pass (take k chunk, None) (Writing (drop k chunk) er) (ps_dir s x)) \<noteq> Ended \<Longrightarrow>
     pump_own s (with_dir x (dir_pass (take k chunk, None) (Writing (drop k chunk) er) (ps_dir s x)) s)"
| stores: "pd_pc (ps_dir s x) = Ended \<Longrightarrow> pump_own s (dir_store x s)"
| posts: "pd_pc (ps_dir s x) = Stored \<Longrightarrow> pump_own s (dir_post x s)"
| receives: "ps_main s = AwaitFirst \<Longrightarrow> 0 < ps_done s \<Longrightarrow>
     pump_own s (s\<lparr>ps_done := ps_done s - 1, ps_main := ClosingBoth\<rparr>)"
| closes: "ps_main s = ClosingBoth \<Longrightarrow> pump_own s ((closeBoth s)\<lparr>ps_main := AwaitSecond\<rparr>)"
| returns: "ps_main s = AwaitSecond \<Longrightarrow> 0 < ps_done s \<Longrightarrow>
     pump_own s (s\<lparr>ps_done := ps_done s - 1, ps_main := pump_return s\<rparr>)"

text \<open>The tunnel's steps, with \<open>Shutdown\<close> closing its connections.\<close>

inductive pump_step :: "pump_state \<Rightarrow> pump_state \<Rightarrow> bool" where
  own: "pump_own s t \<Longrightarrow> pump_step s t"
| shut_down: "ps_open s \<Longrightarrow> pump_step s (closeBoth s)"

inductive pump_reachable :: "pump_state \<Rightarrow> pump_state \<Rightarrow> bool" for s0 :: pump_state where
  start: "pump_reachable s0 s0"
| step: "pump_reachable s0 s \<Longrightarrow> pump_step s t \<Longrightarrow> pump_reachable s0 t"

section \<open>Copying, one read at a time, up to a close\<close>

lemma Copy_snoc:
  "Copy w s rs k = (s', n, Blocked) \<Longrightarrow> Copy w s (rs @ [r]) k = Copy w s' [r] n"
proof (induction rs arbitrary: s k)
  case (Cons q rs)
  obtain chunk er where q: "q = (chunk, er)" by (cases q)
  obtain t m x where w: "(if chunk = [] then (s, 0, None) else w s chunk) = (t, m, x)"
    by (cases "if chunk = [] then (s, 0, None) else w s chunk")
  from Cons.prems q w have "x = None" "m = length chunk" "er = None" "Copy w t rs (k + m) = (s', n, Blocked)"
    by (auto split: option.splits if_splits)
  with Cons.IH [of t "k + m"] q w show ?case by simp
qed simp

definition left_at :: "nat option \<Rightarrow> conn capped \<Rightarrow> conn capped" where
  "left_at k c = c\<lparr>cw_w := (cw_w c)\<lparr>conn_left := k\<rparr>\<rparr>"

text \<open>
  A copy that has forwarded \<open>n\<close> bytes would have done the same on a connection that takes just
  those \<open>n\<close>, and would leave that one as closed.
\<close>

lemma write_left:
  assumes "capped_Write conn_Write c p = (c', n, x)" "n \<le> k"
    and "x = None \<and> n = length p \<or> n = k"
  shows "capped_Write conn_Write (left_at (Some k) c) p = (left_at (Some (k - n)) c', n, x)"
  using assms
  by (auto simp: capped_Write_def conn_Write_def left_at_def Let_def split: option.splits if_splits)

lemma copy_left:
  "Copy (capped_Write conn_Write) c rs k = (c', m, e) \<Longrightarrow>
     Copy (capped_Write conn_Write) (left_at (Some (m - k)) c) rs k = (left_at (Some 0) c', m, e)"
proof (induction rs arbitrary: c k)
  case (Cons r rs)
  obtain chunk er where r: "r = (chunk, er)" by (cases r)
  obtain t n x where w: "(if chunk = [] then (c, 0, None) else capped_Write conn_Write c chunk) = (t, n, x)"
    by (cases "if chunk = [] then (c, 0, None) else capped_Write conn_Write c chunk")
  have short: "(if chunk = [] then (left_at (Some j) c, 0, None)
        else capped_Write conn_Write (left_at (Some j) c) chunk) = (left_at (Some (j - n)) t, n, x)"
    if "n \<le> j" "x = None \<and> n = length chunk \<or> n = j" for j
    using w that write_left [of c chunk t n x j] by (auto split: if_splits)
  show ?case
  proof (cases "x = None \<and> n = length chunk \<and> er = None")
    case True
    with Cons.prems r w have rest: "Copy (capped_Write conn_Write) t rs (k + n) = (c', m, e)" by simp
    then have "k + n \<le> m" using capped_conn.copy_prefix [OF rest] by auto
    with short [of "m - k"] True Cons.IH [OF rest] r show ?thesis by simp
  next
    case False
    with Cons.prems r w have "m = k + n" "c' = t" by (auto split: option.splits if_splits)
    with short [of n] False Cons.prems r w show ?thesis by (auto split: option.splits if_splits)
  qed
qed (simp add: left_at_def)

text \<open>A connection that takes \<open>j\<close> more bytes takes no more than that.\<close>

lemma write_at_most:
  assumes "capped_Write conn_Write c p = (c', n, x)" "conn_left (cw_w c) = Some j"
  shows "n \<le> j \<and> conn_left (cw_w c') = Some (j - n)"
  using assms
  by (auto simp: capped_Write_def conn_Write_def Let_def split: option.splits if_splits)

lemma copy_at_most:
  "Copy (capped_Write conn_Write) c rs k = (c', m, e) \<Longrightarrow> conn_left (cw_w c) = Some j \<Longrightarrow> m \<le> k + j"
proof (induction rs arbitrary: c k j)
  case (Cons r rs)
  obtain chunk er where r: "r = (chunk, er)" by (cases r)
  obtain t n x where w: "(if chunk = [] then (c, 0, None) else capped_Write conn_Write c chunk) = (t, n, x)"
    by (cases "if chunk = [] then (c, 0, None) else capped_Write conn_Write c chunk")
  with Cons.prems(2) have n: "n \<le> j" "conn_left (cw_w t) = Some (j - n)"
    using write_at_most [of c chunk t n x j] by (auto split: if_splits)
  show ?case
  proof (cases "x = None \<and> n = length chunk \<and> er = None")
    case True
    with Cons.prems r w have "Copy (capped_Write conn_Write) t rs (k + n) = (c', m, e)" by simp
    from Cons.IH [OF this n(2)] n(1) show ?thesis by simp
  next
    case False
    with Cons.prems r w have "m = k + n" by (auto split: option.splits if_splits)
    with n(1) show ?thesis by simp
  qed
qed simp

section \<open>The invariant\<close>

text \<open>
  A direction is where the plain copy of its reads would be: on the connection it was given, or,
  once the connections have been closed, on one that fails right after the bytes it forwarded.
\<close>

definition dir_ok :: "int \<Rightarrow> conn \<Rightarrow> bool \<Rightarrow> direction \<Rightarrow> bool" where
  "dir_ok limit c opened d \<longleftrightarrow>
     (\<exists>k e. Copy (capped_Write conn_Write) (newCappedWriter (c\<lparr>conn_left := k\<rparr>) limit) (pd_in d) 0 = (pd_w d, pd_n d, e)
        \<and> (looping (pd_pc d) \<longleftrightarrow> e = Blocked) \<and> (k = conn_left c \<or> \<not> opened \<and> k = Some (pd_n d)))"

lemma dir_ok_start: "dir_ok limit c True \<lparr>pd_w = newCappedWriter c limit, pd_n = 0, pd_in = [], pd_buf = b, pd_pc = Copying\<rparr>"
  by (auto simp: dir_ok_def intro!: exI [of _ "conn_left c"])

lemma dir_ok_read: "dir_ok limit c opened d \<Longrightarrow> pd_pc d = Copying \<Longrightarrow> dir_ok limit c opened (dir_read b r d)"
  by (auto simp: dir_ok_def dir_read_def)

lemma dir_ok_pass:
  assumes "dir_ok limit c opened d" "looping (pd_pc d)" "looping next"
  shows "dir_ok limit c opened (dir_pass r next d)"
proof -
  obtain k where k: "Copy (capped_Write conn_Write) (newCappedWriter (c\<lparr>conn_left := k\<rparr>) limit) (pd_in d) 0 =
      (pd_w d, pd_n d, Blocked)" "k = conn_left c \<or> \<not> opened \<and> k = Some (pd_n d)"
    using assms by (auto simp: dir_ok_def)
  obtain w n e where q: "Copy (capped_Write conn_Write) (pd_w d) [r] (pd_n d) = (w, n, e)"
    by (metis prod_cases3)
  have all: "Copy (capped_Write conn_Write) (newCappedWriter (c\<lparr>conn_left := k\<rparr>) limit) (pd_in d @ [r]) 0 = (w, n, e)"
    using Copy_snoc [OF k(1), of r] q by simp
  have "n = pd_n d" if "k = Some (pd_n d)"
    using copy_at_most [OF all] capped_conn.copy_prefix [OF q] that by (auto simp: newCappedWriter_def)
  with all q k(2) assms(3) show ?thesis
    unfolding dir_ok_def dir_pass_def by (intro exI [of _ k] exI [of _ e]) auto
qed

lemma dir_close_left: "dir_close d = d\<lparr>pd_w := left_at (Some 0) (pd_w d)\<rparr>"
  by (simp add: dir_close_def left_at_def conn_Close_def)

lemma dir_ok_close:
  assumes "dir_ok limit c opened d"
  shows "dir_ok limit c False (dir_close d)"
proof -
  obtain k e where k: "Copy (capped_Write conn_Write) (newCappedWriter (c\<lparr>conn_left := k\<rparr>) limit) (pd_in d) 0 =
      (pd_w d, pd_n d, e)" "looping (pd_pc d) \<longleftrightarrow> e = Blocked"
    using assms by (auto simp: dir_ok_def)
  have "left_at (Some (pd_n d)) (newCappedWriter (c\<lparr>conn_left := k\<rparr>) limit) =
      newCappedWriter (c\<lparr>conn_left := Some (pd_n d)\<rparr>) limit"
    by (simp add: left_at_def newCappedWriter_def)
  with copy_left [OF k(1)] k(2) show ?thesis
    by (auto simp: dir_ok_def dir_close_left)
qed

lemma dir_ok_pc: "dir_ok limit c opened d \<Longrightarrow> \<not> looping (pd_pc d) \<Longrightarrow> \<not> looping p \<Longrightarrow> dir_ok limit c opened (d\<lparr>pd_pc := p\<rparr>)"
  by (auto simp: dir_ok_def)

fun posted :: "dir_pc \<Rightarrow> nat" where
  "posted Posted = 1"
| "posted _ = 0"

fun received :: "pump_main \<Rightarrow> nat" where
  "received AwaitFirst = 0"
| "received ClosingBoth = 1"
| "received AwaitSecond = 1"
| "received (PumpReturned _ _ _) = 2"

definition settled_dir :: "direction \<Rightarrow> bool" where
  "settled_dir d \<longleftrightarrow> pd_pc d = Stored \<or> pd_pc d = Posted"

definition pump_inv :: "int \<Rightarrow> conn \<Rightarrow> conn \<Rightarrow> pump_state \<Rightarrow> bool" where
  "pump_inv limit client upstream s \<longleftrightarrow>
     (\<forall>x. dir_ok limit (sink client upstream x) (ps_open s) (ps_dir s x))
     \<and> (\<forall>x. settled_dir (ps_dir s x) \<longrightarrow> ps_bytes s x = pd_n (ps_dir s x))
     \<and> ps_flag s = (\<exists>x. settled_dir (ps_dir s x) \<and> exceeded (pd_w (ps_dir s x)))
     \<and> ps_done s + received (ps_main s) = posted (pd_pc (ps_dir s Up)) + posted (pd_pc (ps_dir s Down))
     \<and> (ps_main s = AwaitSecond \<or> received (ps_main s) = 2 \<longrightarrow> \<not> ps_open s)
     \<and> (received (ps_main s) = 2 \<longrightarrow> ps_main s = pump_return s)"

lemma pump_init_inv: "pump_inv limit client upstream (pump_init limit client upstream buf)"
  by (auto simp: pump_inv_def pump_init_def settled_dir_def dir_ok_start)

lemma dir_pass_pc: "pd_pc (dir_pass r next d) = next \<or> pd_pc (dir_pass r next d) = Ended"
  by (auto simp: dir_pass_def split: prod.splits)

lemma dir_pass_buf [simp]: "pd_buf (dir_pass r next d) = pd_buf d"
  by (simp add: dir_pass_def split: prod.split)

lemma dir_pass_in [simp]: "pd_in (dir_pass r next d) = pd_in d @ [r]"
  by (simp add: dir_pass_def split: prod.split)

lemma posted_le: "posted p \<le> 1"
  by (cases p) auto

lemma posted_one: "(posted p = 1) = (p = Posted)"
  by (cases p) auto

lemma returned_posted:
  assumes "pump_inv limit client upstream s" "received (ps_main s) = 2"
  shows "pd_pc (ps_dir s x) = Posted"
proof -
  have "posted (pd_pc (ps_dir s Up)) + posted (pd_pc (ps_dir s Down)) = ps_done s + 2"
    using assms by (simp add: pump_inv_def)
  with posted_le [of "pd_pc (ps_dir s Up)"] posted_le [of "pd_pc (ps_dir s Down)"]
  have "posted (pd_pc (ps_dir s Up)) = 1" "posted (pd_pc (ps_dir s Down)) = 1" by arith+
  then show ?thesis by (cases x) (simp_all only: posted_one)
qed

text \<open>What a step of one direction must keep.\<close>

lemma pump_inv_dir:
  assumes inv: "pump_inv limit client upstream s" and pc: "pd_pc (ps_dir s x) \<noteq> Posted"
    and ok: "dir_ok limit (sink client upstream x) (ps_open s) d"
    and b: "settled_dir d \<Longrightarrow> b = pd_n d"
    and f: "f = (ps_flag s \<or> settled_dir d \<and> exceeded (pd_w d))"
    and keep: "settled_dir (ps_dir s x) \<Longrightarrow> settled_dir d \<and> exceeded (pd_w d) = exceeded (pd_w (ps_dir s x))"
    and k: "k + posted (pd_pc (ps_dir s x)) = ps_done s + posted (pd_pc d)"
  shows "pump_inv limit client upstream
    (with_dir x d (s\<lparr>ps_bytes := (ps_bytes s)(x := b), ps_flag := f, ps_done := k\<rparr>))"
proof -
  have r: "received (ps_main s) \<noteq> 2" using returned_posted [OF inv] pc by blast
  have flag: "f = (\<exists>y. settled_dir (((ps_dir s)(x := d)) y) \<and> exceeded (pd_w (((ps_dir s)(x := d)) y)))"
    using inv keep unfolding f pump_inv_def by (metis fun_upd_other fun_upd_same)
  have posts: "k + received (ps_main s) =
      posted (pd_pc (((ps_dir s)(x := d)) Up)) + posted (pd_pc (((ps_dir s)(x := d)) Down))"
    using inv k by (cases x) (simp_all add: pump_inv_def)
  from inv ok b r show ?thesis
    unfolding pump_inv_def with_dir_def using flag posts by simp
qed

lemma pump_inv_copy:
  assumes "pump_inv limit client upstream s" "looping (pd_pc (ps_dir s x))"
    and "dir_ok limit (sink client upstream x) (ps_open s) d" "looping (pd_pc d) \<or> pd_pc d = Ended"
  shows "pump_inv limit client upstream (with_dir x d s)"
proof -
  have p: "pd_pc (ps_dir s x) \<noteq> Posted" "posted (pd_pc d) = 0" "posted (pd_pc (ps_dir s x)) = 0"
    "\<not> settled_dir d" "\<not> settled_dir (ps_dir s x)"
    using assms(2,4) by (cases "pd_pc (ps_dir s x)"; cases "pd_pc d"; simp add: settled_dir_def)+
  with pump_inv_dir [of limit client upstream s x d "ps_bytes s x" "ps_flag s" "ps_done s"] assms(1,3)
  show ?thesis by simp
qed

lemma pump_inv_read:
  assumes "pump_inv limit client upstream s" "pd_pc (ps_dir s x) = Copying"
  shows "pump_inv limit client upstream (with_dir x (dir_read (ps_open s) r (ps_dir s x)) s)"
  using assms by (intro pump_inv_copy dir_ok_read) (simp_all add: pump_inv_def, simp add: dir_read_def)

lemma pump_inv_pass:
  assumes "pump_inv limit client upstream s" "looping (pd_pc (ps_dir s x))" "looping next"
  shows "pump_inv limit client upstream (with_dir x (dir_pass r next (ps_dir s x)) s)"
  using assms dir_pass_pc [of r "next" "ps_dir s x"]
  by (intro pump_inv_copy dir_ok_pass) (auto simp: pump_inv_def)

lemma pump_inv_store:
  assumes "pump_inv limit client upstream s" "pd_pc (ps_dir s x) = Ended"
  shows "pump_inv limit client upstream (dir_store x s)"
  using assms dir_ok_pc [of limit "sink client upstream x" "ps_open s" "ps_dir s x" Stored]
    pump_inv_dir [of limit client upstream s x "(ps_dir s x)\<lparr>pd_pc := Stored\<rparr>" "pd_n (ps_dir s x)"
      "ps_flag s \<or> exceeded (pd_w (ps_dir s x))" "ps_done s"]
  by (simp add: dir_store_def settled_dir_def Let_def pump_inv_def)

lemma pump_inv_post:
  assumes "pump_inv limit client upstream s" "pd_pc (ps_dir s x) = Stored"
  shows "pump_inv limit client upstream (dir_post x s)"
proof -
  have "ps_bytes s x = pd_n (ps_dir s x)" "ps_flag s = (ps_flag s \<or> exceeded (pd_w (ps_dir s x)))"
    using assms by (auto simp: pump_inv_def settled_dir_def)
  moreover have "dir_ok limit (sink client upstream x) (ps_open s) ((ps_dir s x)\<lparr>pd_pc := Posted\<rparr>)"
    using assms by (intro dir_ok_pc) (auto simp: pump_inv_def)
  moreover have t: "dir_post x s = with_dir x ((ps_dir s x)\<lparr>pd_pc := Posted\<rparr>)
      (s\<lparr>ps_bytes := (ps_bytes s)(x := ps_bytes s x), ps_flag := ps_flag s, ps_done := ps_done s + 1\<rparr>)"
    by (simp add: dir_post_def)
  ultimately show ?thesis
    unfolding t using assms by (intro pump_inv_dir) (auto simp: settled_dir_def)
qed

lemma dir_close_fields [simp]:
  "pd_pc (dir_close d) = pd_pc d" "pd_n (dir_close d) = pd_n d" "pd_buf (dir_close d) = pd_buf d"
  "pd_in (dir_close d) = pd_in d" "exceeded (pd_w (dir_close d)) = exceeded (pd_w d)"
  by (simp_all add: dir_close_def exceeded_def)

lemma pump_inv_close:
  assumes "pump_inv limit client upstream s"
  shows "pump_inv limit client upstream (closeBoth s)"
  using assms by (auto simp: pump_inv_def closeBoth_def settled_dir_def pump_return_def intro: dir_ok_close)

lemma pump_inv_main:
  assumes "pump_inv limit client upstream s" "received m + k = received (ps_main s) + ps_done s"
    and "m = AwaitSecond \<or> received m = 2 \<longrightarrow> \<not> ps_open s" "received m = 2 \<longrightarrow> m = pump_return s"
  shows "pump_inv limit client upstream (s\<lparr>ps_done := k, ps_main := m\<rparr>)"
  using assms by (auto simp: pump_inv_def pump_return_def)

lemma pump_inv_closes:
  assumes "pump_inv limit client upstream s" "ps_main s = ClosingBoth"
  shows "pump_inv limit client upstream ((closeBoth s)\<lparr>ps_main := AwaitSecond\<rparr>)"
  using pump_inv_main [OF pump_inv_close [OF assms(1)], of AwaitSecond "ps_done s"] assms(2)
  by (simp add: closeBoth_def)

lemma pump_inv_own: "pump_own s t \<Longrightarrow> pump_inv limit client upstream s \<Longrightarrow> pump_inv limit client upstream t"
proof (induction rule: pump_own.induct)
  case (receives s)
  then show ?case by (intro pump_inv_main) auto
next
  case (returns s)
  then have "\<not> ps_open s" by (simp add: pump_inv_def)
  with returns show ?case by (intro pump_inv_main) (auto simp: pump_return_def)
qed (simp_all add: pump_inv_read pump_inv_pass pump_inv_store pump_inv_post pump_inv_closes)

lemma pump_inv_step: "pump_step s t \<Longrightarrow> pump_inv limit client upstream s \<Longrightarrow> pump_inv limit client upstream t"
  by (auto elim!: pump_step.cases intro: pump_inv_own pump_inv_close)

lemma pump_inv_reachable:
  "pump_reachable (pump_init limit client upstream buf) s \<Longrightarrow> pump_inv limit client upstream s"
  by (induction rule: pump_reachable.induct) (auto intro: pump_init_inv pump_inv_step)

section \<open>What a run amounts to\<close>

lemma pump_inv_plain:
  assumes "pump_inv limit client upstream s"
  shows "\<exists>k e. k \<in> {conn_left (sink client upstream x), Some (pd_n (ps_dir s x))} \<and>
    Copy (capped_Write conn_Write) (newCappedWriter ((sink client upstream x)\<lparr>conn_left := k\<rparr>) limit)
      (pd_in (ps_dir s x)) 0 = (pd_w (ps_dir s x), pd_n (ps_dir s x), e)"
proof -
  have "dir_ok limit (sink client upstream x) (ps_open s) (ps_dir s x)" using assms by (simp add: pump_inv_def)
  then show ?thesis unfolding dir_ok_def by blast
qed

lemma pump_inv_returned:
  assumes inv: "pump_inv limit client upstream s" and m: "ps_main s = PumpReturned u d c"
  shows "\<exists>cl \<in> {conn_left client, Some (pd_n (ps_dir s Down))}. \<exists>ul \<in> {conn_left upstream, Some (pd_n (ps_dir s Up))}.
    pump limit (client\<lparr>conn_left := cl\<rparr>) (upstream\<lparr>conn_left := ul\<rparr>)
      (pd_in (ps_dir s Up)) (pd_in (ps_dir s Down)) =
    (cw_w (pd_w (ps_dir s Down)), cw_w (pd_w (ps_dir s Up)), \<lparr>pu_up = u, pu_down = d, pu_capped = c\<rparr>)"
proof -
  have all: "pd_pc (ps_dir s x) = Posted" for x using returned_posted [OF inv] m by simp
  have r: "u = of_nat (pd_n (ps_dir s Up))" "d = of_nat (pd_n (ps_dir s Down))" "c = ps_flag s"
    using inv m all by (simp_all add: pump_inv_def pump_return_def settled_dir_def)
  have f: "ps_flag s = (exceeded (pd_w (ps_dir s Up)) \<or> exceeded (pd_w (ps_dir s Down)))"
    using inv all unfolding pump_inv_def settled_dir_def by (metis side.exhaust)
  obtain ul e1 where "ul \<in> {conn_left upstream, Some (pd_n (ps_dir s Up))}" "Copy (capped_Write conn_Write) (newCappedWriter (upstream\<lparr>conn_left := ul\<rparr>) limit)
      (pd_in (ps_dir s Up)) 0 = (pd_w (ps_dir s Up), pd_n (ps_dir s Up), e1)"
    using pump_inv_plain [OF inv, of Up] by (auto simp: sink_def)
  moreover obtain cl e2 where "cl \<in> {conn_left client, Some (pd_n (ps_dir s Down))}" "Copy (capped_Write conn_Write) (newCappedWriter (client\<lparr>conn_left := cl\<rparr>) limit)
      (pd_in (ps_dir s Down)) 0 = (pd_w (ps_dir s Down), pd_n (ps_dir s Down), e2)"
    using pump_inv_plain [OF inv, of Down] by (auto simp: sink_def)
  ultimately show ?thesis
    using r f by (intro bexI [of _ cl] bexI [of _ ul]) (simp_all add: pump_def)
qed

text \<open>Nothing is left running: the state of a returned call has no further step.\<close>

lemma pump_own_final:
  assumes "pump_own s t" "pump_inv limit client upstream s"
  shows "received (ps_main s) \<noteq> 2"
proof
  assume r: "received (ps_main s) = 2"
  have all: "pd_pc (ps_dir s x) = Posted" for x using returned_posted [OF assms(2) r] .
  from assms(1) r all show False by (auto elim!: pump_own.cases)
qed

lemma pump_step_final:
  assumes "pump_step s t" "pump_inv limit client upstream s"
  shows "received (ps_main s) \<noteq> 2"
  using assms(1)
proof cases
  case own
  then show ?thesis using pump_own_final assms(2) by blast
next
  case shut_down
  then show ?thesis using assms(2) by (auto simp: pump_inv_def)
qed

section \<open>Progress\<close>

text \<open>
  The steps of a tunnel whose peers send nothing any more. They may still take what is being written, and
  \<open>Shutdown\<close> may close the connections.
\<close>

definition pump_unfed :: "pump_state \<Rightarrow> pump_state \<Rightarrow> bool" where
  "pump_unfed s t \<longleftrightarrow>
     pump_step s t \<and> (ps_open s \<longrightarrow> (\<forall>x. pd_pc (ps_dir s x) = Copying \<longrightarrow> pd_pc (ps_dir t x) = Copying))"

text \<open>
  The steps that no peer can hold up. On an open connection a read waits for its peer to send and a
  write for its peer to take the bytes; on a closed one both return at once.
\<close>

inductive pump_must :: "pump_state \<Rightarrow> pump_state \<Rightarrow> bool" where
  reads: "pd_pc (ps_dir s x) = Copying \<Longrightarrow> \<not> ps_open s \<Longrightarrow> snd r \<noteq> None \<or> 0 < pd_buf (ps_dir s x) \<Longrightarrow>
     pump_must s (with_dir x (dir_read False r (ps_dir s x)) s)"
| writes: "pd_pc (ps_dir s x) = Writing chunk er \<Longrightarrow> \<not> ps_open s \<or> passes_none chunk (ps_dir s x) \<Longrightarrow>
     pump_must s (with_dir x (dir_pass (chunk, er) Copying (ps_dir s x)) s)"
| stores: "pd_pc (ps_dir s x) = Ended \<Longrightarrow> pump_must s (dir_store x s)"
| posts: "pd_pc (ps_dir s x) = Stored \<Longrightarrow> pump_must s (dir_post x s)"
| receives: "ps_main s = AwaitFirst \<Longrightarrow> 0 < ps_done s \<Longrightarrow>
     pump_must s (s\<lparr>ps_done := ps_done s - 1, ps_main := ClosingBoth\<rparr>)"
| closes: "ps_main s = ClosingBoth \<Longrightarrow> pump_must s ((closeBoth s)\<lparr>ps_main := AwaitSecond\<rparr>)"
| returns: "ps_main s = AwaitSecond \<Longrightarrow> 0 < ps_done s \<Longrightarrow>
     pump_must s (s\<lparr>ps_done := ps_done s - 1, ps_main := pump_return s\<rparr>)"

lemma pump_must_own: "pump_must s t \<Longrightarrow> pump_own s t"
proof (induction rule: pump_must.induct)
  case (reads s x r)
  then show ?case using pump_own.reads [of s x r] by simp
qed (blast intro: pump_own.intros)+

lemma pump_must_unfed: "pump_must s t \<Longrightarrow> pump_unfed s t"
proof -
  assume m: "pump_must s t"
  then have "ps_open s \<longrightarrow> (\<forall>x. pd_pc (ps_dir s x) = Copying \<longrightarrow> pd_pc (ps_dir t x) = Copying)"
    by (induction rule: pump_must.induct)
      (auto simp: with_dir_def dir_store_def dir_post_def closeBoth_def Let_def)
  with pump_must_own [OF m] show ?thesis by (simp add: pump_unfed_def pump_step.own)
qed

text \<open>What is left to do when nothing more is read from an open connection.\<close>

fun dir_work :: "bool \<Rightarrow> dir_pc \<Rightarrow> nat \<Rightarrow> nat" where
  "dir_work opened Copying b = 2 * b + 4"
| "dir_work opened (Writing chunk er) b =
     (if er = None then 2 * b + 5 else 3) + (if opened then length chunk else 0)"
| "dir_work opened Ended b = 2"
| "dir_work opened Stored b = 1"
| "dir_work opened Posted b = 0"

fun main_work :: "pump_main \<Rightarrow> nat" where
  "main_work AwaitFirst = 3"
| "main_work ClosingBoth = 2"
| "main_work AwaitSecond = 1"
| "main_work (PumpReturned _ _ _) = 0"

definition dir_left :: "bool \<Rightarrow> direction \<Rightarrow> nat" where
  "dir_left opened d = dir_work opened (pd_pc d) (pd_buf d)"

definition pump_work :: "pump_state \<Rightarrow> nat" where
  "pump_work s = dir_left (ps_open s) (ps_dir s Up) + dir_left (ps_open s) (ps_dir s Down)
     + main_work (ps_main s) + (if ps_open s then 1 else 0)"

lemma pump_work_dir:
  "dir_left (ps_open s) d < dir_left (ps_open s) (ps_dir s x) \<Longrightarrow> ps_main t = ps_main s \<Longrightarrow> ps_open t = ps_open s \<Longrightarrow>
     ps_dir t = ps_dir s \<Longrightarrow> pump_work (with_dir x d t) < pump_work s"
  by (cases x) (simp_all add: pump_work_def with_dir_def)

lemma dir_work_closed: "dir_work False pc b \<le> dir_work opened pc b"
  by (cases pc) simp_all

lemma pump_work_close: "ps_open s \<Longrightarrow> pump_work (closeBoth s) < pump_work s"
  using dir_work_closed [of "pd_pc (ps_dir s Up)" "pd_buf (ps_dir s Up)" True]
    dir_work_closed [of "pd_pc (ps_dir s Down)" "pd_buf (ps_dir s Down)" True]
  by (simp add: pump_work_def closeBoth_def dir_left_def)

lemma dir_pass_failed: "snd r \<noteq> None \<Longrightarrow> pd_pc (dir_pass r next d) = Ended"
proof -
  assume "snd r \<noteq> None"
  moreover obtain w n e where "Copy (capped_Write conn_Write) (pd_w d) [r] (pd_n d) = (w, n, e)" by (metis prod_cases3)
  ultimately show ?thesis by (cases r) (auto simp: dir_pass_def split: option.splits if_splits prod.splits)
qed

lemma dir_pass_left:
  assumes "pd_pc d = Writing chunk er" "dir_work opened next (pd_buf d) < dir_left opened d"
  shows "dir_left opened (dir_pass r next d) < dir_left opened d"
  using dir_pass_pc [of r "next" d] assms by (auto simp: dir_left_def)

lemma dir_write_left:
  assumes "pd_pc d = Writing chunk er"
  shows "dir_left opened (dir_pass (chunk, er) Copying d) < dir_left opened d"
proof (cases er)
  case None
  with assms show ?thesis by (intro dir_pass_left) (auto simp: dir_left_def)
next
  case (Some e)
  with assms dir_pass_failed [of "(chunk, er)" Copying d] show ?thesis by (simp add: dir_left_def)
qed

lemma pump_work_own:
  assumes "pump_own s t" "ps_open s \<longrightarrow> (\<forall>x. pd_pc (ps_dir s x) = Copying \<longrightarrow> pd_pc (ps_dir t x) = Copying)"
  shows "pump_work t < pump_work s"
  using assms
proof (induction rule: pump_own.induct)
  case (reads s x r)
  then have "\<not> ps_open s" by (auto simp: with_dir_def dir_read_def dest: spec [of _ x])
  with reads show ?case by (auto simp: dir_left_def dir_read_def intro!: pump_work_dir)
next
  case (writes s x chunk er)
  then show ?case by (intro pump_work_dir dir_write_left) simp_all
next
  case (takes s x chunk er k)
  then show ?case by (intro pump_work_dir dir_pass_left) (auto simp: dir_left_def)
next
  case (closes s)
  then show ?case
    using pump_work_close [of s] by (cases "ps_open s") (simp_all add: pump_work_def closeBoth_def dir_left_def)
qed (auto simp: dir_store_def dir_post_def Let_def dir_left_def intro!: pump_work_dir,
     auto simp: pump_work_def dir_left_def pump_return_def)

lemma pump_work_unfed: "pump_unfed s t \<Longrightarrow> pump_work t < pump_work s"
  unfolding pump_unfed_def by (auto elim!: pump_step.cases intro: pump_work_own pump_work_close)

text \<open>
  Under way to its end: the connections are closed, or a direction has finished. From there some
  step that no peer can hold up is possible, until the call has returned.
\<close>

definition ending :: "pump_state \<Rightarrow> bool" where
  "ending s \<longleftrightarrow> \<not> ps_open s \<or> (\<exists>x. \<not> looping (pd_pc (ps_dir s x)))"

lemma ending_copy: "ending s \<Longrightarrow> looping (pd_pc (ps_dir s x)) \<Longrightarrow> ending (with_dir x d s)"
  by (auto simp: ending_def with_dir_def)

lemma ending_step: "pump_step s t \<Longrightarrow> ending s \<Longrightarrow> ending t"
proof (induction rule: pump_step.induct)
  case (own s t)
  then show ?case
    by (induction rule: pump_own.induct)
      (simp_all add: ending_copy, auto simp: ending_def with_dir_def dir_store_def dir_post_def closeBoth_def Let_def)
qed (simp add: ending_def closeBoth_def)

lemma ended_must: "pd_pc (ps_dir s x) = Ended \<or> pd_pc (ps_dir s x) = Stored \<Longrightarrow> \<exists>t. pump_must s t"
  by (auto intro: pump_must.intros)

lemma closed_must:
  assumes "looping (pd_pc (ps_dir s x))" "\<not> ps_open s"
  shows "\<exists>t. pump_must s t"
proof (cases "pd_pc (ps_dir s x)")
  case Copying
  then show ?thesis using pump_must.reads [of s x "([], Some ''EOF'')"] assms(2) by auto
next
  case (Writing chunk er)
  then show ?thesis using pump_must.writes assms(2) by blast
qed (use assms(1) in simp_all)

lemma main_must:
  assumes inv: "pump_inv limit client upstream s" and "received (ps_main s) \<noteq> 2"
    and y: "pd_pc (ps_dir s y) = Posted" and rest: "\<not> ps_open s \<Longrightarrow> (\<And>x. pd_pc (ps_dir s x) = Posted)"
  shows "\<exists>t. pump_must s t"
proof -
  have n: "0 < ps_done s + received (ps_main s)"
    using inv y by (cases y) (simp_all add: pump_inv_def)
  show ?thesis
  proof (cases "ps_main s")
    case AwaitFirst
    with n show ?thesis by (auto intro: pump_must.receives)
  next
    case ClosingBoth
    then show ?thesis by (auto intro: pump_must.closes)
  next
    case AwaitSecond
    with inv rest have "pd_pc (ps_dir s x) = Posted" for x by (simp add: pump_inv_def)
    with inv AwaitSecond have "0 < ps_done s" by (simp add: pump_inv_def)
    with AwaitSecond show ?thesis by (auto intro: pump_must.returns)
  next
    case PumpReturned
    with assms(2) show ?thesis by simp
  qed
qed

lemma progress:
  assumes inv: "pump_inv limit client upstream s" and "ending s" "received (ps_main s) \<noteq> 2"
  shows "\<exists>t. pump_must s t"
proof (rule ccontr)
  assume none: "\<not> (\<exists>t. pump_must s t)"
  have p: "pd_pc (ps_dir s x) = Posted" if "\<not> looping (pd_pc (ps_dir s x)) \<or> \<not> ps_open s" for x
    using that none ended_must [of s x] closed_must [of s x] by (cases "pd_pc (ps_dir s x)") auto
  then obtain y where "pd_pc (ps_dir s y) = Posted" using assms(2) unfolding ending_def by blast
  with none main_must [OF inv assms(3)] p show False by blast
qed

lemma received_two: "(received m = 2) = (\<exists>u d c. m = PumpReturned u d c)"
  by (cases m) auto

lemma ending_returns:
  assumes "pump_inv limit client upstream s" "ending s"
  shows "inevitable pump_must pump_unfed (\<lambda>t. received (ps_main t) = 2) s"
proof (rule inevitableI [where r = less_than and f = pump_work and I = "\<lambda>t. pump_inv limit client upstream t \<and> ending t"])
  fix s t
  assume "pump_inv limit client upstream s \<and> ending s" "pump_must s t \<or> pump_unfed s t"
  then have "pump_inv limit client upstream s" "ending s" "pump_unfed s t" "pump_step s t"
    using pump_must_unfed by (auto simp: pump_unfed_def)
  then show "(pump_inv limit client upstream t \<and> ending t) \<and> (pump_work t, pump_work s) \<in> less_than"
    using pump_inv_step ending_step pump_work_unfed by auto
qed (use assms progress in auto)

section \<open>Properties\<close>

text \<open>C22. However the two copying goroutines of \<open>pump\<close>, its caller and \<open>Shutdown\<close> are scheduled, a call
  that returns reports what the two copies of \<open>pump\<close>, run one after the other on the reads each
  direction had (a write that is taken in parts counting as so many reads), would report: the same
  byte counts, the same cap flag, the same bytes on both connections, each as it was given or cut
  off by the close after just the bytes it had taken. Both connections are closed, both goroutines
  have finished, and no step of the tunnel is left.\<close>

theorem pump_refines:
  assumes "pump_reachable (pump_init limit client upstream buf) s" "ps_main s = PumpReturned u d c"
  shows "(\<exists>cl \<in> {conn_left client, Some (pd_n (ps_dir s Down))}. \<exists>ul \<in> {conn_left upstream, Some (pd_n (ps_dir s Up))}.
          pump limit (client\<lparr>conn_left := cl\<rparr>) (upstream\<lparr>conn_left := ul\<rparr>)
            (pd_in (ps_dir s Up)) (pd_in (ps_dir s Down)) =
          (cw_w (pd_w (ps_dir s Down)), cw_w (pd_w (ps_dir s Up)), \<lparr>pu_up = u, pu_down = d, pu_capped = c\<rparr>))
    \<and> \<not> ps_open s \<and> (\<forall>x. pd_pc (ps_dir s x) = Posted) \<and> (\<forall>t. \<not> pump_step s t)"
proof (intro conjI allI)
  note inv = pump_inv_reachable [OF assms(1)]
  show "\<exists>cl \<in> {conn_left client, Some (pd_n (ps_dir s Down))}. \<exists>ul \<in> {conn_left upstream, Some (pd_n (ps_dir s Up))}.
    pump limit (client\<lparr>conn_left := cl\<rparr>) (upstream\<lparr>conn_left := ul\<rparr>)
      (pd_in (ps_dir s Up)) (pd_in (ps_dir s Down)) =
    (cw_w (pd_w (ps_dir s Down)), cw_w (pd_w (ps_dir s Up)), \<lparr>pu_up = u, pu_down = d, pu_capped = c\<rparr>)"
    using pump_inv_returned [OF inv assms(2)] .
  show "\<not> ps_open s" using inv assms(2) by (simp add: pump_inv_def)
  show "pd_pc (ps_dir s x) = Posted" for x using returned_posted [OF inv] assms(2) by simp
  show "\<not> pump_step s t" for t using pump_step_final [of s t] inv assms(2) by auto
qed

text \<open>A tunnel capped at two bytes, whose client sends three.\<close>

definition capped_start :: pump_state where
  "capped_start = pump_init 2 \<lparr>conn_sent = [], conn_left = None\<rparr> \<lparr>conn_sent = [], conn_left = None\<rparr> (\<lambda>_. 0)"

definition capped_read :: pump_state where
  "capped_read = with_dir Up (dir_read True (''hey'', None) (ps_dir capped_start Up)) capped_start"

definition capped_ended :: pump_state where
  "capped_ended = with_dir Up (dir_pass (''hey'', None) Copying (ps_dir capped_read Up)) capped_read"

definition capped_closed :: pump_state where
  "capped_closed = (let s = dir_post Up (dir_store Up capped_ended)
     in (closeBoth (s\<lparr>ps_done := ps_done s - 1, ps_main := ClosingBoth\<rparr>))\<lparr>ps_main := AwaitSecond\<rparr>)"

definition capped_eof :: pump_state where
  "capped_eof = with_dir Down (dir_read False ([], Some ''EOF'') (ps_dir capped_closed Down)) capped_closed"

definition capped_done :: pump_state where
  "capped_done = (let s = dir_post Down (dir_store Down
       (with_dir Down (dir_pass ([], Some ''EOF'') Copying (ps_dir capped_eof Down)) capped_eof))
     in s\<lparr>ps_done := ps_done s - 1, ps_main := pump_return s\<rparr>)"

lemmas pump_go = pump_reachable.step [OF _ pump_step.own]

lemma capped_ended_reachable: "pump_reachable capped_start capped_ended"
proof -
  have "pump_reachable capped_start capped_read"
    using pump_go [OF pump_reachable.start pump_own.reads [of capped_start Up "(''hey'', None)"]]
    by (simp add: capped_read_def capped_start_def pump_init_def)
  moreover have "pd_pc (ps_dir capped_read Up) = Writing ''hey'' None" by code_simp
  ultimately show ?thesis unfolding capped_ended_def by (rule pump_go [OF _ pump_own.writes])
qed

lemma capped_closed_reachable: "pump_reachable capped_start capped_closed"
proof -
  have "pump_reachable capped_start (dir_store Up capped_ended)"
    by (rule pump_go [OF capped_ended_reachable pump_own.stores]) code_simp
  then have p: "pump_reachable capped_start (dir_post Up (dir_store Up capped_ended))"
    by (rule pump_go [OF _ pump_own.posts]) code_simp
  show ?thesis
    unfolding capped_closed_def Let_def
    by (rule pump_go [OF pump_go [OF p pump_own.receives] pump_own.closes]; code_simp)
qed

lemma capped_done_reachable: "pump_reachable capped_start capped_done"
proof -
  have "pump_reachable capped_start capped_eof"
    using pump_go [OF capped_closed_reachable pump_own.reads [of capped_closed Down "([], Some ''EOF'')"]]
    by (simp add: capped_eof_def capped_closed_def closeBoth_def dir_store_def dir_post_def with_dir_def
        capped_ended_def capped_read_def capped_start_def pump_init_def Let_def)
  moreover have "pd_pc (ps_dir capped_eof Down) = Writing [] (Some ''EOF'')" by code_simp
  ultimately have "pump_reachable capped_start
      (with_dir Down (dir_pass ([], Some ''EOF'') Copying (ps_dir capped_eof Down)) capped_eof)" (is "pump_reachable _ ?t")
    by (rule pump_go [OF _ pump_own.writes])
  then have "pump_reachable capped_start (dir_store Down ?t)"
    by (rule pump_go [OF _ pump_own.stores]) code_simp
  then have "pump_reachable capped_start (dir_post Down (dir_store Down ?t))"
    by (rule pump_go [OF _ pump_own.posts]) code_simp
  then show ?thesis
    unfolding capped_done_def Let_def by (rule pump_go [OF _ pump_own.returns]; code_simp)
qed

lemma pump_refines_witness:
  "pump_reachable capped_start capped_done \<and> ps_main capped_done = PumpReturned 2 0 True
    \<and> (\<forall>t. \<not> pump_step capped_done t)"
proof -
  have "ps_main capped_done = PumpReturned 2 0 True" by code_simp
  with capped_done_reachable show ?thesis
    using pump_refines [of 2 "\<lparr>conn_sent = [], conn_left = None\<rparr>" "\<lparr>conn_sent = [], conn_left = None\<rparr>" "\<lambda>_. 0"
        capped_done 2 0 True, folded capped_start_def] by blast
qed

text \<open>C23. \<open>pump\<close> ends. Once a direction has finished or the connections are closed, and if no more is read
  from an open connection, the call returns however its steps are ordered: until it has, there is always a
  step that no peer can hold up, even one that reads nothing of what is written to it, and no
  run of the tunnel is longer than \<open>pump_work\<close>. And a tunnel under way to its end stops
  nowhere but in the return of the call.\<close>

theorem pump_ends:
  assumes "pump_reachable (pump_init limit client upstream buf) s"
    and "\<not> ps_open s \<or> (\<exists>x. \<not> looping (pd_pc (ps_dir s x)))"
  shows "inevitable pump_must pump_unfed (\<lambda>t. \<exists>u d c. ps_main t = PumpReturned u d c) s
    \<and> (\<forall>n t. (pump_unfed ^^ n) s t \<longrightarrow> n \<le> pump_work s)
    \<and> ((\<forall>t. \<not> pump_step s t) \<longleftrightarrow> (\<exists>u d c. ps_main s = PumpReturned u d c))"
proof (intro conjI impI allI)
  note inv = pump_inv_reachable [OF assms(1)]
  from assms(2) have e: "ending s" by (simp add: ending_def)
  show "inevitable pump_must pump_unfed (\<lambda>t. \<exists>u d c. ps_main t = PumpReturned u d c) s"
    using ending_returns [OF inv e] unfolding received_two .
  show "n \<le> pump_work s" if "(pump_unfed ^^ n) s t" for n t
    using bounded_runs [of "\<lambda>_. True" pump_unfed pump_work s n t] pump_work_unfed that by auto
  show "(\<forall>t. \<not> pump_step s t) \<longleftrightarrow> (\<exists>u d c. ps_main s = PumpReturned u d c)"
    using progress [OF inv e] pump_step_final [of s] inv pump_step.own pump_must_own
    unfolding received_two [symmetric] by blast
qed

theorem pump_ends_witness:
  "\<not> ps_open capped_closed \<and> pump_work capped_closed = 5
    \<and> (\<exists>t u d c. pump_must\<^sup>*\<^sup>* capped_closed t \<and> ps_main t = PumpReturned u d c)"
proof -
  have w: "\<not> ps_open capped_closed" "pump_work capped_closed = 5" by code_simp+
  have "inevitable pump_must pump_unfed (\<lambda>t. \<exists>u d c. ps_main t = PumpReturned u d c) capped_closed"
    by (rule conjunct1 [OF pump_ends [OF capped_closed_reachable [unfolded capped_start_def] disjI1 [OF w(1)]]])
  from inevitable_reaches [OF this] w show ?thesis by blast
qed

end
