(* ===== verification/IdlePump.thy ===== *)
theory IdlePump
  imports Pump
begin

text \<open>
  The idle clock of a tunnel under concurrency: the two copies of \<open>pump\<close> read through \<open>idleReader\<close>s
  that share one \<open>idleClock\<close>. Here a read is not one step: setting the deadline, the read that
  blocks, reading the time and storing it (two actions, the store alone is atomic), and the test
  after a timeout are each a step, and time passes between any two. What a run returns is what \<open>Pump\<close> says of
  the bytes its connections gave; what it may end by is told here.
\<close>

section \<open>State and steps\<close>

text \<open>
  Where the reader of a direction is: at the top of its loop; blocked, with the deadline it set;
  with bytes, about to read the time, and with the time, about to store it; with an answer without
  bytes; with the time read after a timeout, about to load the clock; with the answer it returns.
\<close>

datatype reader =
    Arming
  | Reading "int option"
  | Stamping string "net_error option"
  | Storing string "net_error option" int
  | Judging "net_error option"
  | Comparing int
  | Answered string "net_error option"

fun touching :: "reader \<Rightarrow> bool" where
  "touching (Stamping _ _) = True"
| "touching (Storing _ _ _) = True"
| "touching _ = False"

text \<open>
  Three fields are for the statements: every answer a connection has given, the time each gave its
  latest bytes, and the longest it took from such an answer to the store of its time.
\<close>

record timed =
  tm_pump :: pump_state
  tm_clock :: idleClock
  tm_rd :: "side \<Rightarrow> reader"
  tm_now :: int
  tm_got :: "side \<Rightarrow> (string \<times> net_error option) list"
  tm_at :: "side \<Rightarrow> int"
  tm_slack :: int

definition timed_init :: "int \<Rightarrow> int \<Rightarrow> int \<Rightarrow> conn \<Rightarrow> conn \<Rightarrow> (side \<Rightarrow> nat) \<Rightarrow> timed" where
  "timed_init idle now limit client upstream buf =
     \<lparr>tm_pump = pump_init limit client upstream buf, tm_clock = newIdleClock idle now, tm_rd = (\<lambda>_. Arming),
      tm_now = now, tm_got = (\<lambda>_. []), tm_at = (\<lambda>_. now), tm_slack = 0\<rparr>"

abbreviation with_rd :: "side \<Rightarrow> reader \<Rightarrow> timed \<Rightarrow> timed" where
  "with_rd x r s \<equiv> s\<lparr>tm_rd := (tm_rd s)(x := r)\<rparr>"

text \<open>The deadline set before a read, and where its answer leads.\<close>

definition armed :: "idleClock \<Rightarrow> int option" where
  "armed c = (if ic_idle c > 0 then Some (deadline c) else None)"

definition after_read :: "string \<Rightarrow> net_error option \<Rightarrow> reader" where
  "after_read chunk err = (if chunk \<noteq> [] then Stamping chunk err else Judging err)"

definition after_judge :: "idleClock \<Rightarrow> int \<Rightarrow> net_error option \<Rightarrow> reader" where
  "after_judge c now err = (if ic_idle c > 0 \<and> isTimeout err then Comparing now else Answered [] err)"

definition after_compare :: "idleClock \<Rightarrow> int \<Rightarrow> reader" where
  "after_compare c t = (if t < deadline c then Arming else Answered [] (Some Timeout))"

definition stored :: "side \<Rightarrow> string \<Rightarrow> net_error option \<Rightarrow> int \<Rightarrow> timed \<Rightarrow> timed" where
  "stored x chunk err t s =
     (with_rd x (Answered chunk err) s)
       \<lparr>tm_clock := touch t (tm_clock s), tm_slack := max (tm_slack s) (tm_now s - tm_at s x)\<rparr>"

text \<open>The connection a direction reads from gives an answer: for the statements.\<close>

definition given :: "side \<Rightarrow> string \<Rightarrow> net_error option \<Rightarrow> timed \<Rightarrow> timed" where
  "given x chunk err s =
     s\<lparr>tm_got := (tm_got s)(x := tm_got s x @ [(chunk, err)]),
       tm_at := (if chunk = [] then tm_at s else (tm_at s)(x := tm_now s))\<rparr>"

definition net_text :: "net_error \<Rightarrow> string" where
  "net_text e = (case e of Timeout \<Rightarrow> ''i/o timeout'' | OtherError m \<Rightarrow> m)"

definition read_of :: "side \<Rightarrow> string \<Rightarrow> net_error option \<Rightarrow> pump_state \<Rightarrow> pump_state" where
  "read_of x chunk err p =
     with_dir x (dir_read (ps_open p) (chunk, map_option net_text err) (ps_dir p x)) p"

text \<open>An answer that was read before the connections closed is one the copy can still have after.\<close>

fun in_flight :: "reader \<Rightarrow> bool" where
  "in_flight (Stamping _ err) = (err = None)"
| "in_flight (Storing _ err _) = (err = None)"
| "in_flight (Judging err) = (err = None)"
| "in_flight (Answered _ err) = (err = None)"
| "in_flight _ = False"

definition with_buf :: "(side \<Rightarrow> nat) \<Rightarrow> pump_state \<Rightarrow> pump_state" where
  "with_buf f p = p\<lparr>ps_dir := (\<lambda>x. (ps_dir p x)\<lparr>pd_buf := f x\<rparr>)\<rparr>"

definition kept :: "timed \<Rightarrow> pump_state \<Rightarrow> pump_state" where
  "kept s p =
     (if ps_open (tm_pump s) \<and> \<not> ps_open p
      then with_buf (\<lambda>x. pd_buf (ps_dir p x) + (if in_flight (tm_rd s x) then 1 else 0)) p
      else p)"

text \<open>
  The gate's own actions: those of the readers, and those of \<open>pump\<close> that do not take a read.
\<close>

inductive timed_own :: "timed \<Rightarrow> timed \<Rightarrow> bool" where
  arms: "tm_rd s x = Arming \<Longrightarrow> pd_pc (ps_dir (tm_pump s) x) = Copying \<Longrightarrow>
     timed_own s (with_rd x (Reading (armed (tm_clock s))) s)"
| stamps: "tm_rd s x = Stamping chunk err \<Longrightarrow> timed_own s (with_rd x (Storing chunk err (tm_now s)) s)"
| stores: "tm_rd s x = Storing chunk err t \<Longrightarrow> timed_own s (stored x chunk err t s)"
| judges: "tm_rd s x = Judging err \<Longrightarrow> timed_own s (with_rd x (after_judge (tm_clock s) (tm_now s) err) s)"
| compares: "tm_rd s x = Comparing t \<Longrightarrow> timed_own s (with_rd x (after_compare (tm_clock s) t) s)"
| copies: "tm_rd s x = Answered chunk err \<Longrightarrow> pd_pc (ps_dir (tm_pump s) x) = Copying \<Longrightarrow>
     ps_open (tm_pump s) \<or> err \<noteq> None \<or> 0 < pd_buf (ps_dir (tm_pump s) x) \<Longrightarrow>
     timed_own s ((with_rd x Arming s)\<lparr>tm_pump := read_of x chunk err (tm_pump s)\<rparr>)"
| proceeds: "pump_own (tm_pump s) p \<Longrightarrow>
     (\<And>x. pd_pc (ps_dir (tm_pump s) x) = Copying \<Longrightarrow> pd_pc (ps_dir p x) = Copying) \<Longrightarrow>
     timed_own s (s\<lparr>tm_pump := kept s p\<rparr>)"

text \<open>
  With the world: time passes, a blocked read is answered with anything at any moment (on a closed
  connection, without an error only from what is buffered), and \<open>Shutdown\<close> closes the connections.
\<close>

inductive timed_step :: "timed \<Rightarrow> timed \<Rightarrow> bool" where
  own: "timed_own s t \<Longrightarrow> timed_step s t"
| ticks: "tm_now s \<le> t \<Longrightarrow> timed_step s (s\<lparr>tm_now := t\<rparr>)"
| answers: "tm_rd s x = Reading dl \<Longrightarrow>
     ps_open (tm_pump s) \<or> err \<noteq> None \<or> 0 < pd_buf (ps_dir (tm_pump s) x) \<Longrightarrow>
     timed_step s (with_rd x (after_read chunk err) (given x chunk err s))"
| shut_down: "ps_open (tm_pump s) \<Longrightarrow> timed_step s (s\<lparr>tm_pump := kept s (closeBoth (tm_pump s))\<rparr>)"

inductive timed_reachable :: "timed \<Rightarrow> timed \<Rightarrow> bool" for s0 :: timed where
  start: "timed_reachable s0 s0"
| step: "timed_reachable s0 s \<Longrightarrow> timed_step s t \<Longrightarrow> timed_reachable s0 t"

section \<open>A run of the readers is a run of the copies\<close>

lemma with_buf_simps [simp]:
  "ps_open (with_buf f p) = ps_open p" "ps_main (with_buf f p) = ps_main p" "ps_done (with_buf f p) = ps_done p"
  "ps_bytes (with_buf f p) = ps_bytes p" "ps_flag (with_buf f p) = ps_flag p"
  "ps_dir (with_buf f p) x = (ps_dir p x)\<lparr>pd_buf := f x\<rparr>"
  by (simp_all add: with_buf_def)

lemma with_buf_twice [simp]: "with_buf f (with_buf h p) = with_buf f p"
  by (simp add: with_buf_def)

lemma with_buf_same [simp]: "with_buf (\<lambda>x. pd_buf (ps_dir p x)) p = p"
  by (simp add: with_buf_def)

lemma with_buf_main:
  "(with_buf f p)\<lparr>ps_done := n, ps_main := m\<rparr> = with_buf f (p\<lparr>ps_done := n, ps_main := m\<rparr>)"
  "(with_buf f p)\<lparr>ps_main := m\<rparr> = with_buf f (p\<lparr>ps_main := m\<rparr>)"
  by (cases p, simp add: with_buf_def)+

lemma read_with_buf:
  "dir_read opened r (d\<lparr>pd_buf := b\<rparr>) = (dir_read opened r d)\<lparr>pd_buf := (if opened then b else b - 1)\<rparr>"
  by (simp add: dir_read_def)

lemma dir_read_buf: "pd_buf (dir_read opened r d) = (if opened then pd_buf d else pd_buf d - 1)"
  by (simp add: dir_read_def)

lemma pass_with_buf: "dir_pass r next (d\<lparr>pd_buf := b\<rparr>) = (dir_pass r next d)\<lparr>pd_buf := b\<rparr>"
  by (simp add: dir_pass_def split: prod.split)

lemma with_dir_with_buf: "with_dir x (d\<lparr>pd_buf := f x\<rparr>) (with_buf f p) = with_buf f (with_dir x d p)"
  by (auto simp: with_buf_def with_dir_def fun_eq_iff)

lemma closeBoth_with_buf: "closeBoth (with_buf f p) = with_buf f (closeBoth p)"
proof -
  have "dir_close (d\<lparr>pd_buf := b\<rparr>) = (dir_close d)\<lparr>pd_buf := b\<rparr>" for d b
    by (cases d) (simp add: dir_close_def)
  then show ?thesis by (simp add: closeBoth_def with_buf_def)
qed

text \<open>More buffered reads allow the same steps.\<close>

lemma pump_own_with_buf:
  assumes "pump_own p q" "\<And>x. pd_buf (ps_dir p x) \<le> f x"
  shows "\<exists>h. pump_own (with_buf f p) (with_buf h q)
    \<and> (\<forall>x. pd_buf (ps_dir q x) + (if ps_open p then f x - pd_buf (ps_dir p x) else 0) \<le> h x)"
  using assms
proof (induction rule: pump_own.induct)
  case (reads p x r)
  let ?h = "f(x := if ps_open p then f x else f x - 1)"
  have can: "ps_open p \<or> snd r \<noteq> None \<or> 0 < f x" using reads(2) reads(3) [of x] by auto
  have "pump_own (with_buf f p) (with_dir x (dir_read (ps_open p) r ((ps_dir p x)\<lparr>pd_buf := f x\<rparr>)) (with_buf f p))"
    using pump_own.reads [of "with_buf f p" x r] reads(1) can by simp
  moreover have "with_dir x (dir_read (ps_open p) r ((ps_dir p x)\<lparr>pd_buf := f x\<rparr>)) (with_buf f p)
      = with_buf ?h (with_dir x (dir_read (ps_open p) r (ps_dir p x)) p)"
    by (auto simp: read_with_buf with_buf_def with_dir_def fun_eq_iff)
  ultimately have "pump_own (with_buf f p) (with_buf ?h (with_dir x (dir_read (ps_open p) r (ps_dir p x)) p))"
    by simp
  moreover have "pd_buf (ps_dir (with_dir x (dir_read (ps_open p) r (ps_dir p x)) p) y)
      + (if ps_open p then f y - pd_buf (ps_dir p y) else 0) \<le> ?h y" for y
    using reads(3) [of y] by (auto simp: with_dir_def dir_read_buf intro: diff_le_mono)
  ultimately show ?case by blast
next
  case (writes p x chunk er)
  have "pump_own (with_buf f p) (with_buf f (with_dir x (dir_pass (chunk, er) Copying (ps_dir p x)) p))"
    using pump_own.writes [of "with_buf f p" x chunk er] writes(1) by (simp add: pass_with_buf with_dir_with_buf)
  with writes(2) show ?case by (intro exI [of _ f]) (auto simp: with_dir_def)
next
  case (takes p x chunk er k)
  have "pump_own (with_buf f p)
      (with_buf f (with_dir x (dir_pass (take k chunk, None) (Writing (drop k chunk) er) (ps_dir p x)) p))"
    using pump_own.takes [of "with_buf f p" x chunk er k] takes(1-5) by (simp add: pass_with_buf with_dir_with_buf)
  with takes(6) show ?case by (intro exI [of _ f]) (auto simp: with_dir_def)
next
  case (stores p x)
  then have "pump_own (with_buf f p) (dir_store x (with_buf f p))" by (intro pump_own.stores) simp
  moreover have "dir_store x (with_buf f p) = with_buf f (dir_store x p)"
    by (auto simp: dir_store_def with_buf_def with_dir_def Let_def fun_eq_iff exceeded_def)
  ultimately show ?case
    using stores(2) by (intro exI [of _ f]) (auto simp: dir_store_def with_dir_def Let_def)
next
  case (posts p x)
  then have "pump_own (with_buf f p) (dir_post x (with_buf f p))" by (intro pump_own.posts) simp
  moreover have "dir_post x (with_buf f p) = with_buf f (dir_post x p)"
    by (auto simp: dir_post_def with_buf_def with_dir_def fun_eq_iff)
  ultimately show ?case
    using posts(2) by (intro exI [of _ f]) (auto simp: dir_post_def with_dir_def)
next
  case (receives p)
  then show ?case
    using pump_own.receives [of "with_buf f p"] by (intro exI [of _ f]) (simp add: with_buf_main)
next
  case (closes p)
  then have "pump_own (with_buf f p) ((closeBoth (with_buf f p))\<lparr>ps_main := AwaitSecond\<rparr>)"
    by (intro pump_own.closes) simp
  with closes(2) show ?case
    by (intro exI [of _ f]) (simp add: closeBoth_with_buf with_buf_main, simp add: closeBoth_def)
next
  case (returns p)
  have "pump_return (with_buf f p) = pump_return p" by (simp add: pump_return_def)
  with returns show ?case
    using pump_own.returns [of "with_buf f p"] by (intro exI [of _ f]) (simp add: with_buf_main)
qed

text \<open>A run of the copies behind a run of the readers, on sources with one more buffered read.\<close>

definition covers :: "(side \<Rightarrow> nat) \<Rightarrow> pump_state \<Rightarrow> bool" where
  "covers f p \<longleftrightarrow> (\<forall>x. pd_buf (ps_dir p x) + (if ps_open p then 1 else 0) \<le> f x)"

definition shadows :: "pump_state \<Rightarrow> pump_state \<Rightarrow> bool" where
  "shadows p0 p \<longleftrightarrow> (\<exists>f. covers f p \<and> pump_reachable p0 (with_buf f p))"

lemma pump_own_shut: "pump_own p q \<Longrightarrow> \<not> ps_open p \<Longrightarrow> \<not> ps_open q"
  by (induction rule: pump_own.induct)
    (auto simp: with_dir_def dir_store_def dir_post_def closeBoth_def Let_def)

lemma shadows_own:
  assumes "pump_own p q" "shadows p0 p"
  shows "\<exists>f. (\<forall>x. pd_buf (ps_dir q x) + (if ps_open p then 1 else 0) \<le> f x) \<and> pump_reachable p0 (with_buf f q)"
proof -
  obtain f where f: "covers f p" "pump_reachable p0 (with_buf f p)" using assms(2) by (auto simp: shadows_def)
  then have le: "pd_buf (ps_dir p x) \<le> f x" for x by (auto simp: covers_def dest: spec [of _ x])
  obtain h where h: "pump_own (with_buf f p) (with_buf h q)"
    "\<And>x. pd_buf (ps_dir q x) + (if ps_open p then f x - pd_buf (ps_dir p x) else 0) \<le> h x"
    using pump_own_with_buf [of p q f, OF assms(1) le] by blast
  have "pd_buf (ps_dir q x) + (if ps_open p then 1 else 0) \<le> h x" for x
    using f(1) [unfolded covers_def, rule_format, of x] h(2) [of x] by (auto split: if_splits)
  moreover have "pump_reachable p0 (with_buf h q)"
    using f(2) h(1) by (blast intro: pump_reachable.step pump_step.own)
  ultimately show ?thesis by blast
qed

lemma kept_with_buf: "\<exists>b. kept s p = with_buf b p \<and> (\<forall>x. b x \<le> pd_buf (ps_dir p x) + (if ps_open (tm_pump s) \<and> \<not> ps_open p then 1 else 0))"
proof (cases "ps_open (tm_pump s) \<and> \<not> ps_open p")
  case True
  then show ?thesis
    by (intro exI [of _ "\<lambda>x. pd_buf (ps_dir p x) + (if in_flight (tm_rd s x) then 1 else 0)"]) (simp add: kept_def)
next
  case False
  then show ?thesis by (intro exI [of _ "\<lambda>x. pd_buf (ps_dir p x)"]) (auto simp: kept_def)
qed

lemma shadows_kept:
  assumes "\<And>x. pd_buf (ps_dir q x) + (if ps_open (tm_pump s) then 1 else 0) \<le> f x" "pump_reachable p0 (with_buf f q)"
    and "ps_open q \<longrightarrow> ps_open (tm_pump s)"
  shows "shadows p0 (kept s q)"
proof -
  obtain b where b: "kept s q = with_buf b q"
    "\<And>x. b x \<le> pd_buf (ps_dir q x) + (if ps_open (tm_pump s) \<and> \<not> ps_open q then 1 else 0)"
    using kept_with_buf by blast
  have "b x + (if ps_open q then 1 else 0) \<le> f x" for x
    using b(2) [of x] assms(1) [of x] assms(3) by (cases "ps_open q") auto
  then have "covers f (kept s q)" by (simp add: b(1) covers_def)
  with assms(2) b(1) show ?thesis by (auto simp: shadows_def intro!: exI [of _ f])
qed

lemma shadows_read:
  assumes "shadows p0 p" "pd_pc (ps_dir p x) = Copying" "ps_open p \<or> err \<noteq> None \<or> 0 < pd_buf (ps_dir p x)"
  shows "shadows p0 (read_of x chunk err p)"
proof -
  have "pump_own p (read_of x chunk err p)"
    unfolding read_of_def using assms(2,3) by (intro pump_own.reads) auto
  from shadows_own [OF this assms(1)] show ?thesis
    by (auto simp: shadows_def covers_def read_of_def with_dir_def)
qed

lemma shadows_shut:
  assumes "shadows p0 (tm_pump s)" "ps_open (tm_pump s)"
  shows "shadows p0 (kept s (closeBoth (tm_pump s)))"
proof -
  let ?p = "tm_pump s"
  obtain f where f: "covers f ?p" "pump_reachable p0 (with_buf f ?p)" using assms(1) by (auto simp: shadows_def)
  from f(2) assms(2) have "pump_reachable p0 (with_buf f (closeBoth ?p))"
    using pump_reachable.step [OF _ pump_step.shut_down, of p0 "with_buf f ?p"] by (simp add: closeBoth_with_buf)
  then show ?thesis using f(1) assms(2) by (intro shadows_kept) (auto simp: covers_def closeBoth_def)
qed

lemma stored_pump [simp]: "tm_pump (stored x chunk err t s) = tm_pump s"
  by (simp add: stored_def)

lemma given_simps [simp]:
  "tm_pump (given x chunk err s) = tm_pump s" "tm_clock (given x chunk err s) = tm_clock s"
  "tm_rd (given x chunk err s) = tm_rd s" "tm_now (given x chunk err s) = tm_now s"
  "tm_slack (given x chunk err s) = tm_slack s"
  by (simp_all add: given_def)

lemma shadows_own_step: "timed_own s t \<Longrightarrow> shadows p0 (tm_pump s) \<Longrightarrow> shadows p0 (tm_pump t)"
proof (induction rule: timed_own.induct)
  case (copies s x chunk err)
  then show ?case using shadows_read by simp
next
  case (proceeds s p)
  from shadows_own [OF proceeds(1,3)] obtain f where
    "\<And>x. pd_buf (ps_dir p x) + (if ps_open (tm_pump s) then 1 else 0) \<le> f x" "pump_reachable p0 (with_buf f p)"
    by blast
  then have "shadows p0 (kept s p)" using pump_own_shut [OF proceeds(1)] by (intro shadows_kept) auto
  then show ?case by simp
qed simp_all

lemma shadows_reachable:
  assumes "timed_reachable (timed_init idle now limit client upstream buf) s"
  shows "shadows (pump_init limit client upstream (\<lambda>x. buf x + 1)) (tm_pump s)"
  using assms
proof (induction rule: timed_reachable.induct)
  case start
  let ?p = "pump_init limit client upstream buf"
  have "pump_init limit client upstream (\<lambda>x. buf x + 1) = with_buf (\<lambda>x. buf x + 1) ?p"
    by (simp add: pump_init_def with_buf_def)
  moreover have "covers (\<lambda>x. buf x + 1) ?p" by (simp add: covers_def pump_init_def)
  ultimately show ?case
    unfolding shadows_def timed_init_def using pump_reachable.start by (metis timed.select_convs(1))
next
  case (step s t)
  from step(2,3) show ?case
    by (cases rule: timed_step.cases) (auto intro: shadows_own_step shadows_shut)
qed

section \<open>The invariant\<close>

fun times_ok :: "int \<Rightarrow> int \<Rightarrow> int \<Rightarrow> reader \<Rightarrow> bool" where
  "times_ok idle now gave (Reading dl) = (0 < idle \<longrightarrow> (\<exists>d. dl = Some d \<and> d \<le> now + idle))"
| "times_ok idle now gave (Stamping chunk _) = (chunk \<noteq> [])"
| "times_ok idle now gave (Storing chunk _ t) = (chunk \<noteq> [] \<and> gave \<le> t \<and> t \<le> now)"
| "times_ok idle now gave (Comparing t) = (t \<le> now)"
| "times_ok idle now gave _ = True"

text \<open>
  The clock is at most behind by the slack of the time of any bytes that have been stamped; and
  an answer in flight can be copied.
\<close>

definition clock_ok :: "int \<Rightarrow> timed \<Rightarrow> bool" where
  "clock_ok idle s \<longleftrightarrow>
     ic_idle (tm_clock s) = idle \<and> ic_last (tm_clock s) \<le> tm_now s \<and> 0 \<le> tm_slack s
     \<and> (\<forall>x. times_ok idle (tm_now s) (tm_at s x) (tm_rd s x) \<and> tm_at s x \<le> tm_now s
          \<and> (touching (tm_rd s x) \<or> tm_at s x \<le> ic_last (tm_clock s) + tm_slack s))"

definition flight_ok :: "timed \<Rightarrow> bool" where
  "flight_ok s \<longleftrightarrow>
     (\<forall>x. in_flight (tm_rd s x) \<longrightarrow> ps_open (tm_pump s) \<or> 0 < pd_buf (ps_dir (tm_pump s) x))"

text \<open>
  What the connections have given has been passed on, is being written, or is still with the reader; and
  the latest error is where the latest bytes are.
\<close>

fun held_bytes :: "reader \<Rightarrow> string" where
  "held_bytes (Stamping chunk _) = chunk"
| "held_bytes (Storing chunk _ _) = chunk"
| "held_bytes (Answered chunk _) = chunk"
| "held_bytes _ = []"

fun held_error :: "reader \<Rightarrow> net_error option option" where
  "held_error (Stamping _ err) = Some err"
| "held_error (Storing _ err _) = Some err"
| "held_error (Judging err) = Some err"
| "held_error (Comparing _) = Some (Some Timeout)"
| "held_error (Answered _ err) = Some err"
| "held_error _ = None"

fun writing :: "dir_pc \<Rightarrow> string" where
  "writing (Writing chunk _) = chunk"
| "writing _ = []"

definition bytes_of :: "(string \<times> 'e option) list \<Rightarrow> string" where
  "bytes_of rs = concat (map fst rs)"

definition last_error :: "(string \<times> 'e option) list \<Rightarrow> 'e option \<Rightarrow> bool" where
  "last_error rs e \<longleftrightarrow> rs \<noteq> [] \<and> snd (last rs) = e"

definition relays :: "(string \<times> net_error option) list \<Rightarrow> reader \<Rightarrow> direction \<Rightarrow> bool" where
  "relays got rd d \<longleftrightarrow>
     bytes_of (pd_in d) @ writing (pd_pc d) @ held_bytes rd = bytes_of got
     \<and> (case pd_pc d of
          Copying \<Rightarrow> \<forall>e. held_error rd = Some e \<longrightarrow> last_error got e
        | Writing _ er \<Rightarrow> rd = Arming \<and> (\<exists>e. last_error got e \<and> er = map_option net_text e)
        | _ \<Rightarrow> rd = Arming \<and> (\<exists>e. last_error got e \<and> last_error (pd_in d) (map_option net_text e)))"

definition timed_inv :: "int \<Rightarrow> int \<Rightarrow> conn \<Rightarrow> conn \<Rightarrow> timed \<Rightarrow> bool" where
  "timed_inv idle limit client upstream s \<longleftrightarrow>
     pump_inv limit client upstream (tm_pump s) \<and> clock_ok idle s \<and> flight_ok s
     \<and> (\<forall>x. relays (tm_got s x) (tm_rd s x) (ps_dir (tm_pump s) x))"

lemma dir_ok_buf: "dir_ok limit c opened (d\<lparr>pd_buf := b\<rparr>) = dir_ok limit c opened d"
  by (simp add: dir_ok_def)

lemma pump_inv_buf: "pump_inv limit client upstream (with_buf f p) = pump_inv limit client upstream p"
  by (simp add: pump_inv_def dir_ok_buf settled_dir_def pump_return_def)

lemma kept_inv: "pump_inv limit client upstream p \<Longrightarrow> pump_inv limit client upstream (kept s p)"
  by (simp add: kept_def pump_inv_buf)

lemma kept_flight:
  assumes "flight_ok s" "\<And>x. pd_buf (ps_dir p x) = pd_buf (ps_dir (tm_pump s) x)"
    and "ps_open p \<longrightarrow> ps_open (tm_pump s)"
  shows "flight_ok (s\<lparr>tm_pump := kept s p\<rparr>)"
  using assms by (auto simp: flight_ok_def kept_def)

lemma own_keeps_buf:
  assumes "pump_own p q" "\<And>x. pd_pc (ps_dir p x) = Copying \<Longrightarrow> pd_pc (ps_dir q x) = Copying"
  shows "pd_buf (ps_dir q x) = pd_buf (ps_dir p x)"
  using assms
proof (induction rule: pump_own.induct)
  case (reads p y r)
  from reads(3) [of y] reads(1) show ?case by (simp add: with_dir_def dir_read_def)
qed (auto simp: with_dir_def dir_store_def dir_post_def closeBoth_def Let_def)

lemma times_ok_later: "times_ok idle now gave r \<Longrightarrow> now \<le> t \<Longrightarrow> times_ok idle t gave r"
  by (cases r) auto

lemma clock_ok_reader:
  "clock_ok idle s \<Longrightarrow> times_ok idle (tm_now s) (tm_at s x) r \<Longrightarrow> touching r \<or> \<not> touching (tm_rd s x) \<Longrightarrow>
     clock_ok idle (with_rd x r s)"
  by (auto simp: clock_ok_def)

lemma clock_ok_pump: "clock_ok idle (s\<lparr>tm_pump := p\<rparr>) = clock_ok idle s"
  by (simp add: clock_ok_def)

lemma flight_ok_reader:
  "flight_ok s \<Longrightarrow> (in_flight r \<Longrightarrow> ps_open (tm_pump s) \<or> 0 < pd_buf (ps_dir (tm_pump s) x)) \<Longrightarrow> flight_ok (with_rd x r s)"
  by (simp add: flight_ok_def)

lemma clock_ok_stored:
  assumes "clock_ok idle s" "tm_rd s x = Storing chunk err t"
  shows "clock_ok idle (stored x chunk err t s)"
proof -
  have t: "tm_at s x \<le> t" "t \<le> tm_now s" using assms by (auto simp: clock_ok_def dest: spec [of _ x])
  have "tm_at s y \<le> t + max (tm_slack s) (tm_now s - tm_at s x)" for y
  proof -
    have "tm_at s y \<le> tm_now s" using assms(1) by (simp add: clock_ok_def)
    with t show ?thesis by simp
  qed
  with t assms(1) show ?thesis by (auto simp: clock_ok_def stored_def touch_def)
qed

section \<open>Nothing is lost between a connection and its copy\<close>

lemma last_error_unique: "last_error rs e \<Longrightarrow> last_error rs e' \<Longrightarrow> e = e'"
  by (simp add: last_error_def)

lemma last_error_snoc [simp]: "last_error (rs @ [(c, e)]) e' \<longleftrightarrow> e = e'"
  by (simp add: last_error_def)

lemma bytes_of_snoc [simp]: "bytes_of (rs @ [(c, e)]) = bytes_of rs @ c"
  by (simp add: bytes_of_def)

lemma relays_reader:
  assumes "relays got rd d" "pd_pc d = Copying" "held_bytes rd' = held_bytes rd"
    and "held_error rd' = held_error rd \<or> held_error rd' = None"
  shows "relays got rd' d"
  using assms by (auto simp: relays_def)

lemma relays_copying: "relays got rd d \<Longrightarrow> rd \<noteq> Arming \<Longrightarrow> pd_pc d = Copying"
  by (auto simp: relays_def split: dir_pc.splits)

lemma relays_close [simp]: "relays got rd (dir_close d) = relays got rd d"
  by (simp add: relays_def split: dir_pc.split)

lemma relays_buf [simp]: "relays got rd (d\<lparr>pd_buf := b\<rparr>) = relays got rd d"
  by (simp add: relays_def split: dir_pc.split)

lemma relays_answer:
  assumes "relays got (Reading dl) d"
  shows "relays (got @ [(chunk, err)]) (after_read chunk err) d"
  using assms relays_copying [OF assms] by (auto simp: relays_def after_read_def)

lemma relays_read:
  assumes "relays got (Answered chunk err) d"
  shows "relays got Arming (dir_read opened (chunk, map_option net_text err) d)"
  using assms relays_copying [OF assms] by (auto simp: relays_def dir_read_def)

lemma relays_write:
  assumes "relays got rd d" "pd_pc d = Writing chunk er"
  shows "relays got rd (dir_pass (chunk, er) Copying d)"
proof -
  have "er = None" if "pd_pc (dir_pass (chunk, er) Copying d) \<noteq> Ended"
    using that dir_pass_failed [of "(chunk, er)" Copying d] by (cases er) auto
  with assms dir_pass_pc [of "(chunk, er)" Copying d] show ?thesis by (auto simp: relays_def)
qed

lemma relays_take:
  assumes "relays got rd d" "pd_pc d = Writing chunk er"
    and "pd_pc (dir_pass (take k chunk, None) (Writing (drop k chunk) er) d) \<noteq> Ended"
  shows "relays got rd (dir_pass (take k chunk, None) (Writing (drop k chunk) er) d)"
  using assms dir_pass_pc [of "(take k chunk, None)" "Writing (drop k chunk) er" d]
  by (auto simp: relays_def)

lemma relays_own:
  assumes "pump_own p q" "\<And>x. pd_pc (ps_dir p x) = Copying \<Longrightarrow> pd_pc (ps_dir q x) = Copying"
    and "\<And>x. relays (got x) (rd x) (ps_dir p x)"
  shows "relays (got x) (rd x) (ps_dir q x)"
  using assms
proof (induction rule: pump_own.induct)
  case (reads p y r)
  from reads(3) [of y] reads(1) show ?case by (simp add: with_dir_def dir_read_def)
next
  case (writes p y chunk er)
  then show ?case by (simp add: with_dir_def relays_write)
next
  case (takes p y chunk er k)
  then show ?case by (simp add: with_dir_def relays_take)
next
  case (stores p y)
  then show ?case
    using stores(3) [of y] by (auto simp: with_dir_def dir_store_def Let_def relays_def)
next
  case (posts p y)
  then show ?case
    using posts(3) [of y] by (auto simp: with_dir_def dir_post_def relays_def)
qed (simp_all add: closeBoth_def)

lemma relays_kept: "relays got rd (ps_dir (kept s p) x) = relays got rd (ps_dir p x)"
  by (simp add: kept_def)

section \<open>Every step keeps the invariant\<close>

lemma inv_relays:
  "timed_inv idle limit client upstream s \<Longrightarrow> tm_rd s x = r \<Longrightarrow> relays (tm_got s x) r (ps_dir (tm_pump s) x)"
  by (auto simp: timed_inv_def)

lemma inv_times:
  assumes "timed_inv idle limit client upstream s" "tm_rd s x = r"
  shows "times_ok idle (tm_now s) (tm_at s x) r" "ic_idle (tm_clock s) = idle" "ic_last (tm_clock s) \<le> tm_now s"
    "in_flight r \<Longrightarrow> ps_open (tm_pump s) \<or> 0 < pd_buf (ps_dir (tm_pump s) x)" "tm_at s x \<le> tm_now s"
    "touching r \<or> tm_at s x \<le> ic_last (tm_clock s) + tm_slack s"
  using assms by (auto simp: timed_inv_def clock_ok_def flight_ok_def)

lemma inv_read:
  assumes "timed_inv idle limit client upstream s" "tm_rd s x = Answered chunk err"
    and "pd_pc (ps_dir (tm_pump s) x) = Copying"
  shows "timed_inv idle limit client upstream ((with_rd x Arming s)\<lparr>tm_pump := read_of x chunk err (tm_pump s)\<rparr>)"
proof -
  have "pump_inv limit client upstream (read_of x chunk err (tm_pump s))"
    using assms by (simp add: timed_inv_def read_of_def pump_inv_read)
  moreover have "flight_ok ((with_rd x Arming s)\<lparr>tm_pump := read_of x chunk err (tm_pump s)\<rparr>)"
    using assms(1) by (simp add: timed_inv_def flight_ok_def read_of_def with_dir_def)
  moreover have "relays (tm_got s x) Arming (dir_read (ps_open (tm_pump s)) (chunk, map_option net_text err) (ps_dir (tm_pump s) x))"
    using inv_relays [OF assms(1,2)] by (rule relays_read)
  moreover have "tm_at s x \<le> ic_last (tm_clock s) + tm_slack s" using inv_times(6) [OF assms(1,2)] by simp
  ultimately show ?thesis using assms(1) by (simp add: timed_inv_def clock_ok_def read_of_def with_dir_def)
qed

lemma inv_kept:
  assumes "timed_inv idle limit client upstream s" "pump_inv limit client upstream p"
    and "\<And>x. pd_buf (ps_dir p x) = pd_buf (ps_dir (tm_pump s) x)" "ps_open p \<longrightarrow> ps_open (tm_pump s)"
    and "\<And>x. relays (tm_got s x) (tm_rd s x) (ps_dir p x)"
  shows "timed_inv idle limit client upstream (s\<lparr>tm_pump := kept s p\<rparr>)"
  using assms kept_inv kept_flight by (simp add: timed_inv_def clock_ok_pump relays_kept)

lemma inv_reader:
  assumes "timed_inv idle limit client upstream s" "times_ok idle (tm_now s) (tm_at s x) r"
    and "touching r \<or> \<not> touching (tm_rd s x)"
    and "in_flight r \<Longrightarrow> ps_open (tm_pump s) \<or> 0 < pd_buf (ps_dir (tm_pump s) x)"
    and "relays (tm_got s x) r (ps_dir (tm_pump s) x)"
  shows "timed_inv idle limit client upstream (with_rd x r s)"
  using assms by (simp add: timed_inv_def clock_ok_reader flight_ok_reader)

lemma inv_own: "timed_own s t \<Longrightarrow> timed_inv idle limit client upstream s \<Longrightarrow> timed_inv idle limit client upstream t"
proof (induction rule: timed_own.induct)
  case (arms s x)
  have "relays (tm_got s x) (Reading (armed (tm_clock s))) (ps_dir (tm_pump s) x)"
    by (rule relays_reader [OF inv_relays [OF arms(3,1)] arms(2)]) simp_all
  with arms inv_times [OF arms(3,1)] show ?case by (intro inv_reader) (simp_all add: armed_def deadline_def)
next
  case (stamps s x chunk err)
  note rel = inv_relays [OF stamps(2,1)]
  have "relays (tm_got s x) (Storing chunk err (tm_now s)) (ps_dir (tm_pump s) x)"
    using relays_copying [OF rel] by (intro relays_reader [OF rel]) simp_all
  with stamps inv_times [OF stamps(2,1)] show ?case by (intro inv_reader) simp_all
next
  case (stores s x chunk err t)
  note rel = inv_relays [OF stores(2,1)]
  have "relays (tm_got s x) (Answered chunk err) (ps_dir (tm_pump s) x)"
    using relays_copying [OF rel] by (intro relays_reader [OF rel]) simp_all
  moreover have "flight_ok (stored x chunk err t s)"
    using stores inv_times(4) [OF stores(2,1)] by (simp add: timed_inv_def flight_ok_def stored_def)
  ultimately show ?case
    using stores clock_ok_stored [of idle s x chunk err t] by (simp add: timed_inv_def) (simp add: stored_def)
next
  case (judges s x err)
  note rel = inv_relays [OF judges(2,1)]
  have "relays (tm_got s x) (after_judge (tm_clock s) (tm_now s) err) (ps_dir (tm_pump s) x)"
    using relays_copying [OF rel] by (intro relays_reader [OF rel]) (auto simp: after_judge_def isTimeout_def)
  with judges inv_times [OF judges(2,1)] show ?case
    by (intro inv_reader) (simp_all add: after_judge_def split: if_splits)
next
  case (compares s x t)
  note rel = inv_relays [OF compares(2,1)]
  have "relays (tm_got s x) (after_compare (tm_clock s) t) (ps_dir (tm_pump s) x)"
    using relays_copying [OF rel] by (intro relays_reader [OF rel]) (auto simp: after_compare_def)
  with compares show ?case by (intro inv_reader) (simp_all add: after_compare_def split: if_splits)
next
  case (copies s x chunk err)
  then show ?case by (intro inv_read)
next
  case (proceeds s p)
  have "pump_inv limit client upstream p" using pump_inv_own [OF proceeds(1)] proceeds(3) by (simp add: timed_inv_def)
  moreover have "relays (tm_got s x) (tm_rd s x) (ps_dir p x)" for x
    using relays_own [OF proceeds(1,2)] proceeds(3) by (simp add: timed_inv_def)
  ultimately show ?case
    using proceeds(3) own_keeps_buf [OF proceeds(1,2)] pump_own_shut [OF proceeds(1)] by (intro inv_kept) auto
qed

lemma inv_answer:
  assumes "timed_inv idle limit client upstream s" "tm_rd s x = Reading dl"
    and "ps_open (tm_pump s) \<or> err \<noteq> None \<or> 0 < pd_buf (ps_dir (tm_pump s) x)"
  shows "timed_inv idle limit client upstream (with_rd x (after_read chunk err) (given x chunk err s))"
proof -
  note rel = relays_answer [OF inv_relays [OF assms(1,2)], of chunk err]
  have "flight_ok (with_rd x (after_read chunk err) (given x chunk err s))"
    using assms by (auto simp: timed_inv_def flight_ok_def after_read_def)
  moreover have "clock_ok idle (with_rd x (after_read chunk err) (given x chunk err s))"
    using assms(1,2) by (auto simp: timed_inv_def clock_ok_def after_read_def given_def dest: spec [of _ x])
  ultimately show ?thesis using assms(1) rel by (simp add: timed_inv_def) (simp add: given_def)
qed

lemma inv_step: "timed_step s t \<Longrightarrow> timed_inv idle limit client upstream s \<Longrightarrow> timed_inv idle limit client upstream t"
proof (induction rule: timed_step.induct)
  case (own s t)
  then show ?case by (rule inv_own)
next
  case (ticks s t)
  have "times_ok idle t (tm_at s x) (tm_rd s x) \<and> tm_at s x \<le> t \<and> ic_last (tm_clock s) \<le> t" for x
    using times_ok_later [OF inv_times(1) [OF ticks(2) refl] ticks(1)] inv_times(3,5) [OF ticks(2) refl [of "tm_rd s x"]] ticks(1)
    by simp
  with ticks show ?case by (simp add: timed_inv_def clock_ok_def flight_ok_def)
next
  case (answers s x dl err chunk)
  then show ?case by (intro inv_answer)
next
  case (shut_down s)
  then have "pump_inv limit client upstream (closeBoth (tm_pump s))" by (simp add: timed_inv_def pump_inv_close)
  moreover have "relays (tm_got s x) (tm_rd s x) (ps_dir (closeBoth (tm_pump s)) x)" for x
    using shut_down by (simp add: timed_inv_def closeBoth_def)
  ultimately show ?case using shut_down by (intro inv_kept) (simp_all add: closeBoth_def)
qed

lemma inv_reachable:
  assumes "timed_reachable (timed_init idle now limit client upstream buf) s"
  shows "timed_inv idle limit client upstream s"
  using assms
proof (induction rule: timed_reachable.induct)
  case start
  show ?case
    using pump_init_inv
    by (simp add: timed_inv_def timed_init_def clock_ok_def flight_ok_def newIdleClock_def)
      (simp add: relays_def pump_init_def bytes_of_def)
next
  case (step s t)
  then show ?case using inv_step by blast
qed

end
