(* ===== verification/IdleLive.thy ===== *)
theory IdleLive
  imports IdlePump
begin

text \<open>
  An idle tunnel ends: what the two readers, the copies and the caller of \<open>pump\<close> do by themselves when
  no more bytes come in. A write waits for its peer, so the steps that take bytes from a copy are
  the world's.
\<close>

section \<open>A tunnel that receives no more\<close>

text \<open>
  What happens without any help: the actions of the readers, those of \<open>pump\<close> that no peer can hold
  up, and a read that ends, on an open connection at its deadline, on a closed one at once.
\<close>

inductive timed_prompt :: "timed \<Rightarrow> timed \<Rightarrow> bool" where
  reader: "timed_own s t \<Longrightarrow> tm_rd t \<noteq> tm_rd s \<Longrightarrow> timed_prompt s t"
| pump: "pump_must (tm_pump s) p \<Longrightarrow>
     (\<And>x. pd_pc (ps_dir (tm_pump s) x) = Copying \<Longrightarrow> pd_pc (ps_dir p x) = Copying) \<Longrightarrow>
     timed_prompt s (s\<lparr>tm_pump := kept s p\<rparr>)"
| times_out: "tm_rd s x = Reading (Some d) \<Longrightarrow> ps_open (tm_pump s) \<Longrightarrow> d \<le> tm_now s \<Longrightarrow>
     timed_prompt s (with_rd x (Judging (Some Timeout)) (given x [] (Some Timeout) s))"
| fails: "tm_rd s x = Reading dl \<Longrightarrow> \<not> ps_open (tm_pump s) \<Longrightarrow>
     timed_prompt s (with_rd x (Judging (Some (OtherError m))) (given x [] (Some (OtherError m)) s))"

text \<open>
  Time passes while nothing else happens, and no deadline is overslept: the gate's own actions are
  taken to be quick, as against the idle period.
\<close>

inductive timed_must :: "timed \<Rightarrow> timed \<Rightarrow> bool" where
  prompt: "timed_prompt s t \<Longrightarrow> timed_must s t"
| ticks: "(\<And>u. \<not> timed_prompt s u) \<Longrightarrow> tm_now s < t \<Longrightarrow> (\<And>x d. tm_rd s x = Reading (Some d) \<Longrightarrow> t \<le> d) \<Longrightarrow>
     timed_must s (s\<lparr>tm_now := t\<rparr>)"

text \<open>
  What may happen besides: a peer takes some or all of what is being written to it, a connection breaks, \<open>Shutdown\<close> closes
  the connections.
\<close>

inductive timed_unfed :: "timed \<Rightarrow> timed \<Rightarrow> bool" where
  own: "timed_own s t \<Longrightarrow> timed_unfed s t"
| breaks: "tm_rd s x = Reading dl \<Longrightarrow>
     timed_unfed s (with_rd x (Judging (Some (OtherError m))) (given x [] (Some (OtherError m)) s))"
| shut_down: "ps_open (tm_pump s) \<Longrightarrow> timed_unfed s (s\<lparr>tm_pump := kept s (closeBoth (tm_pump s))\<rparr>)"

text \<open>A direction with bytes in hand, which its copy must get rid of before it reads again.\<close>

definition laden :: "timed \<Rightarrow> side \<Rightarrow> bool" where
  "laden s x \<longleftrightarrow> held_bytes (tm_rd s x) \<noteq> [] \<or> writing (pd_pc (ps_dir (tm_pump s) x)) \<noteq> []"

lemma prompt_step: "timed_prompt s t \<Longrightarrow> timed_step s t"
proof (induction rule: timed_prompt.induct)
  case (pump s p)
  then show ?case by (intro timed_step.own timed_own.proceeds pump_must_own)
next
  case (times_out s x d)
  then show ?case using timed_step.answers [of s x "Some d" "Some Timeout" "[]"] by (simp add: after_read_def)
next
  case (fails s x dl m)
  then show ?case using timed_step.answers [of s x dl "Some (OtherError m)" "[]"] by (simp add: after_read_def)
qed (rule timed_step.own)

lemma must_step: "timed_must s t \<Longrightarrow> timed_step s t"
  by (induction rule: timed_must.induct) (auto intro: prompt_step timed_step.ticks)

lemma unfed_step: "timed_unfed s t \<Longrightarrow> timed_step s t"
proof (induction rule: timed_unfed.induct)
  case (breaks s x dl m)
  then show ?case using timed_step.answers [of s x dl "Some (OtherError m)" "[]"] by (simp add: after_read_def)
qed (auto intro: timed_step.intros)

section \<open>What is left to do\<close>

fun reader_load :: "reader \<Rightarrow> nat" where
  "reader_load (Stamping chunk _) = 15 + length chunk"
| "reader_load (Storing chunk _ _) = 14 + length chunk"
| "reader_load (Answered chunk err) = 10 + length chunk + (if err = None then 3 else 0)"
| "reader_load (Judging err) = (if err = None then 13 else 10)"
| "reader_load _ = 10"

fun dir_load :: "reader \<Rightarrow> dir_pc \<Rightarrow> nat" where
  "dir_load rd Copying = reader_load rd"
| "dir_load rd (Writing chunk er) = (if er = None then 11 else 3) + length chunk"
| "dir_load rd Ended = 2"
| "dir_load rd Stored = 1"
| "dir_load rd Posted = 0"

definition load :: "timed \<Rightarrow> nat" where
  "load s = dir_load (tm_rd s Up) (pd_pc (ps_dir (tm_pump s) Up)) + dir_load (tm_rd s Down) (pd_pc (ps_dir (tm_pump s) Down))
     + main_work (ps_main (tm_pump s)) + (if ps_open (tm_pump s) then 1 else 0)"

text \<open>Between two ticks, a reader without bytes goes once round its loop, or twice if the clock moved.\<close>

fun rank :: "int \<Rightarrow> int \<Rightarrow> reader \<Rightarrow> nat" where
  "rank now dl (Answered _ _) = 0"
| "rank now dl (Stamping _ _) = 0"
| "rank now dl (Storing _ _ _) = 0"
| "rank now dl (Judging e) = (if isTimeout e then (if now < dl then 5 else 3) else 1)"
| "rank now dl (Reading d) =
     (case d of None \<Rightarrow> 2 | Some d \<Rightarrow> if d \<le> now then (if now < dl then 6 else 4) else (if now < dl then 2 else 4))"
| "rank now dl Arming = (if now < dl then 3 else 5)"
| "rank now dl (Comparing t) = (if now < dl then 4 else if t < dl then 6 else 2)"

definition ranks :: "timed \<Rightarrow> nat" where
  "ranks s = rank (tm_now s) (deadline (tm_clock s)) (tm_rd s Up) + rank (tm_now s) (deadline (tm_clock s)) (tm_rd s Down)"

definition less_left :: "timed \<Rightarrow> timed \<Rightarrow> bool" where
  "less_left t s \<longleftrightarrow> tm_now t = tm_now s \<and> (load t < load s \<or> load t = load s \<and> ranks t < ranks s)"

lemma less_left_load:
  assumes "tm_now t = tm_now s" "tm_pump t = tm_pump s" "\<And>y. y \<noteq> x \<Longrightarrow> tm_rd t y = tm_rd s y"
    and "pd_pc (ps_dir (tm_pump s) x) = Copying" "reader_load (tm_rd t x) < reader_load (tm_rd s x)"
  shows "less_left t s"
  using assms(1,2,4,5) assms(3) [of Up] assms(3) [of Down] by (cases x) (simp_all add: less_left_def load_def)

lemma less_left_rank:
  assumes "tm_now t = tm_now s" "tm_pump t = tm_pump s" "\<And>y. y \<noteq> x \<Longrightarrow> tm_rd t y = tm_rd s y" "tm_clock t = tm_clock s"
    and "reader_load (tm_rd t x) = reader_load (tm_rd s x)" "pd_pc (ps_dir (tm_pump s) x) = Copying"
    and "rank (tm_now s) (deadline (tm_clock s)) (tm_rd t x) < rank (tm_now s) (deadline (tm_clock s)) (tm_rd s x)"
  shows "less_left t s"
  using assms(1,2,4-) assms(3) [of Up] assms(3) [of Down] by (cases x) (simp_all add: less_left_def load_def ranks_def)

lemma less_left_dir:
  assumes "tm_now t = tm_now s" "\<And>y. y \<noteq> x \<Longrightarrow> tm_rd t y = tm_rd s y \<and> pd_pc (ps_dir (tm_pump t) y) = pd_pc (ps_dir (tm_pump s) y)"
    and "ps_main (tm_pump t) = ps_main (tm_pump s)" "ps_open (tm_pump t) = ps_open (tm_pump s)"
    and "dir_load (tm_rd t x) (pd_pc (ps_dir (tm_pump t) x)) < dir_load (tm_rd s x) (pd_pc (ps_dir (tm_pump s) x))"
  shows "less_left t s"
  using assms(1,3-) assms(2) [of Up] assms(2) [of Down] by (cases x) (simp_all add: less_left_def load_def)

section \<open>Within one idle period\<close>

fun in_time :: "int \<Rightarrow> int \<Rightarrow> int \<Rightarrow> reader \<Rightarrow> bool" where
  "in_time T idle now (Reading dl) = (\<forall>d. dl = Some d \<longrightarrow> d \<le> T)"
| "in_time T idle now (Stamping _ _) = (now + idle \<le> T)"
| "in_time T idle now (Storing _ _ t) = (t + idle \<le> T)"
| "in_time T idle now _ = True"

definition on_time :: "int \<Rightarrow> timed \<Rightarrow> bool" where
  "on_time T s \<longleftrightarrow>
     tm_now s \<le> T \<and> deadline (tm_clock s) \<le> T
     \<and> (\<forall>x. in_time T (ic_idle (tm_clock s)) (tm_now s) (tm_rd s x)) \<and> (\<exists>x. \<not> laden s x)"

text \<open>The actions of a reader.\<close>

lemma on_time_reader:
  assumes "on_time T s" "in_time T (ic_idle (tm_clock s)) (tm_now s) r" "held_bytes r = [] \<or> laden s x"
  shows "on_time T (with_rd x r s)"
proof -
  have "\<exists>y. \<not> laden (with_rd x r s) y"
  proof -
    obtain y where y: "\<not> laden s y" using assms(1) by (auto simp: on_time_def)
    then have "\<not> laden (with_rd x r s) y" using assms(3) by (cases "y = x") (auto simp: laden_def)
    then show ?thesis by blast
  qed
  with assms(1,2) show ?thesis by (simp add: on_time_def)
qed

lemma on_time_given: "on_time T (given x chunk err s) = on_time T s"
  by (simp add: on_time_def laden_def)

lemma on_time_pump:
  assumes "on_time T s" "\<And>x. writing (pd_pc (ps_dir p x)) = [] \<or> laden s x"
  shows "on_time T (s\<lparr>tm_pump := kept s p\<rparr>)"
proof -
  have "pd_pc (ps_dir (kept s p) x) = pd_pc (ps_dir p x)" for x by (simp add: kept_def)
  with assms show ?thesis by (auto simp: on_time_def laden_def)
qed

lemma unladen_own:
  assumes "pump_own p q" "\<And>x. pd_pc (ps_dir p x) = Copying \<Longrightarrow> pd_pc (ps_dir q x) = Copying"
  shows "writing (pd_pc (ps_dir q x)) = [] \<or> writing (pd_pc (ps_dir p x)) \<noteq> []"
  using assms
proof (induction rule: pump_own.induct)
  case (reads p y r)
  from reads(3) [of y] reads(1) show ?case by (simp add: with_dir_def dir_read_def)
next
  case (writes p y chunk er)
  then show ?case using dir_pass_pc [of "(chunk, er)" Copying "ps_dir p y"] by (auto simp: with_dir_def)
next
  case (takes p y chunk er k)
  then show ?case
    using dir_pass_pc [of "(take k chunk, None)" "Writing (drop k chunk) er" "ps_dir p y"]
    by (auto simp: with_dir_def)
qed (auto simp: with_dir_def dir_store_def dir_post_def closeBoth_def Let_def)

text \<open>An action of \<open>pump\<close> that reads nothing.\<close>

lemma load_own:
  assumes "pump_own (tm_pump s) q" "\<And>x. pd_pc (ps_dir (tm_pump s) x) = Copying \<Longrightarrow> pd_pc (ps_dir q x) = Copying"
    and "\<And>x. pd_pc (ps_dir (tm_pump s) x) \<noteq> Copying \<Longrightarrow> tm_rd s x = Arming"
  shows "less_left (s\<lparr>tm_pump := kept s q\<rparr>) s"
proof -
  have k: "ps_main (kept s q) = ps_main q" "ps_open (kept s q) = ps_open q"
    "pd_pc (ps_dir (kept s q) x) = pd_pc (ps_dir q x)" for x by (simp_all add: kept_def)
  have copy: "less_left (s\<lparr>tm_pump := kept s q\<rparr>) s"
    if "q = with_dir x d p'" "ps_dir p' = ps_dir (tm_pump s)" "ps_main p' = ps_main (tm_pump s)" "ps_open p' = ps_open (tm_pump s)"
      "dir_load (tm_rd s x) (pd_pc d) < dir_load (tm_rd s x) (pd_pc (ps_dir (tm_pump s) x))" for x d p'
    using that k by (intro less_left_dir [of _ _ x]) (simp_all add: with_dir_def)
  from assms(1) show ?thesis
  proof cases
    case (reads x r)
    with assms(2) [of x] show ?thesis by (simp add: with_dir_def dir_read_def)
  next
    case (writes x chunk er)
    have rd: "tm_rd s x = Arming" using assms(3) writes(2) by simp
    have "dir_load Arming (pd_pc (dir_pass (chunk, er) Copying (ps_dir (tm_pump s) x))) < dir_load Arming (Writing chunk er)"
    proof (cases er)
      case None
      with dir_pass_pc [of "(chunk, er)" Copying "ps_dir (tm_pump s) x"] show ?thesis by auto
    next
      case (Some e)
      with dir_pass_failed [of "(chunk, er)" Copying "ps_dir (tm_pump s) x"] show ?thesis by simp
    qed
    with writes rd show ?thesis by (intro copy [OF writes(1)]) simp_all
  next
    case (takes x chunk er k)
    then show ?thesis
      using dir_pass_pc [of "(take k chunk, None)" "Writing (drop k chunk) er" "ps_dir (tm_pump s) x"]
      by (intro copy [OF takes(1)]) auto
  next
    case (stores x)
    then show ?thesis by (intro copy [OF stores(1) [unfolded dir_store_def Let_def]]) simp_all
  next
    case (posts x)
    then show ?thesis by (intro copy [OF posts(1) [unfolded dir_post_def]]) simp_all
  qed (simp_all add: less_left_def load_def kept_def closeBoth_def pump_return_def)
qed

lemma inv_arming:
  "timed_inv idle limit client upstream s \<Longrightarrow> pd_pc (ps_dir (tm_pump s) x) \<noteq> Copying \<Longrightarrow> tm_rd s x = Arming"
  using relays_copying inv_relays by blast

lemma inv_copying:
  "timed_inv idle limit client upstream s \<Longrightarrow> tm_rd s x \<noteq> Arming \<Longrightarrow> pd_pc (ps_dir (tm_pump s) x) = Copying"
  using inv_arming by blast

text \<open>Every action of the gate uses up some of what is left, and keeps to the time.\<close>

lemma own_left:
  assumes "timed_own s t" "timed_inv idle limit client upstream s" "0 < idle" "on_time T s"
  shows "on_time T t \<and> less_left t s"
  using assms
proof (induction rule: timed_own.induct)
  case (arms s x)
  note i = inv_times [OF arms(3,1)]
  have "on_time T (with_rd x (Reading (armed (tm_clock s))) s)"
    using arms by (intro on_time_reader) (auto simp: armed_def on_time_def split: if_splits)
  with arms i(2) show ?case by (intro conjI less_left_rank [of _ _ x]) (auto simp: armed_def)
next
  case (stamps s x chunk err)
  note c = inv_copying [OF stamps(2), of x]
  have "in_time T (ic_idle (tm_clock s)) (tm_now s) (Stamping chunk err)"
    using stamps(1,4) by (metis on_time_def)
  then have "on_time T (with_rd x (Storing chunk err (tm_now s)) s)"
    using stamps by (intro on_time_reader) (simp_all add: laden_def)
  with stamps c show ?case by (intro conjI less_left_load [of _ _ x]) simp_all
next
  case (stores s x chunk err t)
  note c = inv_copying [OF stores(2), of x]
  have d: "t + ic_idle (tm_clock s) \<le> T" using stores(1,4) by (metis on_time_def in_time.simps(3))
  have "on_time T (with_rd x (Answered chunk err) s)"
    using stores by (intro on_time_reader) (simp_all add: laden_def)
  with d have "on_time T (stored x chunk err t s)"
    by (simp add: stored_def on_time_def touch_def deadline_def laden_def)
  with stores c show ?case by (intro conjI less_left_load [of _ _ x]) (simp_all add: stored_def)
next
  case (judges s x err)
  note c = inv_copying [OF judges(2), of x] and i = inv_times [OF judges(2,1)]
  have "on_time T (with_rd x (after_judge (tm_clock s) (tm_now s) err) s)"
    using judges by (intro on_time_reader) (simp_all add: after_judge_def)
  with judges c i(2) show ?case
    by (intro conjI less_left_rank [of _ _ x]) (auto simp: after_judge_def isTimeout_def)
next
  case (compares s x t)
  note c = inv_copying [OF compares(2), of x] and i = inv_times [OF compares(2,1)]
  have "on_time T (with_rd x (after_compare (tm_clock s) t) s)"
    using compares by (intro on_time_reader) (simp_all add: after_compare_def)
  with compares c i(1) show ?case
    by (intro conjI less_left_rank [of _ _ x]) (auto simp: after_compare_def)
next
  case (copies s x chunk err)
  let ?t = "(with_rd x Arming s)\<lparr>tm_pump := read_of x chunk err (tm_pump s)\<rparr>"
  have "\<exists>y. \<not> laden ?t y"
  proof -
    obtain y where "\<not> laden s y" using copies(6) by (auto simp: on_time_def)
    then have "\<not> laden ?t y" using copies(1)
      by (cases "y = x") (simp_all add: laden_def read_of_def with_dir_def dir_read_def)
    then show ?thesis by blast
  qed
  with copies(6) have "on_time T ?t" by (simp add: on_time_def)
  moreover have "less_left ?t s"
    using copies by (intro less_left_dir [of _ _ x]) (auto simp: read_of_def with_dir_def dir_read_def)
  ultimately show ?case by blast
next
  case (proceeds s p)
  have "on_time T (s\<lparr>tm_pump := kept s p\<rparr>)"
    using unladen_own [OF proceeds(1,2)] proceeds(5) by (intro on_time_pump) (auto simp: laden_def)
  moreover have "less_left (s\<lparr>tm_pump := kept s p\<rparr>) s"
    using inv_arming [OF proceeds(3)] by (intro load_own [OF proceeds(1,2)])
  ultimately show ?case by blast
qed

lemma read_left:
  assumes "tm_rd s x = Reading dl" "timed_inv idle limit client upstream s" "on_time T s"
    and "isTimeout (Some e) \<Longrightarrow> \<exists>d. dl = Some d \<and> d \<le> tm_now s"
  shows "on_time T (with_rd x (Judging (Some e)) (given x [] (Some e) s))
    \<and> less_left (with_rd x (Judging (Some e)) (given x [] (Some e) s)) s"
proof -
  have "pd_pc (ps_dir (tm_pump s) x) = Copying" using inv_copying [OF assms(2)] assms(1) by simp
  with assms show ?thesis
    by (intro conjI on_time_reader less_left_rank [of _ _ x])
      (auto simp: on_time_given isTimeout_def split: option.split)
qed

lemma prompt_left:
  assumes "timed_prompt s t" "timed_inv idle limit client upstream s" "0 < idle" "on_time T s"
  shows "on_time T t \<and> less_left t s"
  using assms
proof (induction rule: timed_prompt.induct)
  case (reader s t)
  then show ?case by (intro own_left)
next
  case (pump s p)
  then show ?case by (intro own_left timed_own.proceeds pump_must_own)
next
  case (times_out s x d)
  then show ?case by (intro read_left) auto
next
  case (fails s x dl m)
  then show ?case by (intro read_left) (auto simp: isTimeout_def)
qed

lemma unfed_left:
  assumes "timed_unfed s t" "timed_inv idle limit client upstream s" "0 < idle" "on_time T s"
  shows "on_time T t \<and> less_left t s"
  using assms
proof (induction rule: timed_unfed.induct)
  case (own s t)
  then show ?case by (intro own_left)
next
  case (breaks s x dl m)
  then show ?case by (intro read_left) (auto simp: isTimeout_def)
next
  case (shut_down s)
  have "on_time T (s\<lparr>tm_pump := kept s (closeBoth (tm_pump s))\<rparr>)"
    using shut_down by (intro on_time_pump) (auto simp: closeBoth_def laden_def)
  then show ?case using shut_down(1) by (simp add: less_left_def load_def kept_def closeBoth_def)
qed

section \<open>No one waits but for a deadline\<close>

lemma must_reads_not:
  assumes "pump_must p q" "ps_open p \<or> (\<forall>x. pd_pc (ps_dir p x) \<noteq> Copying)" "pd_pc (ps_dir p x) = Copying"
  shows "pd_pc (ps_dir q x) = Copying"
  using pump_must_unfed [OF assms(1)] assms(2,3) by (auto simp: pump_unfed_def)

lemma prompt_pump:
  assumes "pump_must (tm_pump s) p" "ps_open (tm_pump s) \<or> (\<forall>x. pd_pc (ps_dir (tm_pump s) x) \<noteq> Copying)"
  shows "\<exists>t. timed_prompt s t"
  using timed_prompt.pump [OF assms(1)] must_reads_not [OF assms] by blast

lemma prompt_reader:
  assumes "timed_own s t" "tm_rd t x \<noteq> tm_rd s x"
  shows "\<exists>t. timed_prompt s t"
  using timed_prompt.reader [OF assms(1)] assms(2) by fastforce

text \<open>A reader that has no action to take is blocked, and not past its deadline.\<close>

lemma reader_waits:
  assumes inv: "timed_inv idle limit client upstream s" and "0 < idle"
    and c: "pd_pc (ps_dir (tm_pump s) x) = Copying" and none: "\<And>t. \<not> timed_prompt s t"
  shows "ps_open (tm_pump s) \<and> (\<exists>d. tm_rd s x = Reading (Some d) \<and> tm_now s < d)"
proof (cases "tm_rd s x")
  case Arming
  with none prompt_reader [OF timed_own.arms [OF Arming c], of x] show ?thesis by simp
next
  case (Reading dl)
  obtain d where d: "dl = Some d" using inv_times(1,2) [OF inv Reading] assms(2) by auto
  have "ps_open (tm_pump s)" using none timed_prompt.fails [OF Reading] by blast
  moreover have "tm_now s < d" using none timed_prompt.times_out [OF Reading [unfolded d]] calculation by force
  ultimately show ?thesis using Reading d by simp
next
  case (Stamping chunk err)
  with none prompt_reader [OF timed_own.stamps [OF Stamping], of x] show ?thesis by simp
next
  case (Storing chunk err t)
  with none prompt_reader [OF timed_own.stores [OF Storing], of x] show ?thesis by (simp add: stored_def)
next
  case (Judging err)
  have "after_judge (tm_clock s) (tm_now s) err \<noteq> Judging err" by (simp add: after_judge_def)
  with none prompt_reader [OF timed_own.judges [OF Judging], of x] Judging show ?thesis by simp
next
  case (Comparing t)
  have "after_compare (tm_clock s) t \<noteq> Comparing t" by (simp add: after_compare_def)
  with none prompt_reader [OF timed_own.compares [OF Comparing], of x] Comparing show ?thesis by simp
next
  case (Answered chunk err)
  have "ps_open (tm_pump s) \<or> err \<noteq> None \<or> 0 < pd_buf (ps_dir (tm_pump s) x)"
    using inv_times(4) [OF inv Answered] by (cases err) auto
  with none prompt_reader [OF timed_own.copies [OF Answered c], of x] Answered show ?thesis by simp
qed

lemma waits_for_deadline:
  assumes inv: "timed_inv idle limit client upstream s" and "0 < idle" "\<not> laden s x"
    and none: "\<And>t. \<not> timed_prompt s t" and m: "received (ps_main (tm_pump s)) \<noteq> 2"
  shows "ps_open (tm_pump s) \<and> (\<exists>d. tm_rd s x = Reading (Some d) \<and> tm_now s < d)"
proof -
  have pinv: "pump_inv limit client upstream (tm_pump s)" using inv by (simp add: timed_inv_def)
  have open_copy: "ps_open (tm_pump s)" if "pd_pc (ps_dir (tm_pump s) y) = Copying" for y
    using reader_waits [OF inv assms(2) that none] by blast
  then have stuck: "\<not> pump_must (tm_pump s) p" for p
    using none prompt_pump [of s p] by blast
  show ?thesis
  proof (cases "pd_pc (ps_dir (tm_pump s) x)")
    case Copying
    then show ?thesis using reader_waits [OF inv assms(2) _ none] by blast
  next
    case (Writing chunk er)
    then have "chunk = []" using assms(3) by (simp add: laden_def)
    with Writing have "pump_must (tm_pump s) (with_dir x (dir_pass (chunk, er) Copying (ps_dir (tm_pump s) x)) (tm_pump s))"
      by (intro pump_must.writes) (simp_all add: passes_none_def)
    with stuck show ?thesis by blast
  next
    case Ended
    with ended_must stuck show ?thesis by blast
  next
    case Stored
    with ended_must stuck show ?thesis by blast
  next
    case Posted
    have "pd_pc (ps_dir (tm_pump s) y) = Posted" if "\<not> ps_open (tm_pump s)" for y
      using that open_copy [of y] ended_must [of "tm_pump s" y] closed_must [of "tm_pump s" y] stuck
      by (cases "pd_pc (ps_dir (tm_pump s) y)") auto
    with main_must [OF pinv m Posted] stuck show ?thesis by blast
  qed
qed

lemma idle_progress:
  assumes inv: "timed_inv idle limit client upstream s" and "0 < idle" "on_time T s"
    and m: "received (ps_main (tm_pump s)) \<noteq> 2"
  shows "\<exists>t. timed_must s t"
proof (cases "\<exists>t. timed_prompt s t")
  case True
  then show ?thesis by (blast intro: timed_must.prompt)
next
  case False
  then have none: "\<And>t. \<not> timed_prompt s t" by blast
  have "tm_now s + 1 \<le> d" if "tm_rd s y = Reading (Some d)" for y d
    using reader_waits [OF inv assms(2) inv_copying [OF inv] none, of y] that by auto
  then show ?thesis using timed_must.ticks [OF none, of "tm_now s + 1"] by (intro exI) simp
qed

lemma tick_left:
  assumes inv: "timed_inv idle limit client upstream s" and "0 < idle" "on_time T s"
    and m: "received (ps_main (tm_pump s)) \<noteq> 2" and none: "\<And>u. \<not> timed_prompt s u"
    and t: "tm_now s < t" "\<And>x d. tm_rd s x = Reading (Some d) \<Longrightarrow> t \<le> d"
  shows "on_time T (s\<lparr>tm_now := t\<rparr>) \<and> nat (T - t) < nat (T - tm_now s)"
proof -
  obtain x where x: "\<not> laden s x" using assms(3) by (auto simp: on_time_def)
  obtain d where "tm_rd s x = Reading (Some d)" using waits_for_deadline [OF inv assms(2) x none m] by blast
  then have "t \<le> T" using t(2) assms(3) unfolding on_time_def by (metis in_time.simps(1) order_trans)
  moreover have "in_time T (ic_idle (tm_clock s)) t (tm_rd s y)" for y
  proof (cases "pd_pc (ps_dir (tm_pump s) y) = Copying")
    case True
    from reader_waits [OF inv assms(2) True none] assms(3) show ?thesis
      unfolding on_time_def by (metis in_time.simps(1))
  next
    case False
    then show ?thesis using inv_arming [OF inv] by simp
  qed
  ultimately show ?thesis using assms(3) t(1) by (simp add: on_time_def laden_def)
qed

lemma idle_returns:
  assumes inv: "timed_inv idle limit client upstream s" and "0 < idle" "\<not> laden s x"
  shows "inevitable timed_must timed_unfed
    (\<lambda>t. tm_now t \<le> tm_now s + idle \<and> received (ps_main (tm_pump t)) = 2) s"
proof -
  let ?T = "tm_now s + idle"
  let ?I = "\<lambda>t. timed_inv idle limit client upstream t \<and> on_time ?T t"
  let ?f = "\<lambda>t. (nat (?T - tm_now t), load t, ranks t)"
  have start: "?I s"
  proof -
    have i: "ic_idle (tm_clock s) = idle" "ic_last (tm_clock s) \<le> tm_now s" using inv_times [OF inv refl] by simp_all
    have "in_time ?T idle (tm_now s) (tm_rd s y)" for y
      using inv_times(1) [OF inv refl [of "tm_rd s y"]] assms(2) by (cases "tm_rd s y") auto
    with inv i assms(2,3) show ?thesis by (auto simp: on_time_def deadline_def)
  qed
  show ?thesis
  proof (rule inevitableI [where r = "less_than <*lex*> less_than <*lex*> less_than" and f = ?f and I = ?I])
    fix a b
    assume I: "?I a" and P: "\<not> (tm_now a \<le> ?T \<and> received (ps_main (tm_pump a)) = 2)" and step: "timed_must a b \<or> timed_unfed a b"
    have m: "received (ps_main (tm_pump a)) \<noteq> 2" using I P by (auto simp: on_time_def)
    have "timed_inv idle limit client upstream b"
      using step I inv_step must_step unfed_step by blast
    moreover have "on_time ?T b \<and> (?f b, ?f a) \<in> less_than <*lex*> less_than <*lex*> less_than"
      using step
    proof
      assume "timed_must a b"
      then show ?thesis
      proof cases
        case prompt
        with prompt_left [OF prompt, of idle limit client upstream ?T] I assms(2) show ?thesis
          by (auto simp: less_left_def)
      next
        case (ticks t)
        with tick_left [of idle limit client upstream a ?T t] I m assms(2) show ?thesis by auto
      qed
    next
      assume "timed_unfed a b"
      with unfed_left [of a b idle limit client upstream ?T] I assms(2) show ?thesis
        by (auto simp: less_left_def)
    qed
    ultimately show "?I b \<and> (?f b, ?f a) \<in> less_than <*lex*> less_than <*lex*> less_than" by blast
  next
    fix a
    assume "?I a" "\<not> (tm_now a \<le> ?T \<and> received (ps_main (tm_pump a)) = 2)"
    then show "\<exists>b. timed_must a b" using idle_progress [of idle limit client upstream a ?T] assms(2) by (auto simp: on_time_def)
  qed (use start in auto)
qed

end
