(* ===== verification/IdleProps.thy ===== *)
theory IdleProps
  imports IdleLive
begin

text \<open>
  What holds of the idle clock of a tunnel: what ends a tunnel as idle, that an idle tunnel ends, that
  the concurrent readers pass on what their connections give; a run of the race of two stores, and
  the tunnel the clock cannot end.
\<close>

section \<open>A read that ends as idle\<close>

lemma own_times_out:
  assumes "timed_own s t" "timed_inv idle limit client upstream s" "0 < idle"
    and "tm_rd t x = Answered [] (Some Timeout)" "tm_rd s x \<noteq> Answered [] (Some Timeout)"
  shows "\<exists>u. tm_rd s x = Comparing u \<and> deadline (tm_clock s) \<le> u"
  using assms
proof (induction rule: timed_own.induct)
  case (stores s y chunk err u)
  then have "chunk \<noteq> []" using inv_times(1) [OF stores(2,1)] by simp
  with stores show ?case by (auto simp: stored_def split: if_splits)
next
  case (judges s y err)
  then show ?case
    using inv_times(2) [OF judges(2,1)] by (auto simp: after_judge_def isTimeout_def split: if_splits)
next
  case (compares s y u)
  then show ?case by (auto simp: after_compare_def not_less split: if_splits)
qed (auto split: if_splits)

lemma step_times_out:
  assumes "timed_step s t" "timed_inv idle limit client upstream s" "0 < idle"
    and "tm_rd t x = Answered [] (Some Timeout)" "tm_rd s x \<noteq> Answered [] (Some Timeout)"
  shows "\<exists>u. tm_rd s x = Comparing u \<and> deadline (tm_clock s) \<le> u"
  using assms
proof (induction rule: timed_step.induct)
  case (own s t)
  then show ?case by (rule own_times_out)
qed (auto simp: after_read_def split: if_splits)

section \<open>Two stores that cross\<close>

definition both :: "'a \<Rightarrow> 'a \<Rightarrow> side \<Rightarrow> 'a" where
  "both u d x = (case x of Up \<Rightarrow> u | Down \<Rightarrow> d)"

lemma both_simps [simp]:
  "both u d Up = u" "both u d Down = d" "(both u d)(Up := r) = both r d" "(both u d)(Down := r) = both u r"
  by (auto simp: both_def fun_eq_iff split: side.split)

definition silent :: conn where
  "silent = \<lparr>conn_sent = [], conn_left = None\<rparr>"

abbreviation race_pump :: pump_state where
  "race_pump \<equiv> pump_init 0 silent silent (\<lambda>_. 0)"

definition moment ::
  "pump_state \<Rightarrow> (side \<Rightarrow> reader) \<Rightarrow> int \<Rightarrow> int \<Rightarrow> (side \<Rightarrow> int) \<Rightarrow> int
     \<Rightarrow> (side \<Rightarrow> (string \<times> net_error option) list) \<Rightarrow> timed" where
  "moment p rd l now at slack got =
     \<lparr>tm_pump = p, tm_clock = \<lparr>ic_idle = 10, ic_last = l\<rparr>, tm_rd = rd, tm_now = now, tm_got = got, tm_at = at,
      tm_slack = slack\<rparr>"

abbreviation race_reachable :: "timed \<Rightarrow> bool" where
  "race_reachable \<equiv> timed_reachable (timed_init 10 0 0 silent silent (\<lambda>_. 0))"

definition races :: "pump_state \<Rightarrow> (side \<Rightarrow> reader) \<Rightarrow> int \<Rightarrow> int \<Rightarrow> (side \<Rightarrow> int) \<Rightarrow> int \<Rightarrow> bool" where
  "races p rd l now at slack \<longleftrightarrow> (\<exists>got. race_reachable (moment p rd l now at slack got))"

lemma races_own:
  assumes "races p rd l n a k"
    and "\<And>got. timed_own (moment p rd l n a k got) (moment p' rd' l' n' a' k' got)"
  shows "races p' rd' l' n' a' k'"
  using assms timed_reachable.step [OF _ timed_step.own] unfolding races_def by blast

lemma race_start: "races race_pump (both Arming Arming) 0 0 (both 0 0) 0"
proof -
  have "timed_init 10 0 0 silent silent (\<lambda>_. 0) = moment race_pump (both Arming Arming) 0 0 (both 0 0) 0 (\<lambda>_. [])"
    by (auto simp: timed_init_def moment_def newIdleClock_def both_def fun_eq_iff split: side.split)
  then show ?thesis unfolding races_def by (metis timed_reachable.start)
qed

lemma race_arms:
  assumes "races p rd l n a k" "rd x = Arming" "pd_pc (ps_dir p x) = Copying"
  shows "races p (rd(x := Reading (Some (l + 10)))) l n a k"
proof (rule races_own [OF assms(1)])
  fix got
  show "timed_own (moment p rd l n a k got) (moment p (rd(x := Reading (Some (l + 10)))) l n a k got)"
    using timed_own.arms [of "moment p rd l n a k got" x] assms(2,3) by (simp add: moment_def armed_def deadline_def)
qed

lemma race_ticks: "races p rd l n a k \<Longrightarrow> n \<le> n' \<Longrightarrow> races p rd l n' a k"
proof -
  assume "races p rd l n a k" and n: "n \<le> n'"
  then obtain got where "race_reachable (moment p rd l n a k got)" by (auto simp: races_def)
  from timed_reachable.step [OF this timed_step.ticks [of _ n']] n show ?thesis
    by (auto simp: races_def moment_def)
qed

lemma race_answers:
  assumes "races p rd l n a k" "rd x = Reading dl" "ps_open p"
  shows "races p (rd(x := after_read chunk err)) l n (if chunk = [] then a else a(x := n)) k"
proof -
  obtain got where "race_reachable (moment p rd l n a k got)" using assms(1) by (auto simp: races_def)
  from timed_reachable.step [OF this timed_step.answers [of _ x dl err chunk]] assms(2,3) show ?thesis
    by (auto simp: races_def moment_def given_def)
qed

lemma race_stamps:
  assumes "races p rd l n a k" "rd x = Stamping chunk err"
  shows "races p (rd(x := Storing chunk err n)) l n a k"
proof (rule races_own [OF assms(1)])
  fix got
  show "timed_own (moment p rd l n a k got) (moment p (rd(x := Storing chunk err n)) l n a k got)"
    using timed_own.stamps [of "moment p rd l n a k got" x] assms(2) by (simp add: moment_def)
qed

lemma race_stores:
  assumes "races p rd l n a k" "rd x = Storing chunk err t"
  shows "races p (rd(x := Answered chunk err)) t n a (max k (n - a x))"
proof (rule races_own [OF assms(1)])
  fix got
  show "timed_own (moment p rd l n a k got) (moment p (rd(x := Answered chunk err)) t n a (max k (n - a x)) got)"
    using timed_own.stores [of "moment p rd l n a k got" x] assms(2) by (simp add: moment_def stored_def touch_def)
qed

lemma race_judges:
  assumes "races p rd l n a k" "rd x = Judging (Some Timeout)"
  shows "races p (rd(x := Comparing n)) l n a k"
proof (rule races_own [OF assms(1)])
  fix got
  show "timed_own (moment p rd l n a k got) (moment p (rd(x := Comparing n)) l n a k got)"
    using timed_own.judges [of "moment p rd l n a k got" x] assms(2)
    by (simp add: moment_def after_judge_def isTimeout_def)
qed

text \<open>The copy of a direction takes what its reader returns and writes it.\<close>

definition turned :: "side \<Rightarrow> string \<Rightarrow> pump_state \<Rightarrow> pump_state" where
  "turned x chunk p = (let q = read_of x chunk None p in with_dir x (dir_pass (chunk, None) Copying (ps_dir q x)) q)"

lemma race_copies:
  assumes "races p rd l n a k" "rd x = Answered chunk None" "pd_pc (ps_dir p x) = Copying" "ps_open p"
  shows "races (turned x chunk p) (rd(x := Arming)) l n a k"
proof -
  let ?q = "read_of x chunk None p"
  have "races ?q (rd(x := Arming)) l n a k"
  proof (rule races_own [OF assms(1)])
    fix got
    show "timed_own (moment p rd l n a k got) (moment ?q (rd(x := Arming)) l n a k got)"
      using timed_own.copies [of "moment p rd l n a k got" x] assms(2-4) by (simp add: moment_def)
  qed
  then show ?thesis
  proof (rule races_own)
    fix got
    have "pump_own ?q (turned x chunk p)"
      unfolding turned_def Let_def
      by (rule pump_own.writes) (simp add: read_of_def with_dir_def dir_read_def)
    moreover have "pd_pc (ps_dir (turned x chunk p) y) = Copying" if "pd_pc (ps_dir ?q y) = Copying" for y
      using that by (auto simp: turned_def read_of_def with_dir_def dir_read_def)
    moreover have "kept (moment ?q (rd(x := Arming)) l n a k got) (turned x chunk p) = turned x chunk p"
      using assms(4) by (simp add: kept_def turned_def read_of_def with_dir_def)
    ultimately show "timed_own (moment ?q (rd(x := Arming)) l n a k got) (moment (turned x chunk p) (rd(x := Arming)) l n a k got)"
      using timed_own.proceeds [of "moment ?q (rd(x := Arming)) l n a k got" "turned x chunk p"]
      by (simp add: moment_def)
  qed
qed

lemma race_turned:
  "pd_pc (ps_dir (turned Down chunk race_pump) Down) = Copying" "ps_open (turned Down chunk race_pump)"
  by (simp_all add: turned_def read_of_def with_dir_def pump_init_def dir_read_def dir_pass_def sink_def silent_def
      newCappedWriter_def capped_Write_def conn_Write_def Let_def)

text \<open>
  The upward read reads the time first, at 1, and stores it last; the downward read has seen a byte at
  9, and at 11, two units later, it ends as idle.
\<close>

lemma crossed_stores:
  "races (turned Down ''b'' race_pump) (both (Answered ''a'' None) (Comparing 11)) 1 11 (both 1 9) 8"
proof -
  let ?p = race_pump and ?q = "turned Down ''b'' race_pump"
  have c: "pd_pc (ps_dir ?p x) = Copying" "ps_open ?p" for x by (simp_all add: pump_init_def)
  from race_arms [OF race_start, of Up] c have "races ?p (both (Reading (Some 10)) Arming) 0 0 (both 0 0) 0" by simp
  from race_arms [OF this, of Down] c have "races ?p (both (Reading (Some 10)) (Reading (Some 10))) 0 0 (both 0 0) 0" by simp
  from race_answers [OF race_ticks [OF this, of 1], of Up "Some 10" "''a''" None] c(2)
  have "races ?p (both (Stamping ''a'' None) (Reading (Some 10))) 0 1 (both 1 0) 0" by (simp add: after_read_def)
  from race_stamps [OF this, of Up] have "races ?p (both (Storing ''a'' None 1) (Reading (Some 10))) 0 1 (both 1 0) 0" by simp
  from race_answers [OF race_ticks [OF this, of 9], of Down "Some 10" "''b''" None] c(2)
  have "races ?p (both (Storing ''a'' None 1) (Stamping ''b'' None)) 0 9 (both 1 9) 0" by (simp add: after_read_def)
  from race_stamps [OF this, of Down] have "races ?p (both (Storing ''a'' None 1) (Storing ''b'' None 9)) 0 9 (both 1 9) 0" by simp
  from race_stores [OF this, of Down] have "races ?p (both (Storing ''a'' None 1) (Answered ''b'' None)) 9 9 (both 1 9) 0" by simp
  from race_stores [OF this, of Up] have "races ?p (both (Answered ''a'' None) (Answered ''b'' None)) 1 9 (both 1 9) 8" by simp
  from race_copies [OF this, of Down] c have "races ?q (both (Answered ''a'' None) Arming) 1 9 (both 1 9) 8" by simp
  from race_arms [OF this, of Down] race_turned
  have "races ?q (both (Answered ''a'' None) (Reading (Some 11))) 1 9 (both 1 9) 8" by simp
  from race_answers [OF race_ticks [OF this, of 11], of Down "Some 11" "[]" "Some Timeout"] race_turned
  have "races ?q (both (Answered ''a'' None) (Judging (Some Timeout))) 1 11 (both 1 9) 8" by (simp add: after_read_def)
  from race_judges [OF this, of Down] show ?thesis by simp
qed

lemma crossed_step:
  "timed_step (moment p (both r (Comparing 11)) 1 11 a k got) (moment p (both r (Answered [] (Some Timeout))) 1 11 a k got)"
  using timed_step.own [OF timed_own.compares [of "moment p (both r (Comparing 11)) 1 11 a k got" Down 11]]
  by (simp add: moment_def after_compare_def deadline_def)

section \<open>The tunnel the clock cannot end\<close>

text \<open>
  Both copies wait for their peers to take bytes: neither reads, so neither has a deadline, and the
  tunnel stays as it is for as long as the peers do nothing, whatever its idle period.
\<close>

lemma stuck_step:
  assumes "timed_must s t" "timed_inv idle limit client upstream s" "ps_open (tm_pump s)"
    and w: "\<And>x. \<exists>chunk er. pd_pc (ps_dir (tm_pump s) x) = Writing chunk er \<and> \<not> passes_none chunk (ps_dir (tm_pump s) x)"
  shows "tm_pump t = tm_pump s"
  using assms(1)
proof cases
  case prompt
  have arming: "tm_rd s x = Arming" for x using inv_arming [OF assms(2), of x] w [of x] by auto
  have "posted (pd_pc (ps_dir (tm_pump s) x)) = 0" for x using w [of x] by auto
  then have d: "ps_done (tm_pump s) = 0" "ps_main (tm_pump s) = AwaitFirst"
    using assms(2) by (simp_all add: timed_inv_def pump_inv_def) (cases "ps_main (tm_pump s)"; simp)
  from prompt show ?thesis
  proof cases
    case reader
    from reader(1) show ?thesis
    proof cases
      case (arms x)
      then show ?thesis using w [of x] by auto
    next
      case (proceeds p)
      with reader(2) show ?thesis by simp
    qed (use arming in simp_all)
  next
    case (pump p)
    from pump(2) show ?thesis
    proof cases
      case (reads x r)
      then show ?thesis using assms(3) by simp
    next
      case (writes x chunk er)
      then show ?thesis using w [of x] assms(3) by auto
    next
      case (stores x)
      then show ?thesis using w [of x] by auto
    next
      case (posts x)
      then show ?thesis using w [of x] by auto
    qed (use d in simp_all)
  qed (use arming in simp_all)
qed simp

lemma idle_stuck:
  assumes "timed_must\<^sup>*\<^sup>* s t" "timed_inv idle limit client upstream s" "ps_open (tm_pump s)"
    and "\<And>x. \<exists>chunk er. pd_pc (ps_dir (tm_pump s) x) = Writing chunk er \<and> \<not> passes_none chunk (ps_dir (tm_pump s) x)"
  shows "tm_pump t = tm_pump s"
  using assms
proof (induction rule: converse_rtranclp_induct)
  case (step s u)
  note same = stuck_step [OF step(1,4-6)]
  have "timed_inv idle limit client upstream u" using inv_step [OF must_step [OF step(1)] step(4)] .
  with step.IH step.prems same show ?case by simp
qed simp

section \<open>Properties\<close>

text \<open>C21. What ends a tunnel as idle. However the two copies, the clock and the connections interleave,
  when a read ends in a timeout the time in the shared clock is an idle period back; and every byte
  the connections have given was given an idle period before, less the longest it has taken so far
  from such an answer to the store of its time, unless that store is still to come. Where stores are
  not held up, the tunnel has been idle for the idle period; the code does not bound the lag.\<close>

theorem idle_safe:
  assumes "timed_reachable (timed_init idle now limit client upstream buf) s" "0 < idle"
    and "timed_step s t" "tm_rd t x = Answered [] (Some Timeout)" "tm_rd s x \<noteq> Answered [] (Some Timeout)"
  shows "ic_last (tm_clock s) + idle \<le> tm_now s
    \<and> (\<forall>y. touching (tm_rd s y) \<or> tm_at s y + idle \<le> tm_now s + tm_slack s)"
proof -
  have inv: "timed_inv idle limit client upstream s" using inv_reachable [OF assms(1)] .
  obtain u where u: "tm_rd s x = Comparing u" "deadline (tm_clock s) \<le> u"
    using step_times_out [OF assms(3) inv assms(2,4,5)] by blast
  with inv_times [OF inv u(1)] have c: "ic_last (tm_clock s) + idle \<le> tm_now s" by (simp add: deadline_def)
  have "touching (tm_rd s y) \<or> tm_at s y + idle \<le> tm_now s + tm_slack s" for y
    using inv_times(6) [OF inv refl [of "tm_rd s y"]] c by auto
  with c show ?thesis by blast
qed

text \<open>The bound is met: a tunnel ends as idle two units after a byte, with an idle period of ten.\<close>

theorem idle_safe_witness:
  "\<exists>s t. race_reachable s \<and> timed_step s t \<and> tm_rd t Down = Answered [] (Some Timeout)
    \<and> tm_at s Down + 10 \<le> tm_now s + tm_slack s \<and> tm_now s < tm_at s Down + 10"
proof -
  obtain got where r: "race_reachable (moment (turned Down ''b'' race_pump) (both (Answered ''a'' None) (Comparing 11)) 1 11 (both 1 9) 8 got)"
    (is "race_reachable ?s") using crossed_stores by (auto simp: races_def)
  let ?t = "moment (turned Down ''b'' race_pump) (both (Answered ''a'' None) (Answered [] (Some Timeout))) 1 11 (both 1 9) 8 got"
  have f: "tm_rd ?t Down = Answered [] (Some Timeout)" "tm_rd ?s Down \<noteq> Answered [] (Some Timeout)"
    "\<not> touching (tm_rd ?s Down)" "tm_now ?s < tm_at ?s Down + 10"
    by (simp_all add: moment_def)
  from idle_safe [OF r _ crossed_step f(1,2)] r crossed_step f(1,3,4) show ?thesis
    by (intro exI [of _ ?s] exI [of _ ?t]) auto
qed

text \<open>C31. An idle tunnel ends. From any moment of any run, if from then on no bytes come in, the call
  of \<open>pump\<close> cannot but return, in whatever order things happen and though no peer takes what is
  written to it, and within one idle period if the gate's own actions take no time and a read is not
  answered after its deadline. Only a tunnel both of whose copies have bytes in hand is excepted:
  a write has no deadline, and those bytes must be taken first.\<close>

theorem idle_ends:
  assumes "timed_reachable (timed_init idle now limit client upstream buf) s" "0 < idle" "\<not> laden s x"
  shows "inevitable timed_must timed_unfed
    (\<lambda>t. tm_now t \<le> tm_now s + idle \<and> (\<exists>up down capped. ps_main (tm_pump t) = PumpReturned up down capped)) s"
  using idle_returns [OF inv_reachable [OF assms(1)] assms(2,3)] unfolding received_two .

theorem idle_ends_witness:
  "\<exists>t. timed_must\<^sup>*\<^sup>* (timed_init 10 0 0 silent silent (\<lambda>_. 0)) t \<and> tm_now t \<le> 10
    \<and> (\<exists>up down capped. ps_main (tm_pump t) = PumpReturned up down capped)"
proof -
  have "\<not> laden (timed_init 10 0 0 silent silent (\<lambda>_. 0)) Up"
    by (simp add: laden_def timed_init_def pump_init_def)
  from inevitable_reaches [OF idle_ends [OF timed_reachable.start _ this]] show ?thesis
    by (auto simp: timed_init_def)
qed

text \<open>C32. The idle clock decides when a tunnel ends and nothing else: what a pump returns whose copies
  read through their concurrent readers is what a pump of plain copies returns (with one more buffered
  read in each direction, the one that may be under way when the connections close); and what those
  copies are given to read is, byte for byte and in its order, what the connections gave, up to the
  same last error.\<close>

theorem idle_refines:
  assumes "timed_reachable (timed_init idle now limit client upstream buf) s"
    and "ps_main (tm_pump s) = PumpReturned up down capped"
  shows "\<exists>p. pump_reachable (pump_init limit client upstream (\<lambda>x. buf x + 1)) p \<and> ps_main p = PumpReturned up down capped
    \<and> (\<forall>x. concat (map fst (pd_in (ps_dir p x))) = concat (map fst (tm_got s x))
         \<and> pd_in (ps_dir p x) \<noteq> [] \<and> tm_got s x \<noteq> []
         \<and> snd (last (pd_in (ps_dir p x))) = map_option net_text (snd (last (tm_got s x))))"
proof -
  note inv = inv_reachable [OF assms(1)]
  obtain f where f: "pump_reachable (pump_init limit client upstream (\<lambda>x. buf x + 1)) (with_buf f (tm_pump s))"
    using shadows_reachable [OF assms(1)] by (auto simp: shadows_def)
  have "pump_inv limit client upstream (tm_pump s)" using inv by (simp add: timed_inv_def)
  then have posted: "pd_pc (ps_dir (tm_pump s) x) = Posted" for x using returned_posted assms(2) by simp
  have "concat (map fst (pd_in (ps_dir (tm_pump s) x))) = concat (map fst (tm_got s x))
      \<and> pd_in (ps_dir (tm_pump s) x) \<noteq> [] \<and> tm_got s x \<noteq> []
      \<and> snd (last (pd_in (ps_dir (tm_pump s) x))) = map_option net_text (snd (last (tm_got s x)))" for x
    using inv_relays [OF inv refl, of x] posted [of x] by (auto simp: relays_def bytes_of_def last_error_def)
  with f assms(2) show ?thesis by (intro exI [of _ "with_buf f (tm_pump s)"]) simp
qed

theorem idle_refines_witness:
  "\<exists>s p up down capped. race_reachable s \<and> ps_main (tm_pump s) = PumpReturned up down capped
    \<and> pump_reachable (pump_init 0 silent silent (\<lambda>x. 0 + 1)) p \<and> ps_main p = PumpReturned up down capped
    \<and> concat (map fst (pd_in (ps_dir p Up))) = concat (map fst (tm_got s Up))"
proof -
  let ?s0 = "timed_init 10 0 0 silent silent (\<lambda>_. 0)"
  have "timed_inv 10 0 silent silent ?s0" using inv_reachable [OF timed_reachable.start] .
  moreover have "\<not> laden ?s0 Up" by (simp add: laden_def timed_init_def pump_init_def)
  ultimately obtain s where s: "timed_must\<^sup>*\<^sup>* ?s0 s" "received (ps_main (tm_pump s)) = 2"
    using inevitable_reaches [OF idle_returns] by fastforce
  have "race_reachable s" using s(1)
    by (induction rule: rtranclp_induct) (auto intro: timed_reachable.intros must_step)
  moreover obtain u d c where "ps_main (tm_pump s) = PumpReturned u d c"
    using s(2) by (cases "ps_main (tm_pump s)") auto
  ultimately show ?thesis using idle_refines [of 10 0 0 silent silent "\<lambda>_. 0" s u d c] by blast
qed

end
