(* ===== verification/Session.thy ===== *)
theory Session
  imports ProxyProps AuditProps
begin

text \<open>
  A session: the requests a gate serves one after another, each with the world it meets, the
  policy of that moment included. A concurrent run of the gate writes the log of one of these, which
  the theory \<open>System\<close> and those after it show. This one ties the
  handlers to the log they write: which texts a record can hold, and what the whole log verifies as.
\<close>

section \<open>Serving a list of requests\<close>

type_synonym exchange = "gate_env \<times> upstream_env \<times> connect_env \<times> http_request"

fun serve_all ::
  "(string \<Rightarrow> string) \<Rightarrow> casemap \<Rightarrow> config \<Rightarrow> exchange list \<Rightarrow> proxy \<Rightarrow> proxy" where
  "serve_all H cm cfg [] st = st"
| "serve_all H cm cfg ((env, ue, ce, r) # xs) st = serve_all H cm cfg xs (ServeHTTP H cm cfg env ue ce r st)"

section \<open>The texts of a record\<close>

lemma utf8_len_append: "utf8_len s \<noteq> 0 \<Longrightarrow> utf8_len (s @ t) = utf8_len s"
  by (cases s rule: utf8_len.cases) (auto simp: Let_def split: list.splits if_splits)

lemma utf8_valid_append: "utf8_valid s \<Longrightarrow> utf8_valid t \<Longrightarrow> utf8_valid (s @ t)"
proof (induction s rule: utf8_valid.induct)
  case (2 c s)
  show ?case
  proof (cases "byte c < 128")
    case True
    with 2 show ?thesis by (simp add: utf8_valid.simps(2))
  next
    case False
    with 2(3) have n: "utf8_len (c # s) \<noteq> 0" by (auto simp: utf8_valid.simps(2) split: if_splits)
    with False 2(3) have v: "utf8_valid (drop (utf8_len (c # s)) (c # s))" by (simp add: utf8_valid.simps(2))
    have "utf8_valid (drop (utf8_len (c # s)) (c # s) @ t)" using 2(2) [OF False n v 2(4)] .
    moreover have "drop (utf8_len (c # s)) ((c # s) @ t) = drop (utf8_len (c # s)) (c # s) @ t"
      using utf8_len_le [of "c # s"] by (simp only: drop_append diff_is_0_eq' drop_0)
    ultimately show ?thesis
      using False n utf8_len_append [OF n, of t] by (simp add: utf8_valid.simps(2))
  qed
qed simp

lemma ascii_hex_digit: "n < 16 \<Longrightarrow> byte (hex_digit n) < 128"
  using hex_digit_printable by blast

lemma ascii_quote_byte: "byte c < 128 \<Longrightarrow> ascii (quote_byte c)"
  by (auto simp: quote_byte_def ascii_def ascii_hex_digit)

lemma utf8_Quote:
  assumes "\<And>t. utf8_valid (ge_quote env t)"
  shows "utf8_valid (Quote env s)"
proof (cases "ascii s")
  case True
  then have "ascii (CHR 0x22 # concat (map quote_byte s) @ [CHR 0x22])"
    using ascii_quote_byte by (fastforce simp: ascii_def list_all_iff)
  with True show ?thesis by (simp add: Quote_def utf8_valid_ascii)
qed (simp add: Quote_def assms)

text \<open>
  A request whose own texts are valid UTF-8, and an environment whose are: the policy's answers
  and the quoting of texts that are not ASCII.
\<close>

definition texts_ok :: "exchange \<Rightarrow> bool" where
  "texts_ok x \<longleftrightarrow>
     (case x of (env, ue, ce, r) \<Rightarrow>
        utf8_valid (hr_method r) \<and> utf8_valid (hr_host r) \<and> utf8_valid (u_host (hr_url r))
        \<and> utf8_valid (Hostname (hr_url r)) \<and> utf8_valid (u_path (hr_url r))
        \<and> utf8_valid (clientIP (hr_remote r)) \<and> utf8_valid (ge_now env)
        \<and> (\<forall>host port. splitAuthority (authority_of r) = Inr (host, port) \<longrightarrow> utf8_valid host)
        \<and> (\<forall>q. utf8_valid (d_action (ge_eval env q)) \<and> utf8_valid (d_rule (ge_eval env q))
             \<and> utf8_valid (d_reason (ge_eval env q)))
        \<and> (\<forall>t. utf8_valid (ge_quote env t)))"

text \<open>One record was audited, and its texts are valid.\<close>

definition logs_text :: "(string \<Rightarrow> string) \<Rightarrow> gate_env \<Rightarrow> proxy \<Rightarrow> proxy \<Rightarrow> bool" where
  "logs_text H env st st' \<longleftrightarrow> (\<exists>rec. one_record H env rec st st' \<and> utf8_record rec)"

lemma utf8_stamped [simp]: "utf8_record (stamped env r s) = utf8_record r"
  by (simp add: stamped_def utf8_record_def)

lemma logs_text_finish [simp]:
  "no_record st st' \<Longrightarrow> utf8_record r \<Longrightarrow> logs_text H env st (finish H env r s st')"
  unfolding logs_text_def using one_record_finish utf8_stamped by blast

lemma logs_text_simps [simp]:
  "logs_text H env st st' \<Longrightarrow> not_audit e \<Longrightarrow> logs_text H env st (emit e st')"
  "logs_text H env st st' \<Longrightarrow> logs_text H env st (http_Error msg code st')"
  "logs_text H env st st' \<Longrightarrow> logs_text H env st (ends_closed st')"
  unfolding logs_text_def by (blast intro: record_intros)+

lemma utf8_valid_Cons [simp]: "byte c < 128 \<Longrightarrow> utf8_valid (c # s) = utf8_valid s"
  by (simp add: utf8_valid.simps(2))

lemma utf8_kinds [simp]: "utf8_valid KindHTTP" "utf8_valid KindConnect" "utf8_valid Allow" "utf8_valid Deny"
  by (simp_all add: KindHTTP_def KindConnect_def Allow_def Deny_def)

lemma utf8_Itoa: "utf8_valid (Itoa n)"
  using dec_digits [of "nat n"] dec_digits [of "nat (- n)"] utf8_digits
  by (auto simp: Itoa_def)

lemma utf8_zero: "utf8_valid (a_ts zero_record)" "utf8_valid (a_kind zero_record)" "utf8_valid (a_method zero_record)"
  "utf8_valid (a_host zero_record)" "utf8_valid (a_path zero_record)" "utf8_valid (a_decision zero_record)"
  "utf8_valid (a_rule zero_record)" "utf8_valid (a_reason zero_record)" "utf8_valid (a_client zero_record)"
  "utf8_valid (a_prev zero_record)" "utf8_valid (a_hash zero_record)"
  by (simp_all add: zero_record_def)

lemma texts_reasons:
  assumes "\<And>t. utf8_valid (ge_quote env t)"
  shows "utf8_valid not_absolute_reason" "utf8_valid (path_reason env a b)"
    "utf8_valid (''unparseable port '' @ Quote env a)" "utf8_valid (authority_message env e)"
    "utf8_valid shutting_down_reason" "utf8_valid began_closing_reason" "utf8_valid (cap_reason n)"
  using utf8_Quote [of env, OF assms]
  by (simp_all add: not_absolute_reason_def path_reason_def authority_message_def shutting_down_reason_def
      began_closing_reason_def cap_reason_def utf8_valid_append utf8_Itoa split: authority_error.split)

lemma logs_text_HTTP:
  assumes "texts_ok (env, ue, ce, r)"
  shows "logs_text H env st (handleHTTP H cm env ue r st)"
proof -
  have q: "\<And>t. utf8_valid (ge_quote env t)" using assms by (simp add: texts_ok_def)
  show ?thesis
    using assms texts_reasons [OF q]
    by (simp add: handleHTTP_def forward_def Let_def record_intros texts_ok_def utf8_record_def utf8_zero
        split: option.split prod.split sum.split)
qed

lemma logs_text_open_tunnel:
  assumes "utf8_record rec0" "\<And>t. utf8_valid (ge_quote env t)" "no_record st st'"
  shows "logs_text H env st (open_tunnel H cfg env ce rec0 st')"
  using assms(1,3) texts_reasons [OF assms(2)]
  by (simp add: open_tunnel_def run_tunnel_finish tunnel_record_def Let_def record_intros utf8_record_def)

lemma logs_text_Connect:
  assumes "texts_ok (env, ue, ce, r)"
  shows "logs_text H env st (handleConnect H cfg env ce r st)"
proof -
  have q: "\<And>t. utf8_valid (ge_quote env t)" using assms by (simp add: texts_ok_def)
  note reasons = texts_reasons [OF q]
  have c: "utf8_valid (clientIP (hr_remote r))" "utf8_valid (authority_of r)"
    using assms by (simp_all add: texts_ok_def authority_of_def)
  have d: "utf8_valid (d_action (ge_eval env x))" "utf8_valid (d_rule (ge_eval env x))"
    "utf8_valid (d_reason (ge_eval env x))" for x
    using assms by (simp_all add: texts_ok_def)
  show ?thesis
  proof (cases "splitAuthority (authority_of r)")
    case (Inl e)
    have "handleConnect H cfg env ce r st =
        http_Error (''egressgate: '' @ authority_message env e) 400
          (finish H env (zero_record\<lparr>a_kind := KindConnect, a_client := clientIP (hr_remote r), a_host := authority_of r,
             a_decision := Deny, a_reason := authority_message env e\<rparr>) 400 st)"
      using Inl by (simp add: handleConnect_def authority_of_def Let_def)
    then show ?thesis using reasons c by (simp add: record_intros utf8_record_def utf8_zero)
  next
    case (Inr hp)
    obtain host port where hp: "hp = (host, port)" by (cases hp)
    have h: "utf8_valid host" using assms Inr hp by (auto simp: texts_ok_def)
    let ?d = "ge_eval env (connect_question host port)"
    define rec0 where "rec0 = zero_record\<lparr>a_kind := KindConnect, a_client := clientIP (hr_remote r), a_host := host,
      a_port := of_int port, a_decision := d_action ?d, a_rule := d_rule ?d, a_reason := d_reason ?d\<rparr>"
    have u: "utf8_record rec0" "utf8_record (rec0\<lparr>a_reason := shutting_down_reason\<rparr>)"
      using c(1) d h reasons by (simp_all add: rec0_def utf8_record_def utf8_zero)
    define st1 where "st1 = emit (Asked (connect_question host port)) st"
    define st2 where "st2 = emit (Dialled (dial_address host port)) st1"
    have n: "no_record st st1" "no_record st st2" by (simp_all add: st1_def st2_def record_intros)
    have "handleConnect H cfg env ce r st =
        (if d_action ?d \<noteq> Allow then
           http_Error (''egressgate: denied by policy: '' @ d_reason ?d) 403 (finish H env rec0 403 st1)
         else if ce_closing ce then
           http_Error (''egressgate: '' @ shutting_down_reason) 503
             (finish H env (rec0\<lparr>a_reason := shutting_down_reason\<rparr>) 503 st1)
         else case ce_dial ce (dial_address host port) of
                Some _ \<Rightarrow> http_Error ''egressgate: could not reach upstream'' 502 (finish H env rec0 502 st2)
              | None \<Rightarrow> open_tunnel H cfg env ce rec0 st2)"
      by (simp only: handleConnect_def Let_def authority_of_def [symmetric] Inr hp sum.case prod.case rec0_def
          st1_def st2_def)
    then show ?thesis
      using logs_text_open_tunnel [OF u(1) q n(2)] u n by (simp split: option.split)
  qed
qed

lemma ServeHTTP_logs_text:
  "texts_ok (env, ue, ce, r) \<Longrightarrow>
     \<exists>rec. one_record H env rec st (ServeHTTP H cm cfg env ue ce r st) \<and> utf8_record rec"
  using logs_text_HTTP logs_text_Connect unfolding ServeHTTP_def logs_text_def by simp

section \<open>A session and its log\<close>

text \<open>The calls of \<open>Append\<close> a session makes, one for each request.\<close>

definition call_of :: "exchange \<Rightarrow> audit_record \<Rightarrow> append_call" where
  "call_of x rec = (ge_now (fst x), ge_write (fst x), rec)"

lemma serve_all_calls:
  "\<exists>recs. length recs = length xs
    \<and> audits (effects st (serve_all H cm cfg xs st)) = recs
    \<and> (\<exists>es. px_trace (serve_all H cm cfg xs st) = px_trace st @ es)
    \<and> px_log (serve_all H cm cfg xs st) = append_run H (map2 call_of xs recs) (px_log st)
    \<and> (list_all texts_ok xs \<longrightarrow> list_all utf8_record recs)
    \<and> (\<forall>l. m_requests (px_metrics (serve_all H cm cfg xs st)) l
          = m_requests (px_metrics st) l + length (filter (\<lambda>r. (a_decision r, a_rule r, a_kind r) = l) recs))"
proof (induction xs arbitrary: st)
  case Nil
  then show ?case by (simp add: effects_def)
next
  case (Cons x xs)
  obtain env ue ce r where x: "x = (env, ue, ce, r)" by (cases x)
  let ?st = "ServeHTTP H cm cfg env ue ce r st"
  obtain rec where rec: "one_record H env rec st ?st" "texts_ok x \<longrightarrow> utf8_record rec"
    using ServeHTTP_one_record [of H env st cm cfg ue ce r] ServeHTTP_logs_text [of env ue ce r H st cm cfg] x by blast
  obtain recs es where IH: "length recs = length xs"
    "audits (effects ?st (serve_all H cm cfg xs ?st)) = recs"
    "px_trace (serve_all H cm cfg xs ?st) = px_trace ?st @ es"
    "px_log (serve_all H cm cfg xs ?st) = append_run H (map2 call_of xs recs) (px_log ?st)"
    "list_all texts_ok xs \<longrightarrow> list_all utf8_record recs"
    "\<forall>l. m_requests (px_metrics (serve_all H cm cfg xs ?st)) l
          = m_requests (px_metrics ?st) l + length (filter (\<lambda>r. (a_decision r, a_rule r, a_kind r) = l) recs)"
    using Cons.IH [of ?st] by blast
  obtain es0 where es0: "px_trace ?st = px_trace st @ es0" "audits es0 = [rec]"
    using rec(1) by (auto simp: one_record_def)
  have "audits (effects st (serve_all H cm cfg (x # xs) st)) = rec # recs"
    using IH(2,3) es0 by (simp add: x effects_def audits_append)
  moreover have "px_log (serve_all H cm cfg (x # xs) st) = append_run H (map2 call_of (x # xs) (rec # recs)) (px_log st)"
    using IH(4) rec(1) by (simp add: x call_of_def one_record_def)
  moreover have "m_requests (px_metrics (serve_all H cm cfg (x # xs) st)) l = m_requests (px_metrics st) l
      + length (filter (\<lambda>r. (a_decision r, a_rule r, a_kind r) = l) (rec # recs))" for l
  proof -
    have "m_requests (px_metrics ?st) l
        = m_requests (px_metrics st) l + (if l = (a_decision rec, a_rule rec, a_kind rec) then 1 else 0)"
      using rec(1) unfolding one_record_def by blast
    with spec [OF IH(6), of l] show ?thesis by (cases "l = (a_decision rec, a_rule rec, a_kind rec)") (simp_all add: x)
  qed
  ultimately show ?case
    using IH(1,3,5) rec(2) es0(1) by (intro exI [of _ "rec # recs"]) (simp add: x)
qed

text \<open>The requests whose record went out, and those records.\<close>

definition recorded :: "exchange list \<Rightarrow> audit_record list \<Rightarrow> audit_record list" where
  "recorded xs recs = map snd (filter (\<lambda>(x, _). ge_write (fst x) = WriteOK) (zip xs recs))"

lemma recorded_calls:
  "sent_payloads (map2 call_of xs recs) =
     map payload (recorded xs recs)"
  unfolding recorded_def by (induction xs recs rule: list_induct2') (simp_all add: call_of_def)

lemma taken_recorded: "taken (map2 call_of xs recs) = length (recorded xs recs)"
  unfolding taken_def recorded_def by (induction xs recs rule: list_induct2') (simp_all add: call_of_def)

definition whole_write :: "exchange \<Rightarrow> bool" where
  "whole_write x \<longleftrightarrow> (case ge_write (fst x) of WriteOK \<Rightarrow> True | WriteFail _ n \<Rightarrow> n = 0)"

lemma calls_clean:
  "length recs = length xs \<Longrightarrow> list_all texts_ok xs \<Longrightarrow> list_all whole_write xs \<Longrightarrow> list_all utf8_record recs \<Longrightarrow>
     list_all clean_call (map2 call_of xs recs)"
proof (induction recs xs rule: list_induct2)
  case (Cons r rs x xs)
  then show ?case
    by (cases x) (auto simp: clean_call_def utf8_call_def call_of_def texts_ok_def whole_write_def)
qed simp

section \<open>Properties\<close>

text \<open>A new log after clean calls: it verifies, and holds the payloads of the calls that went out.\<close>

lemma clean_run_log:
  assumes "list_all clean_call es" "l = append_run sha256_hex es (New [])"
  shows "Verify sha256_hex (l_w l) None = Inr ((start_result (l_prev l) (l_seq l))\<lparr>v_records := taken es\<rparr>)"
    and "map payload (log_records (l_w l)) = sent_payloads es"
proof -
  have u: "utf8_valid []" by simp
  obtain ss where ss: "log_of sha256_hex (start_head []) 0 [] ss l"
    "map payload ss = sent_payloads es"
    using sha.log_of_run_payloads [OF log_of_start utf8_start_head [OF u] assms(1)] assms(2)
    by (auto simp: New_Resume)
  then have "log_records (l_w l) = ss" by (simp add: log_of_def log_records_whole)
  with ss(2) show "map payload (log_records (l_w l)) = sent_payloads es"
    by simp
  have "length ss = taken es" using ss(2) unfolding taken_def by (metis length_map)
  moreover have "VerifyFrom sha256_hex (l_w l) None [] 0 = Verify sha256_hex (l_w l) None"
    by (simp add: Verify_def VerifyFrom_def GenesisHash_def)
  ultimately show "Verify sha256_hex (l_w l) None = Inr ((start_result (l_prev l) (l_seq l))\<lparr>v_records := taken es\<rparr>)"
    using log_of_verdict [OF ss(1)] by simp
qed

lemma session_log:
  assumes "list_all texts_ok xs" "list_all whole_write xs" "px_log st = New []"
    and "st' = serve_all sha256_hex cm cfg xs st"
  shows "length (audits (effects st st')) = length xs
    \<and> Verify sha256_hex (l_w (px_log st')) None =
        Inr ((start_result (l_prev (px_log st')) (l_seq (px_log st')))
               \<lparr>v_records := length (recorded xs (audits (effects st st')))\<rparr>)
    \<and> map payload (log_records (l_w (px_log st'))) = map payload (recorded xs (audits (effects st st')))"
proof -
  obtain recs where recs: "length recs = length xs" "audits (effects st st') = recs"
    "px_log st' = append_run sha256_hex (map2 call_of xs recs) (New [])" "list_all utf8_record recs"
    using serve_all_calls [of xs st sha256_hex cm cfg] assms by metis
  note log = clean_run_log [OF calls_clean [OF recs(1) assms(1,2) recs(4)] recs(3)]
  then show ?thesis using recs(1,2) by (simp add: taken_recorded recorded_calls)
qed

text \<open>A whole session is in its log. Whatever requests a gate with a new log serves, under whatever
  policies and with whatever upstreams, if their texts are valid UTF-8 and a write goes out whole or
  not at all: one record is audited for each request, in order; the log verifies from genesis, whole,
  ends on the head the gate holds, and holds exactly the records whose write went out, each with the
  payload its handler gave it; and the request counters are the counts of those audits.\<close>

lemma gate_session:
  assumes "list_all texts_ok xs" "list_all whole_write xs" "px_log st = New []"
    and "st' = serve_all sha256_hex cm cfg xs st" "recs = audits (effects st st')"
  shows "length recs = length xs
    \<and> Verify sha256_hex (l_w (px_log st')) None =
        Inr \<lparr>v_records = length (recorded xs recs), v_last_seq = snd (Head (px_log st')),
             v_head = fst (Head (px_log st')), v_ok = True, v_break_at = 0, v_problem = None,
             v_truncated = False, v_unterminated = False\<rparr>
    \<and> map payload (log_records (l_w (px_log st'))) = map payload (recorded xs recs)
    \<and> (\<forall>l. m_requests (px_metrics st') l
          = m_requests (px_metrics st) l + length (filter (\<lambda>r. (a_decision r, a_rule r, a_kind r) = l) recs))"
proof -
  have "\<forall>l. m_requests (px_metrics st') l
      = m_requests (px_metrics st) l + length (filter (\<lambda>r. (a_decision r, a_rule r, a_kind r) = l) recs)"
    using serve_all_calls [of xs st sha256_hex cm cfg] unfolding assms(4,5) by metis
  with session_log [OF assms(1-4)] show ?thesis
    unfolding assms(5) by (simp add: start_result_def Head_def)
qed

definition open_gate :: gate_env where
  "open_gate = sample_gate\<lparr>ge_eval := Evaluate plain_casemap open_policy, ge_quote := (\<lambda>_. [])\<rparr>"

definition sample_exchange :: exchange where
  "sample_exchange = (open_gate, sample_upstream, sample_world, sample_request)"

end
