(* ===== verification/Shutdown.thy ===== *)
theory Shutdown
  imports Prelude
begin

text \<open>
  The tunnels of \<open>internal/proxy/proxy.go\<close> against \<open>Shutdown\<close>: a step relation with one step for
  each critical section or atomic action, so that any number of tunnels and the shutdown
  interleave in every way. A tunnel is its identifier; they are natural numbers, so the model
  speaks of runs of fewer than 2 to the 64 tunnels.
\<close>

section \<open>State and operations\<close>

text \<open>
  Where a tunnel is: running its pump; its record written; taken out of the map; released.
  Where the shutdown is: not begun; closing the tunnels of its snapshot; waiting; returned, with
  the number of tunnels stranded if the deadline passed.
\<close>

datatype tunnel_pc = NotStarted | Running | Recorded | Deleted | Released
datatype shutdown_pc = Idle | Closing "nat set" | Waiting | Returned "nat option"

text \<open>A tunnel only ever goes forward through its states, which orders them.\<close>

fun pc_rank :: "tunnel_pc \<Rightarrow> nat" where
  "pc_rank NotStarted = 0"
| "pc_rank Running = 1"
| "pc_rank Recorded = 2"
| "pc_rank Deleted = 3"
| "pc_rank Released = 4"

lemma pc_rank_inject: "pc_rank p = pc_rank q \<longleftrightarrow> p = q"
  by (cases p; cases q) simp_all

instantiation tunnel_pc :: linorder
begin

definition less_eq_tunnel_pc :: "tunnel_pc \<Rightarrow> tunnel_pc \<Rightarrow> bool" where
  "less_eq_tunnel_pc p q = (pc_rank p \<le> pc_rank q)"

definition less_tunnel_pc :: "tunnel_pc \<Rightarrow> tunnel_pc \<Rightarrow> bool" where
  "less_tunnel_pc p q = (pc_rank p < pc_rank q)"

instance
proof
  fix p q r :: tunnel_pc
  show "(p < q) = (p \<le> q \<and> \<not> q \<le> p)" by (auto simp: less_eq_tunnel_pc_def less_tunnel_pc_def)
  show "p \<le> p" by (simp add: less_eq_tunnel_pc_def)
  show "p \<le> q \<Longrightarrow> q \<le> r \<Longrightarrow> p \<le> r" by (simp add: less_eq_tunnel_pc_def)
  show "p \<le> q \<Longrightarrow> q \<le> p \<Longrightarrow> p = q" by (simp add: less_eq_tunnel_pc_def flip: pc_rank_inject)
  show "p \<le> q \<or> q \<le> p" by (auto simp: less_eq_tunnel_pc_def)
qed

end

record tunnels =
  sd_closing :: bool
  sd_tunnels :: "nat set"
  sd_next :: nat
  sd_wg :: nat
  sd_closed :: "nat set"
  sd_pc :: "nat \<Rightarrow> tunnel_pc"
  sd_shut :: shutdown_pc

definition sd_init :: tunnels where
  "sd_init =
     \<lparr>sd_closing = False, sd_tunnels = {}, sd_next = 0, sd_wg = 0, sd_closed = {},
      sd_pc = (\<lambda>_. NotStarted), sd_shut = Idle\<rparr>"

definition registerTunnel :: "tunnels \<Rightarrow> tunnels \<times> nat option" where
  "registerTunnel s =
     (if sd_closing s then (s, None)
      else let i = sd_next s + 1
           in (s\<lparr>sd_next := i, sd_tunnels := insert i (sd_tunnels s), sd_wg := sd_wg s + 1,
                 sd_pc := (sd_pc s)(i := Running)\<rparr>, Some i))"

text \<open>\<open>finish\<close>, then the two halves of \<open>unregister\<close>: the deletion under the mutex, and \<open>Done\<close>.\<close>

definition write_record :: "nat \<Rightarrow> tunnels \<Rightarrow> tunnels" where
  "write_record i s = s\<lparr>sd_pc := (sd_pc s)(i := Recorded)\<rparr>"

definition unregister_delete :: "nat \<Rightarrow> tunnels \<Rightarrow> tunnels" where
  "unregister_delete i s = s\<lparr>sd_tunnels := sd_tunnels s - {i}, sd_pc := (sd_pc s)(i := Deleted)\<rparr>"

definition unregister_done :: "nat \<Rightarrow> tunnels \<Rightarrow> tunnels" where
  "unregister_done i s = s\<lparr>sd_wg := sd_wg s - 1, sd_pc := (sd_pc s)(i := Released)\<rparr>"

definition shutdown_begin :: "tunnels \<Rightarrow> tunnels" where
  "shutdown_begin s = s\<lparr>sd_closing := True, sd_shut := Closing (sd_tunnels s)\<rparr>"

definition shutdown_close :: "nat \<Rightarrow> nat set \<Rightarrow> tunnels \<Rightarrow> tunnels" where
  "shutdown_close i live s = s\<lparr>sd_closed := insert i (sd_closed s), sd_shut := Closing (live - {i})\<rparr>"

definition isClosing :: "tunnels \<Rightarrow> bool" where
  "isClosing s = sd_closing s"

definition activeTunnels :: "tunnels \<Rightarrow> nat" where
  "activeTunnels s = card (sd_tunnels s)"

inductive sd_step :: "tunnels \<Rightarrow> tunnels \<Rightarrow> bool" where
  registers: "registerTunnel s = (t, r) \<Longrightarrow> sd_step s t"
| written: "sd_pc s i = Running \<Longrightarrow> sd_step s (write_record i s)"
| unmapped: "sd_pc s i = Recorded \<Longrightarrow> sd_step s (unregister_delete i s)"
| released: "sd_pc s i = Deleted \<Longrightarrow> sd_step s (unregister_done i s)"
| begin_shutdown: "sd_shut s = Idle \<Longrightarrow> sd_step s (shutdown_begin s)"
| closed: "sd_shut s = Closing live \<Longrightarrow> i \<in> live \<Longrightarrow> sd_step s (shutdown_close i live s)"
| waits: "sd_shut s = Closing {} \<Longrightarrow> sd_step s (s\<lparr>sd_shut := Waiting\<rparr>)"
| all_done: "sd_shut s = Waiting \<Longrightarrow> sd_wg s = 0 \<Longrightarrow> sd_step s (s\<lparr>sd_shut := Returned None\<rparr>)"
| expires: "sd_shut s = Waiting \<Longrightarrow> sd_step s (s\<lparr>sd_shut := Returned (Some (activeTunnels s))\<rparr>)"

inductive_cases sd_stepE: "sd_step s t"

inductive sd_reachable :: "tunnels \<Rightarrow> bool" where
  start: "sd_reachable sd_init"
| step: "sd_reachable s \<Longrightarrow> sd_step s t \<Longrightarrow> sd_reachable t"

section \<open>The invariant\<close>

definition live_pc :: "tunnel_pc \<Rightarrow> bool" where
  "live_pc p \<longleftrightarrow> p = Running \<or> p = Recorded \<or> p = Deleted"

text \<open>The tunnels that hold the wait group, and the ones in the map.\<close>

definition live_at :: "(nat \<Rightarrow> tunnel_pc) \<Rightarrow> nat set" where
  "live_at f = {i. live_pc (f i)}"

definition in_map :: "(nat \<Rightarrow> tunnel_pc) \<Rightarrow> nat set" where
  "in_map f = {i. f i = Running \<or> f i = Recorded}"

abbreviation holding :: "tunnels \<Rightarrow> nat set" where
  "holding s \<equiv> live_at (sd_pc s)"

abbreviation mapped :: "tunnels \<Rightarrow> nat set" where
  "mapped s \<equiv> in_map (sd_pc s)"

definition sd_inv :: "tunnels \<Rightarrow> bool" where
  "sd_inv s \<longleftrightarrow>
     sd_tunnels s = mapped s \<and> sd_wg s = card (holding s)
     \<and> (\<forall>i. sd_pc s i \<noteq> NotStarted \<longleftrightarrow> 1 \<le> i \<and> i \<le> sd_next s)
     \<and> (sd_closing s \<longleftrightarrow> sd_shut s \<noteq> Idle)
     \<and> (\<forall>live. sd_shut s = Closing live \<longrightarrow> finite live \<and> mapped s \<subseteq> live \<union> sd_closed s)
     \<and> (sd_shut s = Waiting \<or> (\<exists>r. sd_shut s = Returned r) \<longrightarrow> mapped s \<subseteq> sd_closed s)
     \<and> (sd_shut s = Returned None \<longrightarrow> holding s = {})"

lemma sd_inv_finite:
  assumes "sd_inv s"
  shows "finite (holding s)" "finite (mapped s)"
proof -
  have "holding s \<subseteq> {1..sd_next s}" "mapped s \<subseteq> {1..sd_next s}"
    using assms by (auto simp: sd_inv_def live_at_def in_map_def live_pc_def)
  then show "finite (holding s)" "finite (mapped s)" by (auto intro: finite_subset)
qed

lemma live_at_update:
  "live_at (f(i := p)) = (if live_pc p then insert i (live_at f) else live_at f - {i})"
  "in_map (f(i := p)) = (if p = Running \<or> p = Recorded then insert i (in_map f) else in_map f - {i})"
  by (auto simp: live_at_def in_map_def)

lemma inv_register:
  assumes "sd_inv s" "registerTunnel s = (t, r)"
  shows "sd_inv t"
proof (cases "sd_closing s")
  case True
  with assms show ?thesis by (simp add: registerTunnel_def)
next
  case False
  let ?i = "sd_next s + 1"
  have idle: "sd_shut s = Idle" and nums: "\<forall>i. sd_pc s i \<noteq> NotStarted \<longleftrightarrow> 1 \<le> i \<and> i \<le> sd_next s"
    and m: "sd_tunnels s = mapped s" and w: "sd_wg s = card (holding s)"
    using assms(1) False by (simp_all only: sd_inv_def) auto
  have "sd_pc s ?i = NotStarted" using nums by (metis Suc_eq_plus1 not_less_eq_eq order_refl)
  then have "?i \<notin> holding s" by (simp add: live_at_def live_pc_def)
  then have card: "card (insert ?i (holding s)) = card (holding s) + 1"
    using sd_inv_finite(1) [OF assms(1)] by simp
  have t: "t = s\<lparr>sd_next := ?i, sd_tunnels := insert ?i (sd_tunnels s), sd_wg := sd_wg s + 1,
      sd_pc := (sd_pc s)(?i := Running)\<rparr>"
    using assms(2) False by (simp add: registerTunnel_def Let_def)
  have "\<forall>i. ((sd_pc s)(?i := Running)) i \<noteq> NotStarted \<longleftrightarrow> 1 \<le> i \<and> i \<le> ?i"
  proof
    fix i
    show "((sd_pc s)(?i := Running)) i \<noteq> NotStarted \<longleftrightarrow> 1 \<le> i \<and> i \<le> ?i"
      using spec [OF nums, of i] by (cases "i = ?i") auto
  qed
  then show ?thesis
    using card by (simp add: t sd_inv_def idle False m w live_at_update live_pc_def)
qed

lemma inv_record: "sd_inv s \<Longrightarrow> sd_pc s i = Running \<Longrightarrow> sd_inv (write_record i s)"
proof -
  assume s: "sd_inv s" "sd_pc s i = Running"
  then have "i \<in> holding s" "i \<in> mapped s" by (auto simp: live_at_def in_map_def live_pc_def)
  with s show ?thesis
    by (auto simp: sd_inv_def write_record_def live_at_update live_pc_def insert_absorb)
qed

lemma inv_delete: "sd_inv s \<Longrightarrow> sd_pc s i = Recorded \<Longrightarrow> sd_inv (unregister_delete i s)"
proof -
  assume s: "sd_inv s" "sd_pc s i = Recorded"
  then have "i \<in> holding s" by (auto simp: live_at_def live_pc_def)
  with s show ?thesis
    by (auto simp: sd_inv_def unregister_delete_def live_at_update live_pc_def insert_absorb)
qed

lemma inv_release: "sd_inv s \<Longrightarrow> sd_pc s i = Deleted \<Longrightarrow> sd_inv (unregister_done i s)"
proof -
  assume s: "sd_inv s" "sd_pc s i = Deleted"
  then have "i \<in> holding s" "i \<notin> mapped s" by (auto simp: live_at_def in_map_def live_pc_def)
  with s sd_inv_finite(1) [OF s(1)] show ?thesis
    by (auto simp: sd_inv_def unregister_done_def live_at_update live_pc_def)
qed

lemma inv_shutdown:
  assumes "sd_inv s"
  shows "sd_shut s = Idle \<Longrightarrow> sd_inv (shutdown_begin s)"
    and "sd_shut s = Closing live \<Longrightarrow> sd_inv (shutdown_close i live s)"
    and "sd_shut s = Closing {} \<Longrightarrow> sd_inv (s\<lparr>sd_shut := Waiting\<rparr>)"
    and "sd_shut s = Waiting \<Longrightarrow> sd_wg s = 0 \<Longrightarrow> sd_inv (s\<lparr>sd_shut := Returned None\<rparr>)"
    and "sd_shut s = Waiting \<Longrightarrow> sd_inv (s\<lparr>sd_shut := Returned (Some n)\<rparr>)"
proof -
  note fin = sd_inv_finite [OF assms]
  show "sd_inv (shutdown_begin s)" if "sd_shut s = Idle"
    using assms fin that by (simp add: sd_inv_def shutdown_begin_def)
  show "sd_inv (shutdown_close i live s)" if "sd_shut s = Closing live"
  proof -
    have "mapped s \<subseteq> live - {i} \<union> insert i (sd_closed s)" using assms that by (auto simp: sd_inv_def)
    then show ?thesis using assms that by (simp add: sd_inv_def shutdown_close_def)
  qed
  show "sd_inv (s\<lparr>sd_shut := Waiting\<rparr>)" if "sd_shut s = Closing {}"
    using assms that by (simp add: sd_inv_def)
  show "sd_inv (s\<lparr>sd_shut := Returned None\<rparr>)" if "sd_shut s = Waiting" "sd_wg s = 0"
    using assms that fin(1) by (simp add: sd_inv_def)
  show "sd_inv (s\<lparr>sd_shut := Returned (Some n)\<rparr>)" if "sd_shut s = Waiting"
    using assms that by (simp add: sd_inv_def)
qed

lemma sd_step_inv: "sd_step s t \<Longrightarrow> sd_inv s \<Longrightarrow> sd_inv t"
  by (cases rule: sd_step.cases)
    (auto intro: inv_register inv_record inv_delete inv_release inv_shutdown)

lemma sd_init_inv: "sd_inv sd_init"
  by (simp add: sd_inv_def sd_init_def live_at_def in_map_def live_pc_def)

lemma sd_reachable_inv: "sd_reachable s \<Longrightarrow> sd_inv s"
  by (induction rule: sd_reachable.induct) (auto intro: sd_init_inv sd_step_inv)

section \<open>After the shutdown has begun\<close>

lemma closing_stays: "sd_step s t \<Longrightarrow> sd_closing s \<Longrightarrow> sd_closing t \<and> sd_next t = sd_next s"
  by (erule sd_stepE)
    (auto simp: registerTunnel_def write_record_def unregister_delete_def unregister_done_def
      shutdown_begin_def shutdown_close_def)

lemma sd_step_forward: "sd_step s t \<Longrightarrow> sd_inv s \<Longrightarrow> sd_pc s i \<le> sd_pc t i"
proof (induction rule: sd_step.induct)
  case (registers s t r)
  have "sd_pc s (sd_next s + 1) = NotStarted"
    using registers(2) by (metis Suc_eq_plus1 not_less_eq_eq order_refl sd_inv_def)
  with registers(1) show ?case
    by (auto simp: registerTunnel_def Let_def less_eq_tunnel_pc_def split: if_splits)
qed (auto simp: write_record_def unregister_delete_def unregister_done_def shutdown_begin_def
    shutdown_close_def less_eq_tunnel_pc_def)

lemma sd_steps_forward: "sd_step\<^sup>*\<^sup>* s t \<Longrightarrow> sd_inv s \<Longrightarrow> sd_inv t \<and> sd_pc s i \<le> sd_pc t i"
proof (induction rule: rtranclp_induct)
  case (step t u)
  then have "sd_inv t" "sd_pc s i \<le> sd_pc t i" by blast+
  with step.hyps(2) show ?case using sd_step_inv sd_step_forward order_trans by blast
qed simp

lemma closing_stays_rtranclp:
  "sd_step\<^sup>*\<^sup>* s t \<Longrightarrow> sd_closing s \<Longrightarrow> sd_closing t \<and> sd_next t = sd_next s"
  by (induction rule: rtranclp_induct) (auto dest: closing_stays)

lemma sd_reachable_rtranclp: "sd_step\<^sup>*\<^sup>* s t \<Longrightarrow> sd_reachable s \<Longrightarrow> sd_reachable t"
  by (induction rule: rtranclp_induct) (auto intro: sd_reachable.step)

text \<open>The work left to a closing gate: what each tunnel and the shutdown have still to do.\<close>

fun tunnel_work :: "tunnel_pc \<Rightarrow> nat" where
  "tunnel_work Running = 3"
| "tunnel_work Recorded = 2"
| "tunnel_work Deleted = 1"
| "tunnel_work _ = 0"

fun shutdown_work :: "shutdown_pc \<Rightarrow> nat" where
  "shutdown_work (Closing live) = card live + 2"
| "shutdown_work Waiting = 1"
| "shutdown_work _ = 0"

definition sd_work :: "tunnels \<Rightarrow> nat" where
  "sd_work s = (\<Sum>i = 1..sd_next s. tunnel_work (sd_pc s i)) + shutdown_work (sd_shut s)"

lemma tunnel_work_update:
  assumes "sd_inv s" "sd_pc s i = q" "q \<noteq> NotStarted" "tunnel_work p < tunnel_work q"
  shows "(\<Sum>j = 1..sd_next s. tunnel_work (((sd_pc s)(i := p)) j))
       < (\<Sum>j = 1..sd_next s. tunnel_work (sd_pc s j))"
proof (rule sum_strict_mono_ex1)
  show "\<exists>j\<in>{1..sd_next s}. tunnel_work (((sd_pc s)(i := p)) j) < tunnel_work (sd_pc s j)"
    using assms by (intro bexI [of _ i]) (auto simp: sd_inv_def)
qed (use assms in auto)

text \<open>Every step of a closing gate either changes nothing, or leaves it less to do.\<close>

lemma sd_step_work:
  assumes "sd_inv s" "sd_closing s" "sd_step s t" "t \<noteq> s"
  shows "sd_work t < sd_work s"
  using assms(3)
proof cases
  case (registers r)
  with assms show ?thesis by (simp add: registerTunnel_def)
next
  case (written i)
  with tunnel_work_update [OF assms(1), of i] show ?thesis by (simp add: write_record_def sd_work_def)
next
  case (unmapped i)
  with tunnel_work_update [OF assms(1), of i] show ?thesis by (simp add: unregister_delete_def sd_work_def)
next
  case (released i)
  with tunnel_work_update [OF assms(1), of i] show ?thesis by (simp add: unregister_done_def sd_work_def)
next
  case begin_shutdown
  with assms show ?thesis by (simp add: sd_inv_def)
next
  case (closed live i)
  then have "finite live" using assms(1) by (simp add: sd_inv_def)
  then have "card (live - {i}) < card live" using closed(3) by (rule card_Diff1_less)
  with closed(1,2) show ?thesis by (simp only: shutdown_close_def sd_work_def) simp
qed (auto simp: sd_work_def)

text \<open>
  The steps that need nothing but the gate: those of the shutdown short of its deadline, those of
  a tunnel whose pump is over, and the end of a pump whose two connections have been closed.
\<close>

inductive sd_forced :: "tunnels \<Rightarrow> tunnels \<Rightarrow> bool" where
  f_written: "sd_pc s i = Running \<Longrightarrow> i \<in> sd_closed s \<Longrightarrow> sd_forced s (write_record i s)"
| f_unmapped: "sd_pc s i = Recorded \<Longrightarrow> sd_forced s (unregister_delete i s)"
| f_released: "sd_pc s i = Deleted \<Longrightarrow> sd_forced s (unregister_done i s)"
| f_closed: "sd_shut s = Closing live \<Longrightarrow> i \<in> live \<Longrightarrow> sd_forced s (shutdown_close i live s)"
| f_waits: "sd_shut s = Closing {} \<Longrightarrow> sd_forced s (s\<lparr>sd_shut := Waiting\<rparr>)"
| f_all_done: "sd_shut s = Waiting \<Longrightarrow> sd_wg s = 0 \<Longrightarrow> sd_forced s (s\<lparr>sd_shut := Returned None\<rparr>)"

lemma sd_forced_step: "sd_forced s t \<Longrightarrow> sd_step s t"
  by (induction rule: sd_forced.induct) (auto intro: sd_step.intros)

lemma sd_forced_changes: "sd_forced s t \<Longrightarrow> t \<noteq> s"
proof -
  assume "sd_forced s t"
  then have "sd_pc t \<noteq> sd_pc s \<or> sd_shut t \<noteq> sd_shut s"
    by cases (auto simp: write_record_def unregister_delete_def unregister_done_def shutdown_close_def
        fun_eq_iff)
  then show "t \<noteq> s" by blast
qed

text \<open>Until everything is released and the shutdown has returned, such a step is there.\<close>

definition settled :: "tunnels \<Rightarrow> bool" where
  "settled s \<longleftrightarrow> holding s = {} \<and> (\<exists>r. sd_shut s = Returned r)"

lemma sd_forced_progress:
  assumes inv: "sd_inv s" and c: "sd_closing s" and n: "\<not> settled s"
  shows "\<exists>t. sd_forced s t"
proof (cases "holding s = {}")
  case True
  then have "sd_wg s = 0" using inv by (simp add: sd_inv_def)
  moreover have "(\<exists>live. sd_shut s = Closing live) \<or> sd_shut s = Waiting"
    using n c True inv by (cases "sd_shut s") (auto simp: settled_def sd_inv_def)
  ultimately show ?thesis using f_all_done f_waits f_closed by (metis all_not_in_conv)
next
  case False
  then obtain i where i: "live_pc (sd_pc s i)" by (auto simp: live_at_def)
  show ?thesis
  proof (cases "\<exists>live. sd_shut s = Closing live")
    case True
    then show ?thesis using f_waits f_closed by (metis all_not_in_conv)
  next
    case False
    have "sd_shut s \<noteq> Idle" using c inv by (simp add: sd_inv_def)
    with False have "sd_shut s = Waiting \<or> (\<exists>r. sd_shut s = Returned r)" by (cases "sd_shut s") auto
    then have "mapped s \<subseteq> sd_closed s" using inv by (simp add: sd_inv_def)
    then show ?thesis
      using i f_written f_unmapped f_released unfolding live_pc_def in_map_def by blast
  qed
qed

lemma sd_forced_returned: "sd_forced s t \<Longrightarrow> sd_shut s = Returned r \<Longrightarrow> sd_shut t = Returned r"
  by (induction rule: sd_forced.induct)
    (auto simp: write_record_def unregister_delete_def unregister_done_def)

text \<open>What the shutdown returns if nothing but the gate itself steps.\<close>

definition outcome :: "shutdown_pc \<Rightarrow> nat option" where
  "outcome x = (case x of Returned r \<Rightarrow> r | _ \<Rightarrow> None)"

lemma sd_forced_outcome: "sd_forced s t \<Longrightarrow> outcome (sd_shut t) = outcome (sd_shut s)"
  by (induction rule: sd_forced.induct)
    (auto simp: outcome_def write_record_def unregister_delete_def unregister_done_def
      shutdown_close_def)

lemma sd_settles:
  assumes "sd_inv s" "sd_closing s"
  shows "\<exists>t. sd_forced\<^sup>*\<^sup>* s t \<and> settled t \<and> outcome (sd_shut t) = outcome (sd_shut s)
    \<and> sd_inv t \<and> sd_next t = sd_next s"
  using assms
proof (induction "sd_work s" arbitrary: s rule: less_induct)
  case less
  show ?case
  proof (cases "settled s")
    case False
    then obtain u where u: "sd_forced s u" using sd_forced_progress less.prems by blast
    then have step: "sd_step s u" "u \<noteq> s" using sd_forced_step sd_forced_changes by blast+
    have "sd_work u < sd_work s" using sd_step_work less.prems step by blast
    with less.hyps [of u] step obtain t where
      "sd_forced\<^sup>*\<^sup>* u t" "settled t" "outcome (sd_shut t) = outcome (sd_shut u)" "sd_inv t"
      "sd_next t = sd_next u"
      using closing_stays less.prems sd_step_inv by blast
    then show ?thesis
      using u sd_forced_outcome [OF u] closing_stays [OF step(1)] less.prems
      by (metis converse_rtranclp_into_rtranclp)
  qed (use less.prems in blast)
qed

lemma sd_inv_pcs: "sd_inv s \<Longrightarrow> holding s = {} \<Longrightarrow> 1 \<le> i \<Longrightarrow> i \<le> sd_next s \<Longrightarrow> sd_pc s i = Released"
  by (cases "sd_pc s i") (auto simp: sd_inv_def live_at_def live_pc_def)

lemma quiet_step:
  assumes "sd_closing s" "holding s = {}" "sd_step s t"
  shows "sd_pc t = sd_pc s"
proof -
  have "\<not> live_pc (sd_pc s i)" for i using assms(2) by (auto simp: live_at_def)
  then show ?thesis
    using assms(1,3)
    by (auto elim!: sd_stepE simp: live_pc_def registerTunnel_def shutdown_begin_def shutdown_close_def)
qed

lemma quiet_steps:
  "sd_step\<^sup>*\<^sup>* s t \<Longrightarrow> sd_closing s \<Longrightarrow> holding s = {} \<Longrightarrow> sd_pc t = sd_pc s"
proof (induction rule: rtranclp_induct)
  case (step t u)
  then have "sd_pc t = sd_pc s" "sd_closing t" using closing_stays_rtranclp by blast+
  then show ?case using step quiet_step [of t u] by simp
qed simp

lemma sd_run_work:
  assumes "sd_inv s" "sd_closing s" "((\<lambda>a b. sd_step a b \<and> b \<noteq> a) ^^ n) s t"
  shows "sd_inv t \<and> sd_closing t \<and> n + sd_work t \<le> sd_work s"
  using assms(3)
proof (induction n arbitrary: t)
  case 0
  then show ?case using assms(1,2) by simp
next
  case (Suc n)
  from Suc.prems obtain u where u: "((\<lambda>a b. sd_step a b \<and> b \<noteq> a) ^^ n) s u" "sd_step u t" "t \<noteq> u"
    unfolding relpowp.simps relcompp.simps by blast
  note iu = Suc.IH [OF u(1)]
  then have "sd_work t < sd_work u" using sd_step_work u(2,3) by blast
  moreover have "sd_inv t" "sd_closing t" using iu u(2) sd_step_inv closing_stays by blast+
  ultimately show ?case using iu by simp
qed

section \<open>A run\<close>

text \<open>One tunnel that is open when the shutdown begins, and the run to its end.\<close>

definition one_open :: tunnels where
  "one_open = shutdown_begin (fst (registerTunnel sd_init))"

definition one_settled :: tunnels where
  "one_settled =
     (let s = shutdown_close 1 {1} one_open;
          s = s\<lparr>sd_shut := Waiting\<rparr>;
          s = unregister_done 1 (unregister_delete 1 (write_record 1 s))
      in s\<lparr>sd_shut := Returned None\<rparr>)"

lemma one_open_eq:
  "one_open = \<lparr>sd_closing = True, sd_tunnels = {1}, sd_next = 1, sd_wg = 1, sd_closed = {},
     sd_pc = (\<lambda>_. NotStarted)(1 := Running), sd_shut = Closing {1}\<rparr>"
  by (simp add: one_open_def shutdown_begin_def registerTunnel_def sd_init_def)

lemma one_open_reachable: "sd_reachable one_open"
proof -
  have "sd_reachable (fst (registerTunnel sd_init))"
    using sd_reachable.step [OF sd_reachable.start registers] by (metis prod.collapse)
  then show ?thesis
    unfolding one_open_def
    by (rule sd_reachable.step) (auto intro!: begin_shutdown simp: registerTunnel_def sd_init_def)
qed

lemma one_settled_steps: "sd_step\<^sup>*\<^sup>* one_open one_settled"
proof -
  let ?a = "shutdown_close 1 {1} one_open"
  let ?b = "?a\<lparr>sd_shut := Waiting\<rparr>"
  let ?c = "write_record 1 ?b"
  let ?d = "unregister_delete 1 ?c"
  let ?e = "unregister_done 1 ?d"
  have "sd_step one_open ?a" by (rule closed) (simp_all add: one_open_eq)
  moreover have "sd_step ?a ?b" by (rule waits) (simp add: shutdown_close_def)
  moreover have "sd_step ?b ?c" by (rule written) (simp add: shutdown_close_def one_open_eq)
  moreover have "sd_step ?c ?d" by (rule unmapped) (simp add: write_record_def)
  moreover have "sd_step ?d ?e" by (rule released) (simp add: unregister_delete_def)
  moreover have "sd_step ?e one_settled"
    unfolding one_settled_def Let_def
    by (rule all_done)
      (simp_all add: unregister_done_def unregister_delete_def write_record_def shutdown_close_def one_open_eq)
  ultimately show ?thesis by (meson converse_rtranclp_into_rtranclp rtranclp.rtrancl_refl)
qed

section \<open>Properties\<close>

text \<open>C5. In every interleaving, a shutdown that returns nil has waited for every tunnel ever
  started: each has written its record and released the wait, none is in the map, and from then
  on no tunnel writes a record, so the chain head read after it is final as far as tunnels go.\<close>

theorem shutdown_waits:
  assumes "sd_reachable s" "sd_shut s = Returned None"
  shows "sd_wg s = 0 \<and> activeTunnels s = 0
    \<and> (\<forall>i\<in>{1..sd_next s}. sd_pc s i = Released)
    \<and> (\<forall>t. sd_step\<^sup>*\<^sup>* s t \<longrightarrow> sd_pc t = sd_pc s)"
proof -
  note inv = sd_reachable_inv [OF assms(1)]
  then have h: "holding s = {}" and c: "sd_closing s" using assms(2) by (auto simp: sd_inv_def)
  have "mapped s \<subseteq> holding s" by (auto simp: live_at_def in_map_def live_pc_def)
  with h inv have "sd_wg s = 0" "sd_tunnels s = {}" by (auto simp: sd_inv_def)
  then have "sd_wg s = 0 \<and> activeTunnels s = 0" by (simp add: activeTunnels_def)
  moreover have "\<forall>i\<in>{1..sd_next s}. sd_pc s i = Released" using sd_inv_pcs [OF inv h] by auto
  moreover have "\<forall>t. sd_step\<^sup>*\<^sup>* s t \<longrightarrow> sd_pc t = sd_pc s" using quiet_steps [OF _ c h] by blast
  ultimately show ?thesis by blast
qed

theorem shutdown_waits_witness: "sd_pc one_settled 1 = Released \<and> activeTunnels one_settled = 0"
proof -
  have end_state: "sd_next one_settled = 1" "sd_shut one_settled = Returned None"
    by (simp_all add: one_settled_def Let_def unregister_done_def unregister_delete_def write_record_def
        shutdown_close_def one_open_eq)
  show ?thesis
    using shutdown_waits [OF sd_reachable_rtranclp [OF one_settled_steps one_open_reachable] end_state(2)]
    unfolding end_state(1) by (metis atLeastAtMost_singleton singletonI)
qed

text \<open>Once the shutdown has begun no tunnel starts: every registration in every later state is
  refused and changes nothing, and the tunnels that had started only go forward. Every one of them
  is closed by the time the shutdown waits, unless its pump was already over.\<close>

lemma shutdown_refuses:
  assumes "sd_reachable s" "sd_shut s \<noteq> Idle" "sd_step\<^sup>*\<^sup>* s t"
  shows "isClosing t \<and> registerTunnel t = (t, None) \<and> sd_next t = sd_next s
    \<and> (\<forall>i. sd_pc s i \<le> sd_pc t i \<and> (sd_pc s i = NotStarted \<longrightarrow> sd_pc t i = NotStarted))
    \<and> (sd_shut t = Waiting \<longrightarrow> (\<forall>i. sd_pc t i = Running \<longrightarrow> i \<in> sd_closed t))"
proof -
  have c: "sd_closing s" using assms(2) sd_reachable_inv [OF assms(1)] by (simp add: sd_inv_def)
  note stays = closing_stays_rtranclp [OF assms(3) c]
  have inv: "sd_inv s" "sd_inv t" using sd_reachable_inv sd_reachable_rtranclp assms(1,3) by blast+
  then have "sd_shut t = Waiting \<longrightarrow> mapped t \<subseteq> sd_closed t" by (simp add: sd_inv_def)
  moreover have "sd_pc s i \<le> sd_pc t i" for i using sd_steps_forward [OF assms(3) inv(1)] by blast
  moreover have "sd_pc t i = NotStarted" if "sd_pc s i = NotStarted" for i
    using inv stays that unfolding sd_inv_def by metis
  ultimately show ?thesis using stays by (auto simp: isClosing_def registerTunnel_def in_map_def)
qed

text \<open>The shutdown comes to an end. From every state in which it has begun, the gate's own
  steps (closing connections, the end of pumps whose connections are closed, records, releases)
  lead to a state in which every tunnel has been released and the shutdown has returned, with nil
  unless the deadline had already passed; and no run has more effective steps than the work left,
  so nothing can keep the gate from getting there.\<close>

lemma shutdown_settles:
  assumes "sd_reachable s" "sd_shut s \<noteq> Idle"
  shows "(\<exists>t. sd_forced\<^sup>*\<^sup>* s t \<and> sd_shut t = Returned (outcome (sd_shut s))
       \<and> (\<forall>i\<in>{1..sd_next s}. sd_pc t i = Released))
    \<and> (\<forall>n t. ((\<lambda>a b. sd_step a b \<and> b \<noteq> a) ^^ n) s t \<longrightarrow> n \<le> sd_work s)"
proof
  note inv = sd_reachable_inv [OF assms(1)]
  then have c: "sd_closing s" using assms(2) by (simp add: sd_inv_def)
  obtain t where t: "sd_forced\<^sup>*\<^sup>* s t" "settled t" "outcome (sd_shut t) = outcome (sd_shut s)"
    "sd_inv t" "sd_next t = sd_next s"
    using sd_settles [OF inv c] by blast
  then have "sd_shut t = Returned (outcome (sd_shut s))" by (auto simp: settled_def outcome_def)
  with t show "\<exists>t. sd_forced\<^sup>*\<^sup>* s t \<and> sd_shut t = Returned (outcome (sd_shut s))
      \<and> (\<forall>i\<in>{1..sd_next s}. sd_pc t i = Released)"
    using sd_inv_pcs [OF t(4)] by (auto simp: settled_def)
  show "\<forall>n t. ((\<lambda>a b. sd_step a b \<and> b \<noteq> a) ^^ n) s t \<longrightarrow> n \<le> sd_work s"
  proof (intro allI impI)
    fix n t
    assume "((\<lambda>a b. sd_step a b \<and> b \<noteq> a) ^^ n) s t"
    from sd_run_work [OF inv c this] show "n \<le> sd_work s" by simp
  qed
qed

lemma shutdown_settles_instance:
  "\<exists>t. sd_forced\<^sup>*\<^sup>* one_open t \<and> sd_shut t = Returned None \<and> sd_pc t 1 = Released"
proof -
  have "sd_shut one_open \<noteq> Idle" "outcome (sd_shut one_open) = None" "sd_next one_open = 1"
    by (simp_all add: one_open_eq outcome_def)
  with shutdown_settles [OF one_open_reachable] show ?thesis by auto
qed

end
