(* ===== verification/Handler.thy ===== *)
theory Handler
  imports Session Pump Shutdown
begin

text \<open>
  The handlers of \<open>internal/proxy\<close> as programs of atomic actions, for the concurrent gate: each
  question to the shared state (the policy, \<open>isClosing\<close>, \<open>registerTunnel\<close>), each append, each
  collector's update and each effect on the world is one node, and a question's continuation takes
  its answer. Run alone, a program does what its handler does; a discipline on programs says when
  one may record, register and release.
\<close>

section \<open>Programs\<close>

text \<open>The updates of the collectors; each is atomic on its own.\<close>

datatype meter =
    CountRequest string string string
  | ObserveDuration string int
  | AddBytes string int
  | TunnelsInc
  | TunnelsDec

primrec meter_run :: "meter \<Rightarrow> metrics \<Rightarrow> metrics" where
  "meter_run (CountRequest d r k) = count_request d r k"
| "meter_run (ObserveDuration k n) = observe k n"
| "meter_run (AddBytes dir n) = add_bytes dir n"
| "meter_run TunnelsInc = tunnels_Inc"
| "meter_run TunnelsDec = tunnels_Dec"

datatype prog =
    Return
  | Ask request "decision \<Rightarrow> prog"
  | AskClosing "bool \<Rightarrow> prog"
  | Register "bool \<Rightarrow> prog"
  | RunPump "pumped \<Rightarrow> prog"
  | Act effect prog
  | AppendRecord audit_record prog
  | Meter meter prog
  | DeleteTunnel prog
  | TunnelDone prog

definition finish_prog :: "gate_env \<Rightarrow> audit_record \<Rightarrow> int \<Rightarrow> prog \<Rightarrow> prog" where
  "finish_prog env rec0 status k =
     (let r = rec0\<lparr>a_status := of_int status, a_duration_ms := ge_ms env\<rparr>
      in AppendRecord r
           (Meter (CountRequest (a_decision r) (a_rule r) (a_kind r))
             (Meter (ObserveDuration (a_kind r) (sint (ge_ms env)))
               (Meter (AddBytes ''up'' (sint (a_bytes_up r)))
                 (Meter (AddBytes ''down'' (sint (a_bytes_down r))) k)))))"

text \<open>\<open>finish\<close>, \<open>http.Error\<close>, return.\<close>

definition refuse_prog :: "gate_env \<Rightarrow> audit_record \<Rightarrow> int \<Rightarrow> string \<Rightarrow> prog" where
  "refuse_prog env rec0 status msg = finish_prog env rec0 status (Act (Refused status msg) Return)"

definition forward_prog ::
  "gate_env \<Rightarrow> upstream_env \<Rightarrow> audit_record \<Rightarrow> http_request \<Rightarrow> prog" where
  "forward_prog env ue rec0 r =
     Act (RoundTrip (forwarded r))
       (case ue_rt ue (forwarded r) of
          Inl _ \<Rightarrow>
            refuse_prog env (rec0\<lparr>a_bytes_up := sent_count ue r\<rparr>) 502 ''egressgate: upstream request failed''
        | Inr (status, hdr, down, _) \<Rightarrow>
            Act (Responded status (removeHopByHop hdr))
              (finish_prog env (rec0\<lparr>a_bytes_up := sent_count ue r, a_bytes_down := of_nat down\<rparr>) status Return))"

definition http_prog :: "casemap \<Rightarrow> gate_env \<Rightarrow> upstream_env \<Rightarrow> http_request \<Rightarrow> prog" where
  "http_prog cm env ue r =
     (let u = hr_url r;
          rec0 = zero_record\<lparr>a_kind := KindHTTP, a_method := hr_method r, a_client := clientIP (hr_remote r)\<rparr>
      in if \<not> IsAbs u then
           refuse_prog env
             (rec0\<lparr>a_decision := Deny, a_reason := not_absolute_reason, a_host := hr_host r, a_path := u_path u\<rparr>) 400
             ''egressgate: this is a forward proxy; configure it as one and send an absolute request URI''
         else case request_port u of
           None \<Rightarrow>
             refuse_prog env
               (rec0\<lparr>a_decision := Deny, a_reason := ''unparseable port '' @ Quote env (Port u), a_host := Hostname u\<rparr>) 400
               ''egressgate: bad port in request URI''
         | Some port \<Rightarrow>
             (let rec1 = rec0\<lparr>a_host := Hostname u, a_port := of_int port, a_path := u_path u\<rparr>
              in case normalisedPath cm u of (norm, ok) \<Rightarrow>
                (if \<not> ok then
                   refuse_prog env (rec1\<lparr>a_decision := Deny, a_reason := path_reason env (u_path u) norm\<rparr>) 400
                     (''egressgate: '' @ path_reason env (u_path u) norm)
                 else
                   Ask (http_question r port) (\<lambda>d.
                     let rec2 = rec1\<lparr>a_decision := d_action d, a_rule := d_rule d, a_reason := d_reason d\<rparr>
                     in if d_action d \<noteq> Allow then
                          refuse_prog env rec2 403 (''egressgate: denied by policy: '' @ d_reason d)
                        else forward_prog env ue rec2 r))))"

text \<open>The deferred calls of a tunnel that took the client's connection.\<close>

definition close_ends :: prog where
  "close_ends = Act ClosedClient (Act ClosedUpstream Return)"

definition tunnel_prog :: "config \<Rightarrow> gate_env \<Rightarrow> audit_record \<Rightarrow> prog" where
  "tunnel_prog cfg env rec0 =
     Meter TunnelsInc
       (RunPump (\<lambda>p.
         finish_prog env (tunnel_record cfg rec0 p) 200
           (Meter TunnelsDec (DeleteTunnel (TunnelDone close_ends)))))"

definition open_prog :: "config \<Rightarrow> gate_env \<Rightarrow> connect_env \<Rightarrow> audit_record \<Rightarrow> prog" where
  "open_prog cfg env ce rec0 =
     (if \<not> ce_hijacker ce then
        finish_prog env (rec0\<lparr>a_reason := ''the server does not support connection hijacking''\<rparr>) 500
          (Act (Refused 500 ''egressgate: tunnelling unsupported on this server'') (Act ClosedUpstream Return))
      else if ce_hijack ce \<noteq> None then
        finish_prog env rec0 500
          (Act (Refused 500 ''egressgate: could not take over the connection'') (Act ClosedUpstream Return))
      else
        Act Hijacked (Act (Wrote established)
          (if ce_established ce \<noteq> None then
             finish_prog env (rec0\<lparr>a_reason := ''client went away before the tunnel opened''\<rparr>) 502 close_ends
           else
             Register (\<lambda>started.
               if \<not> started then finish_prog env (rec0\<lparr>a_reason := began_closing_reason\<rparr>) 503 close_ends
               else tunnel_prog cfg env rec0))))"

definition connect_prog :: "config \<Rightarrow> gate_env \<Rightarrow> connect_env \<Rightarrow> http_request \<Rightarrow> prog" where
  "connect_prog cfg env ce r =
     (let rec0 = zero_record\<lparr>a_kind := KindConnect, a_client := clientIP (hr_remote r)\<rparr>;
          authority = (if hr_host r = [] then u_host (hr_url r) else hr_host r)
      in case splitAuthority authority of
           Inl e \<Rightarrow>
             refuse_prog env
               (rec0\<lparr>a_host := authority, a_decision := Deny, a_reason := authority_message env e\<rparr>) 400
               (''egressgate: '' @ authority_message env e)
         | Inr (host, port) \<Rightarrow>
             Ask (connect_question host port) (\<lambda>d.
               let rec1 = rec0\<lparr>a_host := host, a_port := of_int port, a_decision := d_action d,
                               a_rule := d_rule d, a_reason := d_reason d\<rparr>
               in if d_action d \<noteq> Allow then
                    refuse_prog env rec1 403 (''egressgate: denied by policy: '' @ d_reason d)
                  else
                    AskClosing (\<lambda>closing.
                      if closing then
                        refuse_prog env (rec1\<lparr>a_reason := shutting_down_reason\<rparr>) 503
                          (''egressgate: '' @ shutting_down_reason)
                      else
                        Act (Dialled (dial_address host port))
                          (case ce_dial ce (dial_address host port) of
                             Some _ \<Rightarrow> refuse_prog env rec1 502 ''egressgate: could not reach upstream''
                           | None \<Rightarrow> open_prog cfg env ce rec1))))"

definition serve_prog :: "casemap \<Rightarrow> config \<Rightarrow> exchange \<Rightarrow> prog" where
  "serve_prog cm cfg x =
     (case x of (env, ue, ce, r) \<Rightarrow>
        if hr_method r = ''CONNECT'' then connect_prog cfg env ce r else http_prog cm env ue r)"

section \<open>A program run alone\<close>

text \<open>Every question answered as the environment of the sequential handler answers it.\<close>

primrec prog_run ::
  "(string \<Rightarrow> string) \<Rightarrow> config \<Rightarrow> gate_env \<Rightarrow> connect_env \<Rightarrow> prog \<Rightarrow> proxy \<Rightarrow> proxy" where
  "prog_run H cfg env ce Return = (\<lambda>st. st)"
| "prog_run H cfg env ce (Ask q k) = (\<lambda>st. prog_run H cfg env ce (k (ge_eval env q)) (emit (Asked q) st))"
| "prog_run H cfg env ce (AskClosing k) = prog_run H cfg env ce (k (ce_closing ce))"
| "prog_run H cfg env ce (Register k) =
     (\<lambda>st. prog_run H cfg env ce (k (ce_started ce)) (if ce_started ce then emit Registered st else st))"
| "prog_run H cfg env ce (RunPump k) =
     (\<lambda>st. let p = pumped_through cfg ce
           in prog_run H cfg env ce (k p) (emit (Piped (pu_up p) (pu_down p)) st))"
| "prog_run H cfg env ce (Act e p) = (\<lambda>st. prog_run H cfg env ce p (emit e st))"
| "prog_run H cfg env ce (AppendRecord r p) =
     (\<lambda>st. prog_run H cfg env ce p
             (emit (Audited r) (st\<lparr>px_log := fst (Append H (ge_now env) (ge_write env) (px_log st) r)\<rparr>)))"
| "prog_run H cfg env ce (Meter m p) = (\<lambda>st. prog_run H cfg env ce p (with_metrics (meter_run m) st))"
| "prog_run H cfg env ce (DeleteTunnel p) = prog_run H cfg env ce p"
| "prog_run H cfg env ce (TunnelDone p) = (\<lambda>st. prog_run H cfg env ce p (emit Unregistered st))"

lemma run_finish:
  "prog_run H cfg env ce (finish_prog env r s k) st = prog_run H cfg env ce k (finish H env r s st)"
  by (cases st) (simp add: finish_prog_def finish_def emit_def with_metrics_def Let_def)

lemma run_refuse:
  "prog_run H cfg env ce (refuse_prog env r s msg) st = http_Error msg s (finish H env r s st)"
  by (simp add: refuse_prog_def run_finish http_Error_def)

lemma run_close_ends: "prog_run H cfg env ce close_ends st = ends_closed st"
  by (simp add: close_ends_def ends_closed_def)

lemma run_forward: "prog_run H cfg env ce (forward_prog env ue rec0 r) st = forward H env ue rec0 r st"
  by (simp add: forward_prog_def forward_def Let_def run_finish run_refuse split: sum.split)

lemma run_tunnel_prog:
  "prog_run H cfg env ce (tunnel_prog cfg env rec0) (emit Registered st) = run_tunnel H cfg env ce rec0 st"
  by (simp add: tunnel_prog_def run_tunnel_def Let_def run_finish run_close_ends)

lemma run_open: "prog_run H cfg env ce (open_prog cfg env ce rec0) st = open_tunnel H cfg env ce rec0 st"
  by (simp add: open_prog_def open_tunnel_def Let_def run_finish run_close_ends run_tunnel_prog http_Error_def)

lemma run_http: "prog_run H cfg env ce (http_prog cm env ue r) st = handleHTTP H cm env ue r st"
  by (simp add: http_prog_def handleHTTP_def Let_def run_refuse run_forward split: option.split prod.split)

lemma run_connect: "prog_run H cfg env ce (connect_prog cfg env ce r) st = handleConnect H cfg env ce r st"
  by (simp add: connect_prog_def handleConnect_def Let_def run_refuse run_open split: option.split sum.split prod.split)

lemma run_serve:
  "prog_run H cfg env ce (serve_prog cm cfg (env, ue, ce, r)) st = ServeHTTP H cm cfg env ue ce r st"
  by (simp add: serve_prog_def ServeHTTP_def run_http run_connect)

section \<open>The discipline\<close>

text \<open>
  Where a request is: not judged, denied, allowed, its record written without a tunnel, or holding
  the registration of a tunnel. A program may reach out only when allowed, records once, and
  releases what it holds once, after the record.
\<close>

datatype phase = Unjudged | Denied | Allowed | Settled | Holding tunnel_pc

fun after_record :: "phase \<Rightarrow> phase option" where
  "after_record Settled = None"
| "after_record (Holding pc) = (if pc = Running then Some (Holding Recorded) else None)"
| "after_record _ = Some Settled"

fun act_ok :: "phase \<Rightarrow> effect \<Rightarrow> bool" where
  "act_ok ph (RoundTrip _) = (ph = Allowed)"
| "act_ok ph (Dialled _) = (ph = Allowed)"
| "act_ok ph Hijacked = (ph = Allowed)"
| "act_ok ph (Wrote _) = (ph = Allowed)"
| "act_ok ph (Responded _ _) = (ph = Allowed)"
| "act_ok ph (Refused _ _) = (ph = Settled)"
| "act_ok ph ClosedClient = (ph = Settled \<or> ph = Holding Released)"
| "act_ok ph ClosedUpstream = (ph = Settled \<or> ph = Holding Released)"
| "act_ok ph _ = False"

primrec typed :: "prog \<Rightarrow> phase \<Rightarrow> bool" where
  "typed Return = (\<lambda>ph. ph = Settled \<or> ph = Holding Released)"
| "typed (Ask q k) =
     (\<lambda>ph. ph = Unjudged \<and> (\<forall>d. typed (k d) (if d_action d = Allow then Allowed else Denied)))"
| "typed (AskClosing k) = (\<lambda>ph. ph = Allowed \<and> (\<forall>b. typed (k b) Allowed))"
| "typed (Register k) = (\<lambda>ph. ph = Allowed \<and> typed (k True) (Holding Running) \<and> typed (k False) Allowed)"
| "typed (RunPump k) = (\<lambda>ph. ph = Holding Running \<and> (\<forall>p. typed (k p) ph))"
| "typed (Act e p) = (\<lambda>ph. act_ok ph e \<and> typed p ph)"
| "typed (AppendRecord r p) = (\<lambda>ph. case after_record ph of None \<Rightarrow> False | Some ph' \<Rightarrow> typed p ph')"
| "typed (Meter m p) = typed p"
| "typed (DeleteTunnel p) = (\<lambda>ph. ph = Holding Recorded \<and> typed p (Holding Deleted))"
| "typed (TunnelDone p) = (\<lambda>ph. ph = Holding Deleted \<and> typed p (Holding Released))"

lemma typed_finish: "typed (finish_prog env r s k) ph = (case after_record ph of None \<Rightarrow> False | Some ph' \<Rightarrow> typed k ph')"
  by (simp add: finish_prog_def Let_def split: option.split)

lemma typed_refuse: "typed (refuse_prog env r s msg) ph = (after_record ph = Some Settled)"
  by (auto simp: refuse_prog_def typed_finish split: option.split)

lemma typed_http: "typed (http_prog cm env ue r) Unjudged"
  by (auto simp: http_prog_def forward_prog_def Let_def typed_refuse typed_finish split: option.split prod.split sum.split)

lemma typed_open: "typed (open_prog cfg env ce rec0) Allowed"
  by (simp add: open_prog_def tunnel_prog_def close_ends_def typed_finish)

lemma typed_connect: "typed (connect_prog cfg env ce r) Unjudged"
  by (auto simp: connect_prog_def Let_def typed_refuse typed_open split: option.split prod.split sum.split)

lemma typed_serve: "typed (serve_prog cm cfg x) Unjudged"
  by (cases x) (simp add: serve_prog_def typed_http typed_connect)

text \<open>Each question is asked at most once, in this order.\<close>

primrec staged :: "prog \<Rightarrow> nat \<Rightarrow> bool" where
  "staged Return = (\<lambda>n. True)"
| "staged (Ask q k) = (\<lambda>n. n = 0 \<and> (\<forall>d. staged (k d) 1))"
| "staged (AskClosing k) = (\<lambda>n. n \<le> 1 \<and> (\<forall>b. staged (k b) 2))"
| "staged (Register k) = (\<lambda>n. n \<le> 2 \<and> (\<forall>b. staged (k b) 3))"
| "staged (RunPump k) = (\<lambda>n. n \<le> 3 \<and> (\<forall>p. staged (k p) 4))"
| "staged (Act e p) = staged p"
| "staged (AppendRecord r p) = staged p"
| "staged (Meter m p) = staged p"
| "staged (DeleteTunnel p) = staged p"
| "staged (TunnelDone p) = staged p"

lemma staged_finish: "staged (finish_prog env r s k) n = staged k n"
  by (simp add: finish_prog_def Let_def)

lemma staged_refuse: "staged (refuse_prog env r s msg) n"
  by (simp add: refuse_prog_def staged_finish)

lemma staged_http: "staged (http_prog cm env ue r) 0"
  by (simp add: http_prog_def forward_prog_def Let_def staged_refuse staged_finish
      split: option.split prod.split sum.split)

lemma staged_open: "staged (open_prog cfg env ce rec0) 2"
  by (simp add: open_prog_def tunnel_prog_def close_ends_def staged_finish)

lemma staged_connect: "staged (connect_prog cfg env ce r) 0"
  by (simp add: connect_prog_def Let_def staged_refuse staged_open split: option.split prod.split sum.split)

lemma staged_serve: "staged (serve_prog cm cfg x) 0"
  by (cases x) (simp add: serve_prog_def staged_http staged_connect)

section \<open>What a program can do\<close>

text \<open>The effects and collector updates of a run whose questions all get these answers.\<close>

record answers =
  an_eval :: "request \<Rightarrow> decision"
  an_closing :: bool
  an_started :: bool
  an_pumped :: pumped

primrec out :: "answers \<Rightarrow> prog \<Rightarrow> effect list \<times> meter list" where
  "out A Return = ([], [])"
| "out A (Ask q k) = apfst ((#) (Asked q)) (out A (k (an_eval A q)))"
| "out A (AskClosing k) = out A (k (an_closing A))"
| "out A (Register k) = apfst ((@) (if an_started A then [Registered] else [])) (out A (k (an_started A)))"
| "out A (RunPump k) =
     apfst ((#) (Piped (pu_up (an_pumped A)) (pu_down (an_pumped A)))) (out A (k (an_pumped A)))"
| "out A (Act e p) = apfst ((#) e) (out A p)"
| "out A (AppendRecord r p) = apfst ((#) (Audited r)) (out A p)"
| "out A (Meter m p) = apsnd ((#) m) (out A p)"
| "out A (DeleteTunnel p) = out A p"
| "out A (TunnelDone p) = apfst ((#) Unregistered) (out A p)"

text \<open>The effects and updates of any run, a question answered from what is possible when asked.\<close>

primrec runs ::
  "(request \<Rightarrow> decision) set \<Rightarrow> pumped set \<Rightarrow> prog \<Rightarrow> effect list \<Rightarrow> meter list \<Rightarrow> bool" where
  "runs D P Return = (\<lambda>es ms. es = [] \<and> ms = [])"
| "runs D P (Ask q k) = (\<lambda>es ms. \<exists>f \<in> D. \<exists>es'. es = Asked q # es' \<and> runs D P (k (f q)) es' ms)"
| "runs D P (AskClosing k) = (\<lambda>es ms. \<exists>b. runs D P (k b) es ms)"
| "runs D P (Register k) =
     (\<lambda>es ms. \<exists>b es'. es = (if b then [Registered] else []) @ es' \<and> runs D P (k b) es' ms)"
| "runs D P (RunPump k) =
     (\<lambda>es ms. \<exists>p \<in> P. \<exists>es'. es = Piped (pu_up p) (pu_down p) # es' \<and> runs D P (k p) es' ms)"
| "runs D P (Act e p) = (\<lambda>es ms. \<exists>es'. es = e # es' \<and> runs D P p es' ms)"
| "runs D P (AppendRecord r p) = (\<lambda>es ms. \<exists>es'. es = Audited r # es' \<and> runs D P p es' ms)"
| "runs D P (Meter m p) = (\<lambda>es ms. \<exists>ms'. ms = m # ms' \<and> runs D P p es ms')"
| "runs D P (DeleteTunnel p) = runs D P p"
| "runs D P (TunnelDone p) = (\<lambda>es ms. \<exists>es'. es = Unregistered # es' \<and> runs D P p es' ms)"

lemma runs_possible: "f \<in> D \<Longrightarrow> p \<in> P \<Longrightarrow> \<exists>es ms. runs D P prog es ms"
  by (induction prog) (simp, fastforce+)

lemma staged_mono: "staged p n \<Longrightarrow> m \<le> n \<Longrightarrow> staged p m"
  by (induction p) auto

lemma staged_later:
  "staged p 2 \<Longrightarrow> staged p (Suc 0)" "staged p 3 \<Longrightarrow> staged p (Suc 0)" "staged p 4 \<Longrightarrow> staged p (Suc 0)"
  "staged p 3 \<Longrightarrow> staged p 2" "staged p 4 \<Longrightarrow> staged p 2" "staged p 4 \<Longrightarrow> staged p 3"
  by (auto intro: staged_mono)

text \<open>A question that is not asked any more does not matter.\<close>

lemma out_eval: "staged p 1 \<Longrightarrow> out (A\<lparr>an_eval := f\<rparr>) p = out A p"
  by (induction p) (simp_all add: staged_later)

lemma out_closing: "staged p 2 \<Longrightarrow> out (A\<lparr>an_closing := b\<rparr>) p = out A p"
  by (induction p) (simp_all add: staged_later)

lemma out_started: "staged p 3 \<Longrightarrow> out (A\<lparr>an_started := b\<rparr>) p = out A p"
  by (induction p) (simp_all add: staged_later)

lemma out_pumped: "staged p 4 \<Longrightarrow> out (A\<lparr>an_pumped := u\<rparr>) p = out A p"
  by (induction p) auto

definition possible :: "(request \<Rightarrow> decision) set \<Rightarrow> pumped set \<Rightarrow> answers \<Rightarrow> bool" where
  "possible D P A \<longleftrightarrow> an_eval A \<in> D \<and> an_pumped A \<in> P"

lemma runs_out:
  assumes "f0 \<in> D" "p0 \<in> P"
  shows "runs D P prog es ms \<Longrightarrow> staged prog n \<Longrightarrow> \<exists>A. possible D P A \<and> out A prog = (es, ms)"
proof (induction prog arbitrary: es ms n)
  case Return
  then show ?case
    using assms by (intro exI [of _ "\<lparr>an_eval = f0, an_closing = True, an_started = True, an_pumped = p0\<rparr>"])
      (simp add: possible_def)
next
  case (Ask q k)
  then obtain f es' where f: "f \<in> D" "es = Asked q # es'" "runs D P (k (f q)) es' ms" by auto
  have s: "staged (k (f q)) 1" using Ask.prems(2) by simp
  from Ask.IH [OF rangeI f(3) s] obtain A where A: "possible D P A" "out A (k (f q)) = (es', ms)" by blast
  show ?case
    using f A out_eval [OF s, of f A] by (intro exI [of _ "A\<lparr>an_eval := f\<rparr>"]) (simp add: possible_def)
next
  case (AskClosing k)
  then obtain b where b: "runs D P (k b) es ms" by auto
  have s: "staged (k b) 2" using AskClosing.prems(2) by simp
  from AskClosing.IH [OF rangeI b s] obtain A where A: "possible D P A" "out A (k b) = (es, ms)" by blast
  show ?case
    using A out_closing [OF s, of b A] by (intro exI [of _ "A\<lparr>an_closing := b\<rparr>"]) (simp add: possible_def)
next
  case (Register k)
  then obtain b es' where b: "es = (if b then [Registered] else []) @ es'" "runs D P (k b) es' ms" by auto
  have s: "staged (k b) 3" using Register.prems(2) by simp
  from Register.IH [OF rangeI b(2) s] obtain A where A: "possible D P A" "out A (k b) = (es', ms)" by blast
  show ?case
    using b A out_started [OF s, of b A] by (intro exI [of _ "A\<lparr>an_started := b\<rparr>"]) (simp add: possible_def)
next
  case (RunPump k)
  then obtain u es' where u: "u \<in> P" "es = Piped (pu_up u) (pu_down u) # es'" "runs D P (k u) es' ms" by auto
  have s: "staged (k u) 4" using RunPump.prems(2) by simp
  from RunPump.IH [OF rangeI u(3) s] obtain A where A: "possible D P A" "out A (k u) = (es', ms)" by blast
  show ?case
    using u A out_pumped [OF s, of u A] by (intro exI [of _ "A\<lparr>an_pumped := u\<rparr>"]) (simp add: possible_def)
qed (fastforce simp: possible_def)+

text \<open>Run alone, a program does what it does on the answers of the sequential environment.\<close>

definition answers_of :: "config \<Rightarrow> gate_env \<Rightarrow> connect_env \<Rightarrow> answers" where
  "answers_of cfg env ce =
     \<lparr>an_eval = ge_eval env, an_closing = ce_closing ce, an_started = ce_started ce,
      an_pumped = pumped_through cfg ce\<rparr>"

lemma run_out:
  "px_trace (prog_run H cfg env ce p st) = px_trace st @ fst (out (answers_of cfg env ce) p)
   \<and> px_metrics (prog_run H cfg env ce p st) = fold meter_run (snd (out (answers_of cfg env ce) p)) (px_metrics st)"
  by (induction p arbitrary: st) (simp_all add: answers_of_def Let_def)

text \<open>
  The protocol of a request, on the effects an observer sees: one judgement, nothing out without an
  allow, one record, and a registration released once and after the record.
\<close>

fun obeys :: "phase \<Rightarrow> effect list \<Rightarrow> bool" where
  "obeys ph [] = (ph = Settled \<or> ph = Holding Released)"
| "obeys ph (Asked q # es) = (ph = Unjudged \<and> (obeys Allowed es \<or> obeys Denied es))"
| "obeys ph (Registered # es) = (ph = Allowed \<and> obeys (Holding Running) es)"
| "obeys ph (Piped u d # es) = (ph = Holding Running \<and> obeys ph es)"
| "obeys ph (Audited r # es) = (case after_record ph of None \<Rightarrow> False | Some ph' \<Rightarrow> obeys ph' es)"
| "obeys ph (Unregistered # es) = (ph = Holding Recorded \<and> obeys (Holding Released) es)"
| "obeys ph (e # es) = (act_ok ph e \<and> obeys ph es)"

text \<open>The deletion from the map is not among the effects.\<close>

definition visible :: "phase \<Rightarrow> phase" where
  "visible ph = (if ph = Holding Deleted then Holding Recorded else ph)"

lemma visible_simps [simp]:
  "visible Unjudged = Unjudged" "visible Denied = Denied" "visible Allowed = Allowed" "visible Settled = Settled"
  "visible (Holding pc) = Holding (if pc = Deleted then Recorded else pc)"
  by (simp_all add: visible_def)

lemma act_ok_visible: "act_ok ph e \<Longrightarrow> visible ph = ph"
  by (cases e) (auto simp: visible_def)

lemma obeys_act: "act_ok ph e \<Longrightarrow> obeys ph (e # es) = obeys ph es"
  by (cases e) auto

lemma obeys_record:
  assumes "after_record ph = Some ph'"
  shows "obeys (visible ph) (Audited r # es) = obeys (visible ph') es"
  using assms by (cases ph) (auto split: if_splits)

lemma typed_obeys: "typed p ph \<Longrightarrow> runs D P p es ms \<Longrightarrow> obeys (visible ph) es"
proof (induction p arbitrary: ph es ms)
  case (Ask q k)
  then obtain f es' where "ph = Unjudged" "es = Asked q # es'" "runs D P (k (f q)) es' ms"
    "typed (k (f q)) (if d_action (f q) = Allow then Allowed else Denied)" by auto
  then show ?case
    using Ask.IH [of "k (f q)" Allowed es' ms] Ask.IH [of "k (f q)" Denied es' ms] by (auto split: if_splits)
next
  case (Act e p)
  then obtain es' where "es = e # es'" "runs D P p es' ms" "act_ok ph e" "typed p ph" by auto
  then show ?case using Act.IH [of ph es' ms] act_ok_visible [of ph e] by (simp add: obeys_act)
next
  case (AppendRecord r p)
  then obtain es' ph' where "es = Audited r # es'" "runs D P p es' ms" "after_record ph = Some ph'" "typed p ph'"
    by (auto split: option.splits)
  then show ?case using AppendRecord.IH obeys_record by blast
qed (fastforce split: if_splits)+

section \<open>Properties\<close>

text \<open>C9. Every handler keeps to the protocol, whatever its questions are answered and whatever the
  world does: it is judged at most once, reaches out only after an allow, writes exactly one record,
  answers a refusal after it, holds a registration only from \<open>registerTunnel\<close> on, pumps only while
  holding it, and releases it once, after the record.\<close>

theorem handler_typed:
  assumes "runs D P (serve_prog cm cfg x) es ms"
  shows "typed (serve_prog cm cfg x) Unjudged \<and> obeys Unjudged es"
  using typed_serve typed_obeys [OF typed_serve assms] by simp

theorem handler_typed_witness:
  "\<exists>es ms. runs {Evaluate plain_casemap open_policy} {\<lparr>pu_up = 3, pu_down = 7, pu_capped = False\<rparr>}
      (serve_prog plain_casemap DefaultConfig sample_exchange) es ms \<and> obeys Unjudged es"
proof -
  obtain es ms where "runs {Evaluate plain_casemap open_policy} {\<lparr>pu_up = 3, pu_down = 7, pu_capped = False\<rparr>}
      (serve_prog plain_casemap DefaultConfig sample_exchange) es ms"
    using runs_possible by blast
  with handler_typed [OF this] show ?thesis by blast
qed

end
