(* ===== verification/Admin.thy ===== *)
theory Admin
  imports ProxyHttp
begin

text \<open>
  \<open>internal/adminsrv/adminsrv.go\<close>: the admin plane's mux and its four routes, over any reloader.
  \<open>net/http\<close>'s mux is modelled for what the code registers, four patterns of one literal segment;
  the rendering of the metrics belongs to the Prometheus client and is left as the answer
  \<open>Scraped\<close>.
\<close>

section \<open>The mux\<close>

datatype admin_route = RouteMetrics | RouteHealthz | RouteReadyz | RouteReload

definition cleanPath :: "string \<Rightarrow> string" where
  "cleanPath p =
     (if p = [] then [slash]
      else let q = (if hd p = slash then p else slash # p); c = Clean q
           in if last p = slash \<and> c \<noteq> [slash] then c @ [slash] else c)"

text \<open>A literal segment of a pattern matches the unescaped segment of the path.\<close>

definition literal_segment :: "string \<Rightarrow> string option" where
  "literal_segment p =
     (case p of
        [] \<Rightarrow> None
      | c # seg \<Rightarrow>
          if c \<noteq> slash \<or> seg = [] \<or> slash \<in> set seg then None
          else Some (case unescape seg of None \<Rightarrow> seg | Some s \<Rightarrow> s))"

definition route_of :: "string \<Rightarrow> admin_route option" where
  "route_of p =
     (case literal_segment p of
        None \<Rightarrow> None
      | Some seg \<Rightarrow>
          if seg = ''metrics'' then Some RouteMetrics
          else if seg = ''healthz'' then Some RouteHealthz
          else if seg = ''readyz'' then Some RouteReadyz
          else if seg = ''reload'' then Some RouteReload
          else None)"

datatype mux_result = Routed admin_route | NotFound | Redirect string | BadURI

definition mux_handler :: "http_request \<Rightarrow> mux_result" where
  "mux_handler r =
     (let p = EscapedPath (hr_url r); c = (if hr_method r = ''CONNECT'' then p else cleanPath p)
      in if hr_uri r = ''*'' then BadURI
         else if c \<noteq> p then Redirect c
         else case route_of p of None \<Rightarrow> NotFound | Some x \<Rightarrow> Routed x)"

section \<open>The handlers\<close>

datatype admin_answer = Answer nat string | Scraped metrics | MovedTo string

record 's admin =
  ad_store :: 's
  ad_metrics :: metrics

text \<open>
  What the handler is built with: the reloader's two methods, the text of its errors, and
  \<open>ready\<close>. \<open>http.Error\<close> and \<open>Fprintln\<close> end the body with a newline.
\<close>

record ('s, 'env, 'e) admin_deps =
  dp_reload :: "'env \<Rightarrow> 's \<Rightarrow> string \<Rightarrow> 's \<times> 'e option"
  dp_source :: "'s \<Rightarrow> string"
  dp_error :: "'e \<Rightarrow> string"

definition handle_readyz :: "bool \<Rightarrow> 's admin \<Rightarrow> 's admin \<times> admin_answer" where
  "handle_readyz ready a = (a, if \<not> ready then Answer 503 (''not ready'' @ [nl]) else Answer 200 (''ready'' @ [nl]))"

definition handle_reload ::
  "('s, 'env, 'e) admin_deps \<Rightarrow> 'env \<Rightarrow> http_request \<Rightarrow> 's admin \<Rightarrow> 's admin \<times> admin_answer" where
  "handle_reload dp env r a =
     (if hr_method r \<noteq> ''POST'' then (a, Answer 405 (''reload requires POST'' @ [nl]))
      else let source = dp_source dp (ad_store a)
           in if source = [] then (a, Answer 400 (''no policy file to reload from'' @ [nl]))
              else case dp_reload dp env (ad_store a) source of
                     (s, Some e) \<Rightarrow>
                       (a\<lparr>ad_store := s, ad_metrics := count_reload ''error'' (ad_metrics a)\<rparr>,
                        Answer 500 (''reload failed: '' @ dp_error dp e @ [nl]))
                   | (s, None) \<Rightarrow>
                       (a\<lparr>ad_store := s, ad_metrics := count_reload ''ok'' (ad_metrics a)\<rparr>,
                        Answer 200 (''reloaded '' @ source @ [nl])))"

definition admin_Handler ::
  "('s, 'env, 'e) admin_deps \<Rightarrow> bool \<Rightarrow> 'env \<Rightarrow> http_request \<Rightarrow> 's admin \<Rightarrow> 's admin \<times> admin_answer" where
  "admin_Handler dp ready env r a =
     (case mux_handler r of
        BadURI \<Rightarrow> (a, Answer 400 [])
      | Redirect p \<Rightarrow> (a, MovedTo p)
      | NotFound \<Rightarrow> (a, Answer 404 (''404 page not found'' @ [nl]))
      | Routed RouteMetrics \<Rightarrow> (a, Scraped (ad_metrics a))
      | Routed RouteHealthz \<Rightarrow> (a, Answer 200 (''ok'' @ [nl]))
      | Routed RouteReadyz \<Rightarrow> handle_readyz ready a
      | Routed RouteReload \<Rightarrow> handle_reload dp env r a)"

text \<open>A history of requests, each with its environment, and its answers.\<close>

fun admin_run ::
  "('s, 'env, 'e) admin_deps \<Rightarrow> (bool \<times> 'env \<times> http_request) list \<Rightarrow> 's admin
     \<Rightarrow> 's admin \<times> admin_answer list" where
  "admin_run dp [] a = (a, [])"
| "admin_run dp ((ready, env, r) # xs) a =
     (let (b, ans) = admin_Handler dp ready env r a; (c, rest) = admin_run dp xs b in (c, ans # rest))"

text \<open>The gate's own: the policy store is the reloader.\<close>

definition store_deps :: "(load_error \<Rightarrow> string) \<Rightarrow> (store, load_env, load_error) admin_deps" where
  "store_deps err = \<lparr>dp_reload = Reload, dp_source = Source, dp_error = err\<rparr>"

section \<open>What a request can change\<close>

text \<open>An attempt is a POST that reaches \<open>/reload\<close> on a store that has a source.\<close>

definition attempts :: "('s, 'env, 'e) admin_deps \<Rightarrow> 's admin \<Rightarrow> http_request \<Rightarrow> bool" where
  "attempts dp a r \<longleftrightarrow>
     mux_handler r = Routed RouteReload \<and> hr_method r = ''POST'' \<and> dp_source dp (ad_store a) \<noteq> []"

lemma admin_not_attempt: "\<not> attempts dp a r \<Longrightarrow> fst (admin_Handler dp ready env r a) = a"
  by (auto simp: attempts_def admin_Handler_def handle_readyz_def handle_reload_def Let_def
      split: mux_result.splits admin_route.splits)

lemma admin_attempt:
  assumes "attempts dp a r"
  shows "dp_reload dp env (ad_store a) (dp_source dp (ad_store a)) = (s, Some e) \<Longrightarrow>
      admin_Handler dp ready env r a =
        (a\<lparr>ad_store := s, ad_metrics := count_reload ''error'' (ad_metrics a)\<rparr>,
         Answer 500 (''reload failed: '' @ dp_error dp e @ [nl]))"
    and "dp_reload dp env (ad_store a) (dp_source dp (ad_store a)) = (s, None) \<Longrightarrow>
      admin_Handler dp ready env r a =
        (a\<lparr>ad_store := s, ad_metrics := count_reload ''ok'' (ad_metrics a)\<rparr>,
         Answer 200 (''reloaded '' @ dp_source dp (ad_store a) @ [nl]))"
  using assms by (simp_all add: attempts_def admin_Handler_def handle_reload_def Let_def)

context reloader
begin

lemma admin_Handler_keeps:
  assumes "dp_reload dp = reload" "dp_source dp = source"
    and "valid_policy (in_force (ad_store a))" "admin_Handler dp ready env r a = (b, ans)"
  shows "valid_policy (in_force (ad_store b)) \<and> source (ad_store b) = source (ad_store a)"
proof (cases "attempts dp a r")
  case False
  then show ?thesis using admin_not_attempt [OF False, where ready = ready and env = env] assms(3,4) by simp
next
  case True
  obtain s e where s: "reload env (ad_store a) (source (ad_store a)) = (s, e)" by fastforce
  have "valid_policy (in_force s)" "source s = source (ad_store a)"
    using reload_keeps_valid [OF assms(3) s] reload_source [OF s] by blast+
  moreover have "ad_store b = s"
    using admin_attempt [OF True, where ready = ready and env = env] s assms(1,2,4) by (cases e) auto
  ultimately show ?thesis by simp
qed

lemma admin_run_keeps:
  assumes "dp_reload dp = reload" "dp_source dp = source" "valid_policy (in_force (ad_store a))"
    "admin_run dp xs a = (b, answers)"
  shows "valid_policy (in_force (ad_store b)) \<and> source (ad_store b) = source (ad_store a)"
  using assms(3,4)
proof (induction xs arbitrary: a answers)
  case (Cons x xs)
  obtain ready env r where x: "x = (ready, env, r)" by (cases x)
  obtain c ans where c: "admin_Handler dp ready env r a = (c, ans)" by fastforce
  obtain rest where "admin_run dp xs c = (b, rest)"
    using Cons.prems(2) x c by (auto split: prod.splits)
  with Cons.IH [of c rest] admin_Handler_keeps [OF assms(1,2) Cons.prems(1) c] show ?case by simp
qed simp

end

text \<open>The counters count: each attempt exactly once, under the outcome its answer has.\<close>

definition answer_status :: "admin_answer \<Rightarrow> nat" where
  "answer_status ans = (case ans of Answer n _ \<Rightarrow> n | Scraped _ \<Rightarrow> 200 | MovedTo _ \<Rightarrow> 301)"

fun attempted :: "('s, 'env, 'e) admin_deps \<Rightarrow> (bool \<times> 'env \<times> http_request) list \<Rightarrow> 's admin \<Rightarrow> nat list" where
  "attempted dp [] a = []"
| "attempted dp ((ready, env, r) # xs) a =
     (let (b, ans) = admin_Handler dp ready env r a
      in (if attempts dp a r then [answer_status ans] else []) @ attempted dp xs b)"

lemma attempt_counts:
  assumes "admin_Handler dp ready env r a = (b, ans)" "attempts dp a r"
  shows "m_reloads (ad_metrics b) =
    (m_reloads (ad_metrics a))(if answer_status ans = 200 then ''ok'' else ''error'' :=
       m_reloads (ad_metrics a) (if answer_status ans = 200 then ''ok'' else ''error'') + 1)
    \<and> answer_status ans \<in> {200, 500}"
proof -
  obtain s e where "dp_reload dp env (ad_store a) (dp_source dp (ad_store a)) = (s, e)" by fastforce
  with admin_attempt [OF assms(2), where ready = ready and env = env] assms(1) show ?thesis
    by (cases e) (auto simp: answer_status_def count_reload_def)
qed

lemma admin_counts:
  assumes "admin_run dp xs a = (b, answers)"
  shows "m_reloads (ad_metrics b) ''ok'' = m_reloads (ad_metrics a) ''ok''
      + length (filter (\<lambda>n. n = 200) (attempted dp xs a))
    \<and> m_reloads (ad_metrics b) ''error'' = m_reloads (ad_metrics a) ''error''
      + length (filter (\<lambda>n. n = 500) (attempted dp xs a))"
  using assms
proof (induction xs arbitrary: a answers)
  case (Cons x xs)
  obtain ready env r where x: "x = (ready, env, r)" by (cases x)
  obtain c ans where c: "admin_Handler dp ready env r a = (c, ans)" by fastforce
  obtain rest where "admin_run dp xs c = (b, rest)"
    using Cons.prems x c by (auto split: prod.splits)
  note IH = Cons.IH [OF this]
  show ?case
  proof (cases "attempts dp a r")
    case False
    with admin_not_attempt [OF False, where ready = ready and env = env] c have "c = a" by simp
    with IH x c False show ?thesis by simp
  next
    case True
    with IH x c attempt_counts [OF c True] show ?thesis by auto
  qed
qed simp

section \<open>Properties\<close>

text \<open>C27. The admin plane is safe to leave open to its operators: whatever sequence of requests it
  gets, the policy in force is valid and still comes from the same file; a request changes the
  policy only if it is a POST that reaches the reload route, is answered 200, and the new policy is
  the one read from that file; and the two reload counters are the numbers of attempts that were
  answered 200 and 500.\<close>

theorem admin_reload:
  assumes "valid_policy (st_current (ad_store a))" "admin_run (store_deps err) xs a = (b, answers)"
  shows "valid_policy (st_current (ad_store b)) \<and> Source (ad_store b) = Source (ad_store a)
    \<and> m_reloads (ad_metrics b) ''ok'' = m_reloads (ad_metrics a) ''ok''
        + length (filter (\<lambda>n. n = 200) (attempted (store_deps err) xs a))
    \<and> m_reloads (ad_metrics b) ''error'' = m_reloads (ad_metrics a) ''error''
        + length (filter (\<lambda>n. n = 500) (attempted (store_deps err) xs a))
    \<and> (\<forall>ready env r c ans. admin_Handler (store_deps err) ready env r a = (c, ans)
        \<and> ad_store c \<noteq> ad_store a \<longrightarrow>
        hr_method r = ''POST'' \<and> mux_handler r = Routed RouteReload \<and> answer_status ans = 200
        \<and> readPolicy env (Source (ad_store a)) = Inr (st_current (ad_store c)))"
proof -
  have deps: "dp_reload (store_deps err) = Reload" "dp_source (store_deps err) = Source"
    by (simp_all add: store_deps_def)
  have "hr_method r = ''POST'' \<and> mux_handler r = Routed RouteReload \<and> answer_status ans = 200
      \<and> readPolicy env (Source (ad_store a)) = Inr (st_current (ad_store c))"
    if h: "admin_Handler (store_deps err) ready env r a = (c, ans)" "ad_store c \<noteq> ad_store a"
    for ready env r c ans
  proof -
    have att: "attempts (store_deps err) a r"
      using admin_not_attempt [where dp = "store_deps err" and a = a and r = r and ready = ready and env = env] h
      by auto
    obtain s e where s: "Reload env (ad_store a) (Source (ad_store a)) = (s, e)" by fastforce
    then have c: "ad_store c = s" "e = None \<Longrightarrow> answer_status ans = 200"
      using admin_attempt [OF att, where ready = ready and env = env] h(1) deps
      by (cases e; auto simp: answer_status_def)+
    then have "e = None" using h(2) s gate_reload.reload_fails by (cases e) blast+
    moreover obtain p where "readPolicy env (Source (ad_store a)) = Inr p" "s = (ad_store a)\<lparr>st_current := p\<rparr>"
      using s \<open>e = None\<close> by (auto simp: Reload_def split: sum.splits)
    ultimately show ?thesis using c att by (simp add: attempts_def)
  qed
  then show ?thesis
    using gate_reload.admin_run_keeps [OF deps assms] admin_counts [OF assms(2)] by blast
qed

definition reload_request :: "string \<Rightarrow> http_request" where
  "reload_request method =
     \<lparr>hr_method = method,
      hr_url = \<lparr>u_scheme = [], u_host = [], u_path = ''/reload'', u_rawpath = []\<rparr>,
      hr_host = ''127.0.0.1:9090'', hr_uri = ''/reload'', hr_remote = ''127.0.0.1:5'', hr_header = [],
      hr_body = False\<rparr>"

lemma reload_request_routed: "mux_handler (reload_request m) = Routed RouteReload"
  by (simp add: mux_handler_def reload_request_def EscapedPath_def validEncoded_def escape_def escape_byte_def
      shouldEscape_def is_alnum_def cleanPath_def Clean_def route_of_def literal_segment_def Let_def)

definition sample_admin :: "store admin" where
  "sample_admin =
     \<lparr>ad_store = \<lparr>st_current = sample_policy, st_source = ''policy.yaml''\<rparr>, ad_metrics = metrics_New\<rparr>"

theorem admin_reload_witness:
  "m_reloads (ad_metrics (fst (admin_run (store_deps (\<lambda>_. ''bad'')) [(True, sample_env, reload_request ''POST'')]
     sample_admin))) ''ok'' = 1"
proof -
  let ?dp = "store_deps (\<lambda>_. ''bad'')" and ?x = "(True, sample_env, reload_request ''POST'')"
  obtain b answers where run: "admin_run ?dp [?x] sample_admin = (b, answers)" by fastforce
  have att: "attempts ?dp sample_admin (reload_request ''POST'')"
    using reload_request_routed
    by (simp add: attempts_def reload_request_def store_deps_def sample_admin_def Source_def)
  have "readPolicy sample_env ''policy.yaml'' = Inr sample_policy"
    using sample_parse by (simp add: readPolicy_def sample_env_def)
  then have "dp_reload ?dp sample_env (ad_store sample_admin) (dp_source ?dp (ad_store sample_admin))
      = (ad_store sample_admin, None)"
    by (simp add: store_deps_def sample_admin_def Source_def Reload_def)
  from admin_attempt(2) [OF att this, of True] have "attempted ?dp [?x] sample_admin = [200]"
    using att by (simp add: answer_status_def)
  with admin_reload [OF _ run] sample_valid run show ?thesis
    by (simp add: sample_admin_def metrics_New_def)
qed

end
