(* ===== verification/System.thy ===== *)
theory System
  imports Handler Admin
begin

text \<open>
  The whole gate as one system: any number of requests, each a program of the theory \<open>Handler\<close>, the
  admin plane and the shutdown, interleaved in every way over what they share: the policy store,
  the audit log, the collectors and the table of tunnels. An atomic action of a handler, an
  admin request and an action of \<open>Shutdown\<close> are each a step.
\<close>

section \<open>State\<close>

record shared =
  sh_store :: store
  sh_log :: audit_log
  sh_metrics :: metrics
  sh_tunnels :: tunnels

text \<open>
  A request in flight: what it came with, what is left of its handler, its tunnel if it has
  registered one, and what it has done so far.
\<close>

record task =
  tk_in :: exchange
  tk_prog :: prog
  tk_tunnel :: "nat option"
  tk_trace :: "effect list"
  tk_meters :: "meter list"

text \<open>\<open>g_order\<close> lists the requests in the order their records reached the log.\<close>

record gate =
  g_shared :: shared
  g_tasks :: "task list"
  g_order :: "nat list"

definition new_task :: "casemap \<Rightarrow> config \<Rightarrow> exchange \<Rightarrow> task" where
  "new_task cm cfg x =
     \<lparr>tk_in = x, tk_prog = serve_prog cm cfg x, tk_tunnel = None, tk_trace = [], tk_meters = []\<rparr>"

definition gate_init :: "store \<Rightarrow> audit_log \<Rightarrow> metrics \<Rightarrow> gate" where
  "gate_init s l m =
     \<lparr>g_shared = \<lparr>sh_store = s, sh_log = l, sh_metrics = m, sh_tunnels = sd_init\<rparr>, g_tasks = [], g_order = []\<rparr>"

section \<open>Steps\<close>

definition goes :: "prog \<Rightarrow> effect list \<Rightarrow> task \<Rightarrow> task" where
  "goes p es t = t\<lparr>tk_prog := p, tk_trace := tk_trace t @ es\<rparr>"

text \<open>What a pump can return: the outcomes of its goroutines under every schedule.\<close>

definition pump_answers :: "config \<Rightarrow> exchange \<Rightarrow> pumped set" where
  "pump_answers cfg x =
     (case x of (_, _, ce, _) \<Rightarrow>
        {p. \<exists>buf s. pump_reachable (pump_init (cfg_max_tunnel cfg) (ce_client ce) (ce_upstream ce) buf) s
              \<and> ps_main s = PumpReturned (pu_up p) (pu_down p) (pu_capped p)})"

definition appended :: "(string \<Rightarrow> string) \<Rightarrow> exchange \<Rightarrow> audit_record \<Rightarrow> audit_log \<Rightarrow> audit_log" where
  "appended H x r l = fst (Append H (ge_now (fst x)) (ge_write (fst x)) l r)"

definition recorded_tunnel :: "nat option \<Rightarrow> tunnels \<Rightarrow> tunnels" where
  "recorded_tunnel i u = (case i of None \<Rightarrow> u | Some n \<Rightarrow> write_record n u)"

inductive task_step ::
  "(string \<Rightarrow> string) \<Rightarrow> casemap \<Rightarrow> config \<Rightarrow> shared \<Rightarrow> task \<Rightarrow> shared \<Rightarrow> task \<Rightarrow> bool"
  for H :: "string \<Rightarrow> string" and cm :: casemap and cfg :: config where
  judged: "tk_prog t = Ask q k \<Longrightarrow>
     task_step H cm cfg sh t sh (goes (k (store_Evaluate cm (sh_store sh) q)) [Asked q] t)"
| checked: "tk_prog t = AskClosing k \<Longrightarrow>
     task_step H cm cfg sh t sh (goes (k (isClosing (sh_tunnels sh))) [] t)"
| registered: "tk_prog t = Register k \<Longrightarrow> registerTunnel (sh_tunnels sh) = (u, r) \<Longrightarrow>
     task_step H cm cfg sh t (sh\<lparr>sh_tunnels := u\<rparr>)
       ((goes (k (r \<noteq> None)) (if r \<noteq> None then [Registered] else []) t)\<lparr>tk_tunnel := r\<rparr>)"
| pumped: "tk_prog t = RunPump k \<Longrightarrow> p \<in> pump_answers cfg (tk_in t) \<Longrightarrow>
     task_step H cm cfg sh t sh (goes (k p) [Piped (pu_up p) (pu_down p)] t)"
| acted: "tk_prog t = Act e p \<Longrightarrow> task_step H cm cfg sh t sh (goes p [e] t)"
| recorded: "tk_prog t = AppendRecord r p \<Longrightarrow>
     task_step H cm cfg sh t
       (sh\<lparr>sh_log := appended H (tk_in t) r (sh_log sh),
           sh_tunnels := recorded_tunnel (tk_tunnel t) (sh_tunnels sh)\<rparr>)
       (goes p [Audited r] t)"
| metered: "tk_prog t = Meter m p \<Longrightarrow>
     task_step H cm cfg sh t (sh\<lparr>sh_metrics := meter_run m (sh_metrics sh)\<rparr>)
       ((goes p [] t)\<lparr>tk_meters := tk_meters t @ [m]\<rparr>)"
| deleted: "tk_prog t = DeleteTunnel p \<Longrightarrow> tk_tunnel t = Some i \<Longrightarrow>
     task_step H cm cfg sh t (sh\<lparr>sh_tunnels := unregister_delete i (sh_tunnels sh)\<rparr>) (goes p [] t)"
| released: "tk_prog t = TunnelDone p \<Longrightarrow> tk_tunnel t = Some i \<Longrightarrow>
     task_step H cm cfg sh t (sh\<lparr>sh_tunnels := unregister_done i (sh_tunnels sh)\<rparr>) (goes p [Unregistered] t)"

definition advance :: "nat \<Rightarrow> shared \<Rightarrow> task \<Rightarrow> gate \<Rightarrow> gate" where
  "advance i sh t g =
     \<lparr>g_shared = sh, g_tasks = (g_tasks g)[i := t],
      g_order = g_order g @ (if audits (tk_trace t) = audits (tk_trace (g_tasks g ! i)) then [] else [i])\<rparr>"

text \<open>The steps of \<open>Shutdown\<close> are those of its relation that leave every tunnel where it is.\<close>

inductive gate_step ::
  "(string \<Rightarrow> string) \<Rightarrow> casemap \<Rightarrow> config \<Rightarrow> (load_error \<Rightarrow> string) \<Rightarrow> gate \<Rightarrow> gate \<Rightarrow> bool"
  for H :: "string \<Rightarrow> string" and cm :: casemap and cfg :: config and err :: "load_error \<Rightarrow> string" where
  arrives: "gate_step H cm cfg err g (g\<lparr>g_tasks := g_tasks g @ [new_task cm cfg x]\<rparr>)"
| serves: "i < length (g_tasks g) \<Longrightarrow> task_step H cm cfg (g_shared g) (g_tasks g ! i) sh t \<Longrightarrow>
     gate_step H cm cfg err g (advance i sh t g)"
| administers: "admin_Handler (store_deps err) ready env r
       \<lparr>ad_store = sh_store (g_shared g), ad_metrics = sh_metrics (g_shared g)\<rparr> = (a, ans) \<Longrightarrow>
     gate_step H cm cfg err g
       (g\<lparr>g_shared := (g_shared g)\<lparr>sh_store := ad_store a, sh_metrics := ad_metrics a\<rparr>\<rparr>)"
| shuts: "sd_step (sh_tunnels (g_shared g)) u \<Longrightarrow> sd_pc u = sd_pc (sh_tunnels (g_shared g)) \<Longrightarrow>
     gate_step H cm cfg err g (g\<lparr>g_shared := (g_shared g)\<lparr>sh_tunnels := u\<rparr>\<rparr>)"

inductive gate_reachable ::
  "(string \<Rightarrow> string) \<Rightarrow> casemap \<Rightarrow> config \<Rightarrow> (load_error \<Rightarrow> string) \<Rightarrow> gate \<Rightarrow> gate \<Rightarrow> bool"
  for H :: "string \<Rightarrow> string" and cm :: casemap and cfg :: config and err :: "load_error \<Rightarrow> string" and g0 :: gate where
  start: "gate_reachable H cm cfg err g0 g0"
| step: "gate_reachable H cm cfg err g0 g \<Longrightarrow> gate_step H cm cfg err g g' \<Longrightarrow> gate_reachable H cm cfg err g0 g'"

section \<open>Each request follows its handler\<close>

text \<open>The policies that can be in force, and what is left to a request after what it has done.\<close>

definition evaluators :: "casemap \<Rightarrow> (request \<Rightarrow> decision) set" where
  "evaluators cm = {store_Evaluate cm s | s. valid_policy (st_current s)}"

definition task_ok :: "casemap \<Rightarrow> config \<Rightarrow> task \<Rightarrow> bool" where
  "task_ok cm cfg t \<longleftrightarrow>
     (\<forall>es ms. runs (evaluators cm) (pump_answers cfg (tk_in t)) (tk_prog t) es ms \<longrightarrow>
        runs (evaluators cm) (pump_answers cfg (tk_in t)) (serve_prog cm cfg (tk_in t))
          (tk_trace t @ es) (tk_meters t @ ms))"

lemma goes_simps [simp]:
  "tk_in (goes p es t) = tk_in t" "tk_prog (goes p es t) = p" "tk_trace (goes p es t) = tk_trace t @ es"
  "tk_meters (goes p es t) = tk_meters t" "tk_tunnel (goes p es t) = tk_tunnel t"
  by (simp_all add: goes_def)

lemma task_ok_new: "task_ok cm cfg (new_task cm cfg x)"
  by (simp add: task_ok_def new_task_def)

lemma task_ok_step:
  assumes "task_step H cm cfg sh t sh' t'" "task_ok cm cfg t" "valid_policy (st_current (sh_store sh))"
  shows "task_ok cm cfg t' \<and> tk_in t' = tk_in t \<and> sh_store sh' = sh_store sh"
  using assms
proof (induction rule: task_step.induct)
  case (judged t q k sh)
  have "store_Evaluate cm (sh_store sh) \<in> evaluators cm" using judged(3) by (auto simp: evaluators_def)
  with judged(1,2) show ?case by (fastforce simp: task_ok_def)
next
  case (registered t k sh u r)
  then show ?case by (cases r) (fastforce simp: task_ok_def)+
qed (fastforce simp: task_ok_def)+

section \<open>The tunnels\<close>

text \<open>
  The phase of a request, as the table of tunnels and its own effects have it. A tunnel belongs to
  one request, and every tunnel started belongs to one.
\<close>

definition in_phase :: "tunnels \<Rightarrow> task \<Rightarrow> phase \<Rightarrow> bool" where
  "in_phase u t ph \<longleftrightarrow>
     (case ph of
        Holding pc \<Rightarrow> pc \<noteq> NotStarted \<and> (\<exists>i. tk_tunnel t = Some i \<and> sd_pc u i = pc)
      | _ \<Rightarrow> tk_tunnel t = None)
     \<and> length (audits (tk_trace t)) = (if after_record ph = None then 1 else 0)"

definition task_typed :: "tunnels \<Rightarrow> task \<Rightarrow> bool" where
  "task_typed u t \<longleftrightarrow> (\<exists>ph. typed (tk_prog t) ph \<and> in_phase u t ph)"

definition tunnels_inv :: "gate \<Rightarrow> bool" where
  "tunnels_inv g \<longleftrightarrow>
     sd_reachable (sh_tunnels (g_shared g))
     \<and> (\<forall>t \<in> set (g_tasks g). task_typed (sh_tunnels (g_shared g)) t)
     \<and> (\<forall>i < length (g_tasks g). \<forall>j < length (g_tasks g). \<forall>n.
          tk_tunnel (g_tasks g ! i) = Some n \<longrightarrow> tk_tunnel (g_tasks g ! j) = Some n \<longrightarrow> i = j)
     \<and> (\<forall>n. sd_pc (sh_tunnels (g_shared g)) n \<noteq> NotStarted \<longrightarrow>
          (\<exists>t \<in> set (g_tasks g). tk_tunnel t = Some n))"

lemma in_phase_simps:
  "in_phase u t (Holding pc) \<longleftrightarrow> pc \<noteq> NotStarted \<and> (\<exists>i. tk_tunnel t = Some i \<and> sd_pc u i = pc)
     \<and> length (audits (tk_trace t)) = (if pc = Running then 0 else 1)"
  "in_phase u t Unjudged \<longleftrightarrow> tk_tunnel t = None \<and> audits (tk_trace t) = []"
  "in_phase u t Denied \<longleftrightarrow> tk_tunnel t = None \<and> audits (tk_trace t) = []"
  "in_phase u t Allowed \<longleftrightarrow> tk_tunnel t = None \<and> audits (tk_trace t) = []"
  "in_phase u t Settled \<longleftrightarrow> tk_tunnel t = None \<and> length (audits (tk_trace t)) = 1"
  by (simp_all add: in_phase_def)

lemma act_ok_audits: "act_ok ph e \<Longrightarrow> audits [e] = []"
  by (cases e) simp_all

lemma act_ok_phase: "act_ok ph e \<Longrightarrow> in_phase u t ph \<Longrightarrow> in_phase u (goes p [e] t) ph"
  using act_ok_audits [of ph e] by (cases ph) (simp_all add: in_phase_simps audits_append)

lemma registered_new:
  assumes "registerTunnel u = (v, r)" "sd_inv u"
  shows "r = None \<Longrightarrow> v = u"
    and "r = Some n \<Longrightarrow> sd_pc u n = NotStarted \<and> sd_pc v n = Running \<and> (\<forall>m. m \<noteq> n \<longrightarrow> sd_pc v m = sd_pc u m)"
proof -
  show "r = None \<Longrightarrow> v = u" using assms(1) by (auto simp: registerTunnel_def Let_def split: if_splits)
  assume "r = Some n"
  then have v: "n = sd_next u + 1" "sd_pc v = (sd_pc u)(n := Running)"
    using assms(1) by (auto simp: registerTunnel_def Let_def split: if_splits)
  have "sd_pc u n = NotStarted"
    using assms(2) v(1) by (metis Suc_eq_plus1 not_less_eq_eq order_refl sd_inv_def)
  with v(2) show "sd_pc u n = NotStarted \<and> sd_pc v n = Running \<and> (\<forall>m. m \<noteq> n \<longrightarrow> sd_pc v m = sd_pc u m)" by simp
qed

text \<open>What a step of one request leaves of the phase, the table of tunnels and the log.\<close>

definition own_step :: "tunnels \<Rightarrow> task \<Rightarrow> tunnels \<Rightarrow> task \<Rightarrow> bool" where
  "own_step u t v t' \<longleftrightarrow>
     task_typed v t' \<and> (v = u \<or> sd_step u v)
     \<and> (\<forall>n. tk_tunnel t \<noteq> Some n \<longrightarrow> tk_tunnel t' \<noteq> Some n \<longrightarrow> sd_pc v n = sd_pc u n)
     \<and> (tk_tunnel t' \<noteq> tk_tunnel t \<longrightarrow>
          tk_tunnel t = None \<and> (\<forall>n. tk_tunnel t' = Some n \<longrightarrow> sd_pc u n = NotStarted))"

lemma own_stepI:
  "typed (tk_prog t') ph \<Longrightarrow> in_phase u t' ph \<Longrightarrow> tk_tunnel t' = tk_tunnel t \<Longrightarrow> own_step u t u t'"
  by (auto simp: own_step_def task_typed_def)

lemma own_step_at:
  assumes "tk_tunnel t = Some n" "tk_tunnel t' = Some n" "sd_step u v" "sd_pc v = (sd_pc u)(n := pc)"
    and "pc \<noteq> NotStarted" "typed (tk_prog t') (Holding pc)" "length (audits (tk_trace t')) = (if pc = Running then 0 else 1)"
  shows "own_step u t v t'"
  using assms by (auto simp: own_step_def task_typed_def in_phase_simps intro!: exI [of _ "Holding pc"])

lemma own_step_task:
  assumes "task_step H cm cfg sh t sh' t'" "task_typed (sh_tunnels sh) t" "sd_inv (sh_tunnels sh)"
  shows "own_step (sh_tunnels sh) t (sh_tunnels sh') t'"
  using assms
proof (induction rule: task_step.induct)
  case (judged t q k sh)
  then have "typed (tk_prog t) Unjudged" "in_phase (sh_tunnels sh) t Unjudged" by (auto simp: task_typed_def)
  with judged(1) show ?case
    by (intro own_stepI [of _ "if d_action (store_Evaluate cm (sh_store sh) q) = Allow then Allowed else Denied"])
      (auto simp: in_phase_simps audits_append)
next
  case (checked t k sh)
  then have "typed (tk_prog t) Allowed" "in_phase (sh_tunnels sh) t Allowed" by (auto simp: task_typed_def)
  with checked(1) show ?case by (intro own_stepI [of _ Allowed]) (auto simp: in_phase_simps)
next
  case (registered t k sh u r)
  then have ph: "typed (tk_prog t) Allowed" "in_phase (sh_tunnels sh) t Allowed" by (auto simp: task_typed_def)
  note new = registered_new [OF registered(2,4)]
  show ?case
  proof (cases r)
    case None
    with new(1) registered(1) ph show ?thesis
      by (simp add: own_step_def task_typed_def) (auto simp: in_phase_simps intro!: exI [of _ Allowed])
  next
    case (Some n)
    have "sd_step (sh_tunnels sh) u" using registered(2) by (rule sd_step.registers)
    with new(2) [OF Some] registered(1) ph Some show ?thesis
      by (simp add: own_step_def task_typed_def) (auto simp: in_phase_simps audits_append intro!: exI [of _ "Holding Running"])
  qed
next
  case (pumped t k p sh)
  then have "typed (tk_prog t) (Holding Running)" "in_phase (sh_tunnels sh) t (Holding Running)"
    by (auto simp: task_typed_def)
  with pumped(1) show ?case by (intro own_stepI [of _ "Holding Running"]) (auto simp: in_phase_simps audits_append)
next
  case (acted t e p sh)
  then obtain ph where "typed (tk_prog t) ph" "in_phase (sh_tunnels sh) t ph" by (auto simp: task_typed_def)
  with acted(1) act_ok_phase show ?case by (intro own_stepI [of _ ph]) auto
next
  case (recorded t r p sh)
  then obtain ph ph' where ph: "in_phase (sh_tunnels sh) t ph" "after_record ph = Some ph'" "typed p ph'"
    by (auto simp: task_typed_def split: option.splits)
  show ?case
  proof (cases "tk_tunnel t")
    case None
    with ph have "ph' = Settled" "audits (tk_trace t) = []" by (cases ph; auto simp: in_phase_simps)+
    with None ph show ?thesis
      by (auto simp: recorded_tunnel_def in_phase_simps audits_append intro!: own_stepI [of _ Settled])
  next
    case (Some n)
    with ph have h: "ph = Holding Running" "ph' = Holding Recorded" "sd_pc (sh_tunnels sh) n = Running"
      "audits (tk_trace t) = []"
      by (cases ph; auto simp: in_phase_simps split: if_splits)+
    with Some ph(3) show ?thesis
      by (auto simp: recorded_tunnel_def write_record_def audits_append intro!: own_step_at [of _ n _ _ _ Recorded]
          sd_step.written [unfolded write_record_def])
  qed
next
  case (metered t m p sh)
  then obtain ph where "typed p ph" "in_phase (sh_tunnels sh) t ph" by (auto simp: task_typed_def)
  then show ?case by (auto simp: in_phase_def split: phase.splits intro!: own_stepI [of _ ph])
next
  case (deleted t p i sh)
  then have "typed p (Holding Deleted)" "in_phase (sh_tunnels sh) t (Holding Recorded)" by (auto simp: task_typed_def)
  with deleted(2) show ?case
    by (auto simp: in_phase_simps unregister_delete_def intro!: own_step_at [of _ i _ _ _ Deleted]
        sd_step.unmapped [unfolded unregister_delete_def])
next
  case (released t p i sh)
  then have "typed p (Holding Released)" "in_phase (sh_tunnels sh) t (Holding Deleted)" by (auto simp: task_typed_def)
  with released(2) sd_step.released [of "sh_tunnels sh" i] show ?case
    by (auto simp: in_phase_simps unregister_done_def audits_append intro!: own_step_at [of _ i _ _ _ Released])
qed

lemma task_typed_frame:
  assumes "task_typed u t" "\<And>n. tk_tunnel t = Some n \<Longrightarrow> sd_pc v n = sd_pc u n"
  shows "task_typed v t"
proof -
  obtain ph where "typed (tk_prog t) ph" "in_phase u t ph" using assms(1) by (auto simp: task_typed_def)
  with assms(2) show ?thesis
    by (auto simp: task_typed_def in_phase_def split: phase.splits intro!: exI [of _ ph])
qed

lemma task_typed_started:
  assumes "task_typed u t" "tk_tunnel t = Some n"
  shows "sd_pc u n \<noteq> NotStarted"
proof -
  obtain ph where "in_phase u t ph" using assms(1) by (auto simp: task_typed_def)
  with assms(2) show ?thesis by (cases ph) (auto simp: in_phase_simps)
qed

definition own_tunnels :: "task list \<Rightarrow> bool" where
  "own_tunnels ts \<longleftrightarrow>
     (\<forall>i < length ts. \<forall>j < length ts. \<forall>n. tk_tunnel (ts ! i) = Some n \<longrightarrow> tk_tunnel (ts ! j) = Some n \<longrightarrow> i = j)"

lemma own_tunnels_update:
  assumes "own_tunnels ts" "i < length ts"
    and "\<And>j n. j < length ts \<Longrightarrow> j \<noteq> i \<Longrightarrow> tk_tunnel (ts ! j) = Some n \<Longrightarrow> tk_tunnel t \<noteq> Some n"
  shows "own_tunnels (ts[i := t])"
  using assms unfolding own_tunnels_def by (metis length_list_update nth_list_update_eq nth_list_update_neq)

lemma tunnels_inv_serves:
  assumes inv: "tunnels_inv g" and i: "i < length (g_tasks g)"
    and step: "task_step H cm cfg (g_shared g) (g_tasks g ! i) sh t"
  shows "tunnels_inv (advance i sh t g)"
proof -
  let ?ts = "g_tasks g" and ?u = "sh_tunnels (g_shared g)" and ?v = "sh_tunnels sh"
  note parts = inv [unfolded tunnels_inv_def own_tunnels_def [symmetric]]
  have typed: "task_typed ?u (?ts ! j)" if "j < length ?ts" for j using parts that by simp
  have reach: "sd_reachable ?u" and own: "own_tunnels ?ts" using parts by blast+
  have held: "\<exists>j < length ?ts. tk_tunnel (?ts ! j) = Some n" if "sd_pc ?u n \<noteq> NotStarted" for n
    using parts that by (metis in_set_conv_nth)
  have o: "own_step ?u (?ts ! i) ?v t" using own_step_task [OF step typed [OF i] sd_reachable_inv [OF reach]] .
  have fresh: "tk_tunnel t \<noteq> Some n" "tk_tunnel (?ts ! i) \<noteq> Some n"
    if j: "j < length ?ts" "j \<noteq> i" and n: "tk_tunnel (?ts ! j) = Some n" for j n
  proof -
    show "tk_tunnel (?ts ! i) \<noteq> Some n" using own i j n unfolding own_tunnels_def by blast
    with o show "tk_tunnel t \<noteq> Some n"
      using task_typed_started [OF typed [OF j(1)] n] unfolding own_step_def by metis
  qed
  have "task_typed ?v (?ts[i := t] ! j)" if "j < length ?ts" for j
  proof (cases "j = i")
    case True
    then show ?thesis using o i by (simp add: own_step_def)
  next
    case False
    have "sd_pc ?v n = sd_pc ?u n" if "tk_tunnel (?ts ! j) = Some n" for n
      using o fresh [OF \<open>j < length ?ts\<close> False that] unfolding own_step_def by blast
    with False show ?thesis using task_typed_frame [OF typed [OF \<open>j < length ?ts\<close>]] by simp
  qed
  then have all: "\<forall>x \<in> set (?ts[i := t]). task_typed ?v x"
    by (metis in_set_conv_nth length_list_update)
  have "sd_reachable ?v" using o reach unfolding own_step_def by (metis sd_reachable.step)
  moreover have "own_tunnels (?ts[i := t])" using own_tunnels_update [OF own i] fresh(1) by blast
  moreover have "\<exists>x \<in> set (?ts[i := t]). tk_tunnel x = Some n" if n: "sd_pc ?v n \<noteq> NotStarted" for n
  proof (cases "tk_tunnel t = Some n")
    case True
    then show ?thesis using set_update_memI [OF i] by blast
  next
    case False
    have "tk_tunnel (?ts ! i) \<noteq> Some n" using o False unfolding own_step_def by auto
    with False o n have "sd_pc ?u n \<noteq> NotStarted" unfolding own_step_def by auto
    from held [OF this] obtain j where j: "j < length ?ts" "tk_tunnel (?ts ! j) = Some n" by blast
    with \<open>tk_tunnel (?ts ! i) \<noteq> Some n\<close> have "?ts[i := t] ! j = ?ts ! j" by (metis nth_list_update_neq)
    with j show ?thesis by (metis length_list_update nth_mem)
  qed
  ultimately show ?thesis
    using all by (simp add: tunnels_inv_def advance_def own_tunnels_def)
qed

lemma tunnels_inv_step: "gate_step H cm cfg err g g' \<Longrightarrow> tunnels_inv g \<Longrightarrow> tunnels_inv g'"
proof (induction rule: gate_step.induct)
  case (arrives g x)
  have "own_tunnels (g_tasks g @ [new_task cm cfg x])"
    using arrives unfolding tunnels_inv_def own_tunnels_def
    by (auto simp: nth_append new_task_def less_Suc_eq)
  moreover have "task_typed u (new_task cm cfg x)" for u
    unfolding task_typed_def
    by (intro exI [of _ Unjudged]) (simp add: typed_serve new_task_def in_phase_simps)
  ultimately show ?case
    using arrives by (auto simp: tunnels_inv_def own_tunnels_def)
next
  case (serves i g sh t)
  then show ?case by (intro tunnels_inv_serves)
next
  case (administers ready env r g a ans)
  then show ?case by (simp add: tunnels_inv_def)
next
  case (shuts g u)
  then show ?case
    using task_typed_frame [of "sh_tunnels (g_shared g)" _ u] sd_reachable.step by (auto simp: tunnels_inv_def)
qed

lemma tunnels_inv_init: "tunnels_inv (gate_init s l m)"
  using sd_reachable.start by (simp add: tunnels_inv_def gate_init_def) (simp add: sd_init_def)

lemma tunnels_inv_reachable: "gate_reachable H cm cfg err (gate_init s l m) g \<Longrightarrow> tunnels_inv g"
  by (induction rule: gate_reachable.induct) (auto intro: tunnels_inv_init tunnels_inv_step)

section \<open>The log and the collectors\<close>

text \<open>The one append of a request that has made it.\<close>

definition task_call :: "task \<Rightarrow> append_call" where
  "task_call t = call_of (tk_in t) (hd (audits (tk_trace t)))"

definition log_inv :: "(string \<Rightarrow> string) \<Rightarrow> audit_log \<Rightarrow> gate \<Rightarrow> bool" where
  "log_inv H l g \<longleftrightarrow>
     distinct (g_order g) \<and> set (g_order g) = {i. i < length (g_tasks g) \<and> audits (tk_trace (g_tasks g ! i)) \<noteq> []}
     \<and> sh_log (g_shared g) = append_run H (map (\<lambda>i. task_call (g_tasks g ! i)) (g_order g)) l"

lemma task_typed_audits: "task_typed u t \<Longrightarrow> length (audits (tk_trace t)) \<le> 1"
  by (auto simp: task_typed_def in_phase_def split: if_splits)

lemma recorded_once:
  assumes "task_step H cm cfg sh t sh' t'" "task_typed (sh_tunnels sh) t"
  shows "tk_in t' = tk_in t
    \<and> (audits (tk_trace t') = audits (tk_trace t) \<and> sh_log sh' = sh_log sh
      \<or> audits (tk_trace t) = []
        \<and> (\<exists>r. audits (tk_trace t') = [r] \<and> sh_log sh' = appended H (tk_in t) r (sh_log sh)))"
  using assms
proof (induction rule: task_step.induct)
  case (acted t e p sh)
  then obtain ph where "act_ok ph e" by (auto simp: task_typed_def)
  then show ?case using act_ok_audits by (simp add: audits_append)
next
  case (recorded t r p sh)
  then obtain ph ph' where ph: "after_record ph = Some ph'" "in_phase (sh_tunnels sh) t ph"
    by (auto simp: task_typed_def split: option.splits)
  then have "audits (tk_trace t) = []" by (simp add: in_phase_def)
  then show ?case by (simp add: audits_append)
qed (auto simp: audits_append)

lemma log_inv_serves:
  assumes inv: "log_inv H l g" and i: "i < length (g_tasks g)"
    and step: "task_step H cm cfg (g_shared g) (g_tasks g ! i) sh t"
    and typed: "task_typed (sh_tunnels (g_shared g)) (g_tasks g ! i)"
  shows "log_inv H l (advance i sh t g)"
proof -
  let ?ts = "g_tasks g" and ?os = "g_order g"
  have dom: "set ?os = {j. j < length ?ts \<and> audits (tk_trace (?ts ! j)) \<noteq> []}" and d: "distinct ?os"
    and log: "sh_log (g_shared g) = append_run H (map (\<lambda>i. task_call (?ts ! i)) ?os) l"
    using inv by (simp_all add: log_inv_def)
  note once = recorded_once [OF step typed]
  show ?thesis
  proof (cases "audits (tk_trace t) = audits (tk_trace (?ts ! i))")
    case True
    then have same: "audits (tk_trace (?ts[i := t] ! j)) = audits (tk_trace (?ts ! j))" for j
      using i by (cases "j = i") simp_all
    moreover have "task_call (?ts[i := t] ! j) = task_call (?ts ! j)" for j
      using same [of j] once i by (cases "j = i") (simp_all add: task_call_def)
    moreover have "sh_log sh = sh_log (g_shared g)" using once True by auto
    ultimately show ?thesis using d dom log True by (simp add: log_inv_def advance_def)
  next
    case False
    with once obtain r where r: "audits (tk_trace (?ts ! i)) = []" "audits (tk_trace t) = [r]"
      "sh_log sh = appended H (tk_in (?ts ! i)) r (sh_log (g_shared g))" "tk_in t = tk_in (?ts ! i)" by auto
    then have new: "i \<notin> set ?os" using dom by simp
    have calls: "map (\<lambda>j. task_call (?ts[i := t] ! j)) ?os = map (\<lambda>j. task_call (?ts ! j)) ?os"
      using new by (metis (mono_tags, lifting) map_eq_conv nth_list_update_neq)
    have "task_call t = call_of (tk_in (?ts ! i)) r" using r by (simp add: task_call_def)
    moreover have "insert i (set ?os) = {j. j < length ?ts \<and> audits (tk_trace (?ts[i := t] ! j)) \<noteq> []}"
      using dom r i by (auto simp: nth_list_update)
    ultimately show ?thesis
      using d log False r i new
      by (simp add: log_inv_def advance_def append_run_append appended_def call_of_def calls)
  qed
qed

lemma log_inv_step:
  assumes "gate_step H cm cfg err g g'" "log_inv H l g" "tunnels_inv g"
  shows "log_inv H l g'"
  using assms
proof (induction rule: gate_step.induct)
  case (arrives g x)
  let ?ts = "g_tasks g @ [new_task cm cfg x]"
  have dom: "set (g_order g) = {i. i < length (g_tasks g) \<and> audits (tk_trace (g_tasks g ! i)) \<noteq> []}"
    using arrives(1) by (simp add: log_inv_def)
  have old: "?ts ! i = g_tasks g ! i" if "i < length (g_tasks g)" for i using that by (simp add: nth_append)
  have "audits (tk_trace (?ts ! length (g_tasks g))) = []" by (simp add: new_task_def)
  then have "set (g_order g) = {i. i < length ?ts \<and> audits (tk_trace (?ts ! i)) \<noteq> []}"
    unfolding dom using old by (metis (no_types, lifting) length_append_singleton less_Suc_eq)
  moreover have calls: "map (\<lambda>i. task_call (?ts ! i)) (g_order g) = map (\<lambda>i. task_call (g_tasks g ! i)) (g_order g)"
    using old dom by (intro map_cong) auto
  ultimately show ?case using arrives(1) unfolding log_inv_def by (simp del: map_eq_conv)
next
  case (serves i g sh t)
  then show ?case by (intro log_inv_serves) (auto simp: tunnels_inv_def)
qed (simp_all add: log_inv_def)

text \<open>What the updates of the requests add up to.\<close>

definition requests_of :: "string \<times> string \<times> string \<Rightarrow> meter list \<Rightarrow> nat" where
  "requests_of l ms = length (filter (\<lambda>m. m = CountRequest (fst l) (fst (snd l)) (snd (snd l))) ms)"

definition gauge_of :: "meter list \<Rightarrow> int" where
  "gauge_of ms = int (length (filter (\<lambda>m. m = TunnelsInc) ms)) - int (length (filter (\<lambda>m. m = TunnelsDec) ms))"

definition metrics_inv :: "metrics \<Rightarrow> gate \<Rightarrow> bool" where
  "metrics_inv m g \<longleftrightarrow>
     (\<forall>l. m_requests (sh_metrics (g_shared g)) l = m_requests m l + (\<Sum>t\<leftarrow>g_tasks g. requests_of l (tk_meters t)))
     \<and> m_tunnels (sh_metrics (g_shared g)) = m_tunnels m + (\<Sum>t\<leftarrow>g_tasks g. gauge_of (tk_meters t))"

lemma meter_run_requests: "m_requests (meter_run x m) l = m_requests m l + requests_of l [x]"
  by (cases x; cases l) (auto simp: requests_of_def count_request_at)

lemma meter_run_tunnels: "m_tunnels (meter_run x m) = m_tunnels m + gauge_of [x]"
  by (cases x) (simp_all add: gauge_of_def)

lemma meters_append:
  "requests_of l (xs @ ys) = requests_of l xs + requests_of l ys" "gauge_of (xs @ ys) = gauge_of xs + gauge_of ys"
  by (simp_all add: requests_of_def gauge_of_def)

lemma sum_list_update_add:
  fixes f :: "'a \<Rightarrow> 'b::comm_monoid_add"
  shows "i < length xs \<Longrightarrow> f y = f (xs ! i) + d \<Longrightarrow> (\<Sum>x\<leftarrow>xs[i := y]. f x) = (\<Sum>x\<leftarrow>xs. f x) + d"
proof (induction xs arbitrary: i)
  case (Cons x xs)
  then show ?case by (cases i) (simp_all add: ac_simps)
qed simp

lemma task_step_meters:
  "task_step H cm cfg sh t sh' t' \<Longrightarrow>
     tk_meters t' = tk_meters t \<and> sh_metrics sh' = sh_metrics sh
     \<or> (\<exists>m. tk_meters t' = tk_meters t @ [m] \<and> sh_metrics sh' = meter_run m (sh_metrics sh))"
  by (induction rule: task_step.induct) auto

lemma admin_metrics:
  assumes "admin_Handler dp ready env r a = (b, ans)"
  shows "m_requests (ad_metrics b) = m_requests (ad_metrics a) \<and> m_tunnels (ad_metrics b) = m_tunnels (ad_metrics a)"
proof (cases "attempts dp a r")
  case True
  obtain s e where "dp_reload dp env (ad_store a) (dp_source dp (ad_store a)) = (s, e)" by fastforce
  with admin_attempt [OF True, of env s] assms show ?thesis by (cases e) (auto simp: count_reload_def)
next
  case False
  from admin_not_attempt [OF False, of ready env] assms show ?thesis by simp
qed

lemma metrics_inv_step: "gate_step H cm cfg err g g' \<Longrightarrow> metrics_inv m g \<Longrightarrow> metrics_inv m g'"
proof (induction rule: gate_step.induct)
  case (arrives g x)
  then show ?case by (simp add: metrics_inv_def new_task_def requests_of_def gauge_of_def)
next
  case (serves i g sh t)
  from task_step_meters [OF serves(2)] show ?case
  proof
    assume "tk_meters t = tk_meters (g_tasks g ! i) \<and> sh_metrics sh = sh_metrics (g_shared g)"
    with serves(1,3) sum_list_update_add [of i "g_tasks g" "\<lambda>t. requests_of _ (tk_meters t)" t 0]
      sum_list_update_add [of i "g_tasks g" "\<lambda>t. gauge_of (tk_meters t)" t 0]
    show ?thesis by (simp add: metrics_inv_def advance_def)
  next
    assume "\<exists>x. tk_meters t = tk_meters (g_tasks g ! i) @ [x] \<and> sh_metrics sh = meter_run x (sh_metrics (g_shared g))"
    then obtain x where x: "tk_meters t = tk_meters (g_tasks g ! i) @ [x]"
      "sh_metrics sh = meter_run x (sh_metrics (g_shared g))" by blast
    have "(\<Sum>t\<leftarrow>(g_tasks g)[i := t]. requests_of l (tk_meters t))
        = (\<Sum>t\<leftarrow>g_tasks g. requests_of l (tk_meters t)) + requests_of l [x]" for l
      using serves(1) x(1) by (intro sum_list_update_add) (simp_all add: meters_append)
    moreover have "(\<Sum>t\<leftarrow>(g_tasks g)[i := t]. gauge_of (tk_meters t))
        = (\<Sum>t\<leftarrow>g_tasks g. gauge_of (tk_meters t)) + gauge_of [x]"
      using serves(1) x(1) by (intro sum_list_update_add) (simp_all add: meters_append)
    ultimately show ?thesis
      using serves(3) x(2) by (simp add: metrics_inv_def advance_def meter_run_requests meter_run_tunnels)
  qed
next
  case (administers ready env r g a ans)
  with admin_metrics [OF administers(1)] show ?case by (simp add: metrics_inv_def)
qed (simp add: metrics_inv_def)

lemma metrics_inv_init: "metrics_inv m (gate_init s l m)"
  by (simp add: metrics_inv_def gate_init_def)

lemma log_inv_init: "log_inv H l (gate_init s l m)"
  by (simp add: log_inv_def gate_init_def)

section \<open>The policy in force\<close>

definition policy_inv :: "casemap \<Rightarrow> config \<Rightarrow> gate \<Rightarrow> bool" where
  "policy_inv cm cfg g \<longleftrightarrow>
     valid_policy (st_current (sh_store (g_shared g))) \<and> (\<forall>t \<in> set (g_tasks g). task_ok cm cfg t)"

lemma policy_inv_step: "gate_step H cm cfg err g g' \<Longrightarrow> policy_inv cm cfg g \<Longrightarrow> policy_inv cm cfg g'"
proof (induction rule: gate_step.induct)
  case (arrives g x)
  then show ?case by (simp add: policy_inv_def task_ok_new)
next
  case (serves i g sh t)
  then have "task_ok cm cfg (g_tasks g ! i)" "valid_policy (st_current (sh_store (g_shared g)))"
    by (simp_all add: policy_inv_def)
  from task_ok_step [OF serves(2) this] serves(3) show ?case
    by (auto simp: policy_inv_def advance_def dest: set_update_subset_insert [THEN subsetD])
next
  case (administers ready env r g a ans)
  from gate_reload.admin_Handler_keeps [OF _ _ _ administers(1)] administers(2) show ?case
    by (simp add: policy_inv_def store_deps_def)
qed (simp add: policy_inv_def)

text \<open>Everything that holds of a gate that has been running for a while.\<close>

lemma reachable_inv:
  assumes "gate_reachable H cm cfg err (gate_init s l m) g" "valid_policy (st_current s)"
  shows "tunnels_inv g \<and> log_inv H l g \<and> metrics_inv m g \<and> policy_inv cm cfg g"
  using assms(1)
proof (induction rule: gate_reachable.induct)
  case start
  have "policy_inv cm cfg (gate_init s l m)" using assms(2) by (simp add: policy_inv_def gate_init_def)
  then show ?case by (simp add: tunnels_inv_init log_inv_init metrics_inv_init)
next
  case (step g g')
  note kept = tunnels_inv_step [OF step(2)] log_inv_step [OF step(2)] metrics_inv_step [OF step(2)]
    policy_inv_step [OF step(2)]
  show ?case using kept step(3) by blast
qed

end
