(* ===== verification/Serial.thy ===== *)
theory Serial
  imports System
begin

text \<open>
  Concurrent runs of the gate against the sequential handlers: whatever the interleaving, each
  request did what its handler does on the answers it was given, and the log is the one a gate
  leaves that serves the same requests one after another. What the whole log verifies as, what a
  finished shutdown has recorded, and that a gate can always finish what it has begun.
\<close>

section \<open>What a request did is what its handler does\<close>

text \<open>A request with the answers it was given: a valid policy's, the shutdown's, its pump's.\<close>

definition answered :: "casemap \<Rightarrow> exchange \<Rightarrow> exchange \<Rightarrow> bool" where
  "answered cm x x' \<longleftrightarrow>
     (case x of (env, ue, ce, r) \<Rightarrow>
        \<exists>s closing started cl ul ups downs. valid_policy (st_current s) \<and>
          x' = (env\<lparr>ge_eval := store_Evaluate cm s\<rparr>, ue,
                ce\<lparr>ce_closing := closing, ce_started := started, ce_client := (ce_client ce)\<lparr>conn_left := cl\<rparr>,
                   ce_upstream := (ce_upstream ce)\<lparr>conn_left := ul\<rparr>, ce_ups := ups, ce_downs := downs\<rparr>, r))"

definition serve_one :: "(string \<Rightarrow> string) \<Rightarrow> casemap \<Rightarrow> config \<Rightarrow> exchange \<Rightarrow> proxy \<Rightarrow> proxy" where
  "serve_one H cm cfg x st = (case x of (env, ue, ce, r) \<Rightarrow> ServeHTTP H cm cfg env ue ce r st)"

definition explains :: "casemap \<Rightarrow> config \<Rightarrow> task \<Rightarrow> exchange \<Rightarrow> bool" where
  "explains cm cfg t x \<longleftrightarrow>
     answered cm (tk_in t) x \<and> (\<exists>rest. \<forall>H st. effects st (serve_one H cm cfg x st) = tk_trace t @ rest)"

text \<open>The handlers ask for what they are answered; nothing else in them depends on it.\<close>

lemma eval_irrelevant:
  "finish_prog (env\<lparr>ge_eval := f\<rparr>) = finish_prog env" "Quote (env\<lparr>ge_eval := f\<rparr>) = Quote env"
  "refuse_prog (env\<lparr>ge_eval := f\<rparr>) = refuse_prog env"
  by (simp_all add: fun_eq_iff finish_prog_def refuse_prog_def Quote_def)

lemma eval_irrelevant_progs:
  "path_reason (env\<lparr>ge_eval := f\<rparr>) = path_reason env"
  "authority_message (env\<lparr>ge_eval := f\<rparr>) = authority_message env"
  "forward_prog (env\<lparr>ge_eval := f\<rparr>) = forward_prog env" "tunnel_prog cfg (env\<lparr>ge_eval := f\<rparr>) = tunnel_prog cfg env"
  by (simp_all add: fun_eq_iff path_reason_def authority_message_def forward_prog_def tunnel_prog_def
      eval_irrelevant split: authority_error.split sum.split prod.split)

lemma world_irrelevant:
  "open_prog cfg (env\<lparr>ge_eval := f\<rparr>)
     (ce\<lparr>ce_closing := a, ce_started := b, ce_client := c, ce_upstream := d, ce_ups := us, ce_downs := ds\<rparr>) =
   open_prog cfg env ce"
  by (simp add: fun_eq_iff open_prog_def eval_irrelevant eval_irrelevant_progs)

lemma http_prog_eval: "http_prog cm (env\<lparr>ge_eval := f\<rparr>) ue r = http_prog cm env ue r"
  unfolding http_prog_def eval_irrelevant eval_irrelevant_progs by (rule refl)

lemma connect_prog_world:
  "connect_prog cfg (env\<lparr>ge_eval := f\<rparr>)
     (ce\<lparr>ce_closing := a, ce_started := b, ce_client := c, ce_upstream := d, ce_ups := us, ce_downs := ds\<rparr>) r =
   connect_prog cfg env ce r"
proof -
  let ?ce = "ce\<lparr>ce_closing := a, ce_started := b, ce_client := c, ce_upstream := d, ce_ups := us, ce_downs := ds\<rparr>"
  have dial: "ce_dial ?ce = ce_dial ce" by simp
  show ?thesis
    unfolding connect_prog_def eval_irrelevant eval_irrelevant_progs world_irrelevant dial by (rule refl)
qed

lemma serve_prog_answered: "answered cm x x' \<Longrightarrow> serve_prog cm cfg x' = serve_prog cm cfg x"
  by (cases x) (auto simp: answered_def serve_prog_def http_prog_eval connect_prog_world)

lemma pump_answers_possible: "\<exists>p. p \<in> pump_answers cfg x"
proof -
  obtain env ue ce r where x: "x = (env, ue, ce, r)" by (cases x)
  let ?s0 = "pump_init (cfg_max_tunnel cfg) (ce_client ce) (ce_upstream ce) (\<lambda>_. 0)"
  let ?s1 = "closeBoth ?s0"
  have one: "pump_step ?s0 ?s1" by (rule pump_step.shut_down) (simp add: pump_init_def)
  have "ending ?s1" by (simp add: ending_def closeBoth_def)
  with pump_inv_step [OF one pump_init_inv] obtain t where t: "pump_must\<^sup>*\<^sup>* ?s1 t" "received (ps_main t) = 2"
    using inevitable_reaches [OF ending_returns] by blast
  from t(1) have "pump_reachable ?s0 t"
    by (induction rule: rtranclp_induct)
      (auto intro: pump_reachable.intros one pump_step.own pump_must_own)
  moreover obtain u d c where "ps_main t = PumpReturned u d c" using t(2) by (auto simp: received_two)
  ultimately have "\<lparr>pu_up = u, pu_down = d, pu_capped = c\<rparr> \<in> pump_answers cfg x"
    by (auto simp: pump_answers_def x)
  then show ?thesis by blast
qed

lemma pump_answers_through:
  assumes "p \<in> pump_answers cfg (env, ue, ce, r)"
  shows "\<exists>cl ul ups downs. pumped_through cfg (ce\<lparr>ce_closing := closing, ce_started := started,
      ce_client := (ce_client ce)\<lparr>conn_left := cl\<rparr>, ce_upstream := (ce_upstream ce)\<lparr>conn_left := ul\<rparr>,
      ce_ups := ups, ce_downs := downs\<rparr>) = p"
proof -
  obtain buf s where s: "pump_reachable (pump_init (cfg_max_tunnel cfg) (ce_client ce) (ce_upstream ce) buf) s"
    "ps_main s = PumpReturned (pu_up p) (pu_down p) (pu_capped p)"
    using assms by (auto simp: pump_answers_def)
  from pump_inv_returned [OF pump_inv_reachable [OF s(1)] s(2)] obtain cl ul where
    "pump (cfg_max_tunnel cfg) ((ce_client ce)\<lparr>conn_left := cl\<rparr>) ((ce_upstream ce)\<lparr>conn_left := ul\<rparr>)
        (pd_in (ps_dir s Up)) (pd_in (ps_dir s Down)) =
      (cw_w (pd_w (ps_dir s Down)), cw_w (pd_w (ps_dir s Up)),
         \<lparr>pu_up = pu_up p, pu_down = pu_down p, pu_capped = pu_capped p\<rparr>)"
    by blast
  then show ?thesis
    by (intro exI [of _ cl] exI [of _ ul] exI [of _ "pd_in (ps_dir s Up)"] exI [of _ "pd_in (ps_dir s Down)"])
      (simp add: pumped_through_def)
qed

lemma serve_one_out:
  assumes "x = (env, ue, ce, r)"
  shows "px_trace (serve_one H cm cfg x st) = px_trace st @ fst (out (answers_of cfg env ce) (serve_prog cm cfg x))"
    and "px_metrics (serve_one H cm cfg x st) =
      fold meter_run (snd (out (answers_of cfg env ce) (serve_prog cm cfg x))) (px_metrics st)"
  using run_out [of H cfg env ce "serve_prog cm cfg x" st] run_serve [of H cfg env ce cm ue r st] assms
  by (simp_all add: serve_one_def)

lemma task_explained:
  assumes "task_ok cm cfg t" "valid_policy p"
  shows "\<exists>x rest ms. answered cm (tk_in t) x
    \<and> (\<forall>H st. px_trace (serve_one H cm cfg x st) = px_trace st @ tk_trace t @ rest)
    \<and> (\<forall>H st. px_metrics (serve_one H cm cfg x st) = fold meter_run (tk_meters t @ ms) (px_metrics st))
    \<and> (tk_prog t = Return \<longrightarrow> rest = [] \<and> ms = [])"
proof -
  let ?D = "evaluators cm" and ?P = "pump_answers cfg (tk_in t)"
  obtain env ue ce r where x0: "tk_in t = (env, ue, ce, r)" by (cases "tk_in t")
  obtain f0 u0 where n: "f0 \<in> ?D" "u0 \<in> ?P"
    using pump_answers_possible [of cfg "tk_in t"] assms(2)
    by (auto simp: evaluators_def) (metis store.select_convs(1))
  obtain rest ms where rest: "runs ?D ?P (tk_prog t) rest ms" using runs_possible [OF n] by blast
  then have "runs ?D ?P (serve_prog cm cfg (tk_in t)) (tk_trace t @ rest) (tk_meters t @ ms)"
    using assms(1) by (simp add: task_ok_def)
  from runs_out [OF n this staged_serve] obtain A where A: "possible ?D ?P A"
    "out A (serve_prog cm cfg (tk_in t)) = (tk_trace t @ rest, tk_meters t @ ms)" by blast
  obtain s where s: "valid_policy (st_current s)" "an_eval A = store_Evaluate cm s"
    using A(1) by (auto simp: possible_def evaluators_def)
  obtain cl ul ups downs where w: "pumped_through cfg (ce\<lparr>ce_closing := an_closing A, ce_started := an_started A,
      ce_client := (ce_client ce)\<lparr>conn_left := cl\<rparr>, ce_upstream := (ce_upstream ce)\<lparr>conn_left := ul\<rparr>,
      ce_ups := ups, ce_downs := downs\<rparr>) = an_pumped A" (is "pumped_through cfg ?ce = _")
    using pump_answers_through A(1) unfolding possible_def x0 by blast
  let ?env = "env\<lparr>ge_eval := store_Evaluate cm s\<rparr>" and ?x = "(env\<lparr>ge_eval := store_Evaluate cm s\<rparr>, ue, ?ce, r)"
  have x: "answered cm (tk_in t) ?x" using s(1) unfolding x0 answered_def prod.case by blast
  have "answers_of cfg ?env ?ce = A" using s(2) w by (cases A) (simp add: answers_of_def)
  with A(2) serve_prog_answered [OF x, of cfg]
  have o: "out (answers_of cfg ?env ?ce) (serve_prog cm cfg ?x) = (tk_trace t @ rest, tk_meters t @ ms)" by simp
  have "tk_prog t = Return \<Longrightarrow> rest = [] \<and> ms = []" using rest by simp
  with x serve_one_out [of ?x ?env ue ?ce r, OF refl] o show ?thesis
    by (intro exI [of _ ?x] exI [of _ rest] exI [of _ ms]) simp
qed

lemma serve_all_one: "serve_all H cm cfg (x # xs) st = serve_all H cm cfg xs (serve_one H cm cfg x st)"
  by (cases x) (simp add: serve_one_def)

text \<open>A list of requests and the records they leave: the log they write, one after another.\<close>

lemma serve_one_record:
  assumes "\<And>st. px_trace (serve_one H cm cfg x st) = px_trace st @ es" "audits es = [r]"
  shows "px_log (serve_one H cm cfg x st) = append_run H [call_of x r] (px_log st)"
    and "m_requests (px_metrics (serve_one H cm cfg x st)) l =
      m_requests (px_metrics st) l + (if l = (a_decision r, a_rule r, a_kind r) then 1 else 0)"
    and "m_tunnels (px_metrics (serve_one H cm cfg x st)) = m_tunnels (px_metrics st)"
proof -
  obtain env ue ce q where x: "x = (env, ue, ce, q)" by (cases x)
  obtain rec where "one_record H env rec st (serve_one H cm cfg x st)"
    using ServeHTTP_one_record [of H env st cm cfg ue ce q] by (auto simp: x serve_one_def)
  moreover from this assms have "rec = r" by (auto simp: one_record_def)
  ultimately show "px_log (serve_one H cm cfg x st) = append_run H [call_of x r] (px_log st)"
    "m_requests (px_metrics (serve_one H cm cfg x st)) l =
      m_requests (px_metrics st) l + (if l = (a_decision r, a_rule r, a_kind r) then 1 else 0)"
    "m_tunnels (px_metrics (serve_one H cm cfg x st)) = m_tunnels (px_metrics st)"
    unfolding one_record_def by (simp_all add: call_of_def x del: split_paired_All)
qed

lemma serve_all_log:
  assumes "list_all2 (\<lambda>x r. \<exists>es. audits es = [r] \<and> (\<forall>st. px_trace (serve_one H cm cfg x st) = px_trace st @ es)) xs rs"
  shows "px_log (serve_all H cm cfg xs st) = append_run H (map2 call_of xs rs) (px_log st)"
  using assms
proof (induction xs rs arbitrary: st rule: list_all2_induct)
  case (Cons x xs r rs)
  from Cons(1) obtain es where es: "audits es = [r]" "\<And>st. px_trace (serve_one H cm cfg x st) = px_trace st @ es"
    by blast
  from serve_one_record(1) [of H cm cfg x es r st, OF es(2,1)] Cons.IH
    append_run_append [of H "[call_of x r]" "map2 call_of xs rs"] show ?case by (simp add: serve_all_one)
qed simp

lemma explained_record:
  assumes "task_ok cm cfg t" "task_typed u t" "valid_policy p" "audits (tk_trace t) \<noteq> []"
  obtains x es where "explains cm cfg t x" "audits es = [hd (audits (tk_trace t))]"
    "\<And>H st. px_trace (serve_one H cm cfg x st) = px_trace st @ es"
proof -
  obtain x rest where x: "answered cm (tk_in t) x"
    "\<forall>H st. px_trace (serve_one H cm cfg x st) = px_trace st @ tk_trace t @ rest"
    using task_explained [OF assms(1,3)] by blast
  obtain env ue ce r where xs: "x = (env, ue, ce, r)" by (cases x)
  obtain r0 where "audits (tk_trace t) = [r0]"
    using task_typed_audits [OF assms(2)] assms(4) by (cases "audits (tk_trace t)") auto
  moreover obtain rec where "audits (tk_trace t @ rest) = [rec]"
    using ServeHTTP_one_record [of sha256_hex env sample_proxy cm cfg ue ce r] x(2)
    by (auto simp: one_record_def serve_one_def xs)
  ultimately have "audits (tk_trace t @ rest) = [hd (audits (tk_trace t))]" by (simp add: audits_append)
  moreover have "explains cm cfg t x"
    using x by (auto simp: explains_def effects_def intro!: exI [of _ rest])
  ultimately show ?thesis using that x(2) by blast
qed

lemma fold_meters:
  "m_requests (fold meter_run ms m) l = m_requests m l + requests_of l ms"
  "m_tunnels (fold meter_run ms m) = m_tunnels m + gauge_of ms"
proof (induction ms arbitrary: m)
  case (Cons x ms)
  { case 1 show ?case using Cons.IH(1) [of "meter_run x m"] meters_append(1) [of l "[x]" ms] by (simp add: meter_run_requests) }
  { case 2 show ?case using Cons.IH(2) [of "meter_run x m"] meters_append(2) [of "[x]" ms] by (simp add: meter_run_tunnels) }
qed (simp_all add: requests_of_def gauge_of_def)

text \<open>What a request that is over has left: one record, one count for it, and no tunnel open.\<close>

definition label_of :: "audit_record \<Rightarrow> string \<times> string \<times> string" where
  "label_of r = (a_decision r, a_rule r, a_kind r)"

lemma finished_meters:
  assumes "task_ok cm cfg t" "valid_policy p" "tk_prog t = Return"
  shows "\<exists>r. audits (tk_trace t) = [r] \<and> (\<forall>l. requests_of l (tk_meters t) = (if l = label_of r then 1 else 0))
    \<and> gauge_of (tk_meters t) = 0"
proof -
  obtain x where x: "\<forall>H st. px_trace (serve_one H cm cfg x st) = px_trace st @ tk_trace t"
    "\<forall>H st. px_metrics (serve_one H cm cfg x st) = fold meter_run (tk_meters t) (px_metrics st)"
    using task_explained [OF assms(1,2)] assms(3) by force
  obtain env ue ce q where xs: "x = (env, ue, ce, q)" by (cases x)
  obtain r where r: "audits (tk_trace t) = [r]"
    using ServeHTTP_one_record [of sha256_hex env sample_proxy cm cfg ue ce q] x(1)
    by (auto simp: one_record_def serve_one_def xs)
  have t: "px_trace (serve_one sha256_hex cm cfg x st) = px_trace st @ tk_trace t" for st using x(1) by simp
  have "requests_of l (tk_meters t) = (if l = label_of r then 1 else 0)" for l
    using serve_one_record(2) [OF t r, of sample_proxy l] x(2) by (simp add: fold_meters label_of_def)
  moreover have "gauge_of (tk_meters t) = 0"
    using serve_one_record(3) [OF t r, of sample_proxy] x(2) by (simp add: fold_meters)
  ultimately show ?thesis using r by blast
qed

text \<open>The records of the log, in its order, and those whose write went out.\<close>

definition g_records :: "gate \<Rightarrow> audit_record list" where
  "g_records g = map (\<lambda>i. hd (audits (tk_trace (g_tasks g ! i)))) (g_order g)"

definition g_written :: "gate \<Rightarrow> audit_record list" where
  "g_written g = map (\<lambda>i. hd (audits (tk_trace (g_tasks g ! i))))
     (filter (\<lambda>i. ge_write (fst (tk_in (g_tasks g ! i))) = WriteOK) (g_order g))"

lemma map2_calls:
  "list_all2 (\<lambda>i x. explains cm cfg (ts ! i) x) os xs \<Longrightarrow>
     map2 call_of xs (map (\<lambda>i. hd (audits (tk_trace (ts ! i)))) os) = map (\<lambda>i. task_call (ts ! i)) os"
proof (induction os xs rule: list_all2_induct)
  case (Cons i js x xs)
  then have "ge_now (fst x) = ge_now (fst (tk_in (ts ! i)))" "ge_write (fst x) = ge_write (fst (tk_in (ts ! i)))"
    by (auto simp: explains_def answered_def split: prod.splits)
  with Cons show ?case by (simp add: task_call_def call_of_def)
qed simp

lemma order_explained:
  assumes "tunnels_inv g" "log_inv H l g" "policy_inv cm cfg g"
  shows "\<exists>xs. list_all2 (\<lambda>i x. explains cm cfg (g_tasks g ! i) x) (g_order g) xs
    \<and> list_all2 (\<lambda>x r. \<exists>es. audits es = [r] \<and> (\<forall>st. px_trace (serve_one H cm cfg x st) = px_trace st @ es))
        xs (g_records g)"
proof -
  have p: "valid_policy (st_current (sh_store (g_shared g)))" using assms(3) by (simp add: policy_inv_def)
  have "\<exists>x. explains cm cfg (g_tasks g ! i) x
      \<and> (\<exists>es. audits es = [hd (audits (tk_trace (g_tasks g ! i)))]
           \<and> (\<forall>st. px_trace (serve_one H cm cfg x st) = px_trace st @ es))"
    if "i \<in> set (g_order g)" for i
  proof -
    have i: "g_tasks g ! i \<in> set (g_tasks g)" "audits (tk_trace (g_tasks g ! i)) \<noteq> []"
      using that assms(2) by (auto simp: log_inv_def)
    with assms(1,3) have "task_ok cm cfg (g_tasks g ! i)" "task_typed (sh_tunnels (g_shared g)) (g_tasks g ! i)"
      by (simp_all add: tunnels_inv_def policy_inv_def)
    from explained_record [OF this p i(2)] show ?thesis by metis
  qed
  then obtain f where f: "\<And>i. i \<in> set (g_order g) \<Longrightarrow> explains cm cfg (g_tasks g ! i) (f i)
      \<and> (\<exists>es. audits es = [hd (audits (tk_trace (g_tasks g ! i)))]
           \<and> (\<forall>st. px_trace (serve_one H cm cfg (f i) st) = px_trace st @ es))"
    by metis
  then show ?thesis
    by (intro exI [of _ "map f (g_order g)"]) (simp add: g_records_def list_all2_map1 list_all2_map2 list_all2_same)
qed

lemma g_written_calls:
  "sent_payloads (map (\<lambda>i. task_call (g_tasks g ! i)) (g_order g)) =
     map payload (g_written g)"
  "taken (map (\<lambda>i. task_call (g_tasks g ! i)) (g_order g)) = length (g_written g)"
  by (simp_all add: g_written_def taken_def task_call_def call_of_def filter_map o_def)

text \<open>The texts of a task's record and of its clock, and a write that goes out whole or not at all.\<close>

definition task_clean :: "task \<Rightarrow> bool" where
  "task_clean t \<longleftrightarrow>
     whole_write (tk_in t) \<and> utf8_valid (ge_now (fst (tk_in t))) \<and> list_all utf8_record (audits (tk_trace t))"

lemma task_clean_call: "task_clean t \<Longrightarrow> audits (tk_trace t) \<noteq> [] \<Longrightarrow> clean_call (task_call t)"
  by (cases "audits (tk_trace t)")
    (auto simp: task_clean_def task_call_def clean_call_def utf8_call_def call_of_def whole_write_def)

section \<open>Requests that are over\<close>

lemma sum_order:
  fixes f :: "'a \<Rightarrow> 'b::comm_monoid_add"
  assumes "distinct os" "set os = {..<length ts}"
  shows "(\<Sum>t\<leftarrow>ts. f t) = (\<Sum>i\<leftarrow>os. f (ts ! i))"
proof -
  have "(\<Sum>t\<leftarrow>ts. f t) = (\<Sum>i\<leftarrow>[0..<length ts]. f (ts ! i))"
    by (metis (no_types, lifting) map_nth map_map comp_def map_eq_conv)
  also have "\<dots> = sum (\<lambda>i. f (ts ! i)) {..<length ts}"
    by (simp add: sum_list_distinct_conv_sum_set atLeast0LessThan)
  finally show ?thesis using assms by (simp add: sum_list_distinct_conv_sum_set)
qed

lemma count_records: "length (filter P (map f os)) = (\<Sum>i\<leftarrow>os. if P (f i) then 1 else 0)"
  by (induction os) simp_all

lemma order_at_rest:
  assumes "log_inv H l g" "policy_inv cm cfg g" "\<forall>t \<in> set (g_tasks g). tk_prog t = Return"
  shows "set (g_order g) = {..<length (g_tasks g)}"
proof -
  have "audits (tk_trace (g_tasks g ! i)) \<noteq> []" if "i < length (g_tasks g)" for i
    using finished_meters [of cm cfg "g_tasks g ! i"] that assms(2,3) by (force simp: policy_inv_def)
  then show ?thesis using assms(1) by (auto simp: log_inv_def)
qed

lemma requests_at_rest:
  assumes "metrics_inv m g" "log_inv H l g" "policy_inv cm cfg g" "\<forall>t \<in> set (g_tasks g). tk_prog t = Return"
  shows "m_requests (sh_metrics (g_shared g)) lb = m_requests m lb + length (filter (\<lambda>r. label_of r = lb) (g_records g))"
    and "m_tunnels (sh_metrics (g_shared g)) = m_tunnels m"
proof -
  note dom = order_at_rest [OF assms(2-4)]
  have d: "distinct (g_order g)" using assms(2) by (simp add: log_inv_def)
  have one: "requests_of lb (tk_meters (g_tasks g ! i))
        = (if label_of (hd (audits (tk_trace (g_tasks g ! i)))) = lb then 1 else 0)"
    and gauge: "gauge_of (tk_meters (g_tasks g ! i)) = 0" if "i \<in> set (g_order g)" for i
  proof -
    have "i < length (g_tasks g)" using that dom by simp
    then obtain r where r: "audits (tk_trace (g_tasks g ! i)) = [r]"
      "\<forall>l. requests_of l (tk_meters (g_tasks g ! i)) = (if l = label_of r then 1 else 0)"
      "gauge_of (tk_meters (g_tasks g ! i)) = 0"
      using finished_meters [of cm cfg "g_tasks g ! i"] assms(3,4) unfolding policy_inv_def by (metis nth_mem)
    then show "gauge_of (tk_meters (g_tasks g ! i)) = 0" by simp
    from spec [OF r(2), of lb] r(1) show "requests_of lb (tk_meters (g_tasks g ! i))
        = (if label_of (hd (audits (tk_trace (g_tasks g ! i)))) = lb then 1 else 0)" by auto
  qed
  have "(\<Sum>t\<leftarrow>g_tasks g. requests_of lb (tk_meters t))
      = (\<Sum>i\<leftarrow>g_order g. if label_of (hd (audits (tk_trace (g_tasks g ! i)))) = lb then 1 else 0)"
    unfolding sum_order [OF d dom] by (intro arg_cong [where f = sum_list] map_cong refl one)
  then show "m_requests (sh_metrics (g_shared g)) lb = m_requests m lb + length (filter (\<lambda>r. label_of r = lb) (g_records g))"
    using assms(1) unfolding g_records_def count_records metrics_inv_def by (simp del: split_paired_All)
  have "(\<Sum>t\<leftarrow>g_tasks g. gauge_of (tk_meters t)) = (\<Sum>i\<leftarrow>g_order g. 0)"
    unfolding sum_order [OF d dom] by (intro arg_cong [where f = sum_list] map_cong refl gauge)
  then show "m_tunnels (sh_metrics (g_shared g)) = m_tunnels m" using assms(1) by (simp add: metrics_inv_def)
qed

lemma released_at_rest:
  assumes "tunnels_inv g" "\<forall>t \<in> set (g_tasks g). tk_prog t = Return"
  shows "sd_pc (sh_tunnels (g_shared g)) n = NotStarted \<or> sd_pc (sh_tunnels (g_shared g)) n = Released"
proof (rule disjCI)
  assume "sd_pc (sh_tunnels (g_shared g)) n \<noteq> Released"
  show "sd_pc (sh_tunnels (g_shared g)) n = NotStarted"
  proof (rule ccontr)
    assume "sd_pc (sh_tunnels (g_shared g)) n \<noteq> NotStarted"
    with assms(1) obtain t where t: "t \<in> set (g_tasks g)" "tk_tunnel t = Some n" by (auto simp: tunnels_inv_def)
    with assms obtain ph where "typed Return ph" "in_phase (sh_tunnels (g_shared g)) t ph"
      unfolding tunnels_inv_def task_typed_def by metis
    with t(2) \<open>sd_pc (sh_tunnels (g_shared g)) n \<noteq> Released\<close> show False by (auto simp: in_phase_simps)
  qed
qed

section \<open>After the shutdown\<close>

lemma gate_step_tunnels:
  "gate_step H cm cfg err g g' \<Longrightarrow> tunnels_inv g \<Longrightarrow> sd_step\<^sup>*\<^sup>* (sh_tunnels (g_shared g)) (sh_tunnels (g_shared g'))"
proof (induction rule: gate_step.induct)
  case (serves i g sh t)
  then have "task_typed (sh_tunnels (g_shared g)) (g_tasks g ! i)" "sd_inv (sh_tunnels (g_shared g))"
    using sd_reachable_inv by (simp_all add: tunnels_inv_def)
  from own_step_task [OF serves(2) this] show ?case by (auto simp: own_step_def advance_def)
qed auto

lemma gate_step_owner:
  "gate_step H cm cfg err g g' \<Longrightarrow> tunnels_inv g \<Longrightarrow> i < length (g_tasks g) \<Longrightarrow>
     tk_tunnel (g_tasks g ! i) = Some n \<Longrightarrow> i < length (g_tasks g') \<and> tk_tunnel (g_tasks g' ! i) = Some n"
proof (induction rule: gate_step.induct)
  case (serves j g sh t)
  then have "task_typed (sh_tunnels (g_shared g)) (g_tasks g ! j)" "sd_inv (sh_tunnels (g_shared g))"
    using sd_reachable_inv by (simp_all add: tunnels_inv_def)
  from own_step_task [OF serves(2) this] serves(4,5) show ?case
    by (cases "j = i") (auto simp: own_step_def advance_def)
qed (auto simp: nth_append)

lemma gate_run_keeps:
  assumes "gate_reachable H cm cfg err g g'" "tunnels_inv g"
  shows "tunnels_inv g' \<and> sd_step\<^sup>*\<^sup>* (sh_tunnels (g_shared g)) (sh_tunnels (g_shared g'))
    \<and> (\<forall>i < length (g_tasks g). \<forall>n. tk_tunnel (g_tasks g ! i) = Some n \<longrightarrow>
         i < length (g_tasks g') \<and> tk_tunnel (g_tasks g' ! i) = Some n)"
  using assms(1)
proof (induction rule: gate_reachable.induct)
  case start
  then show ?case using assms(2) by simp
next
  case (step h h')
  then have "tunnels_inv h'" using tunnels_inv_step by blast
  with step gate_step_tunnels [OF step(2)] gate_step_owner [OF step(2)] show ?case
    by (meson rtranclp_trans)
qed

text \<open>A shutdown that returned nil: every tunnel there is or will be has its record.\<close>

lemma shutdown_final:
  assumes "gate_reachable H cm cfg err (gate_init s l m) g" "valid_policy (st_current s)"
    and "sd_shut (sh_tunnels (g_shared g)) = Returned None" "gate_reachable H cm cfg err g g'"
    and "i < length (g_tasks g')" "tk_tunnel (g_tasks g' ! i) = Some n"
  shows "i \<in> set (g_order g) \<and> tk_tunnel (g_tasks g ! i) = Some n
    \<and> sd_pc (sh_tunnels (g_shared g)) n = Released"
proof -
  let ?u = "sh_tunnels (g_shared g)" and ?v = "sh_tunnels (g_shared g')"
  note inv = reachable_inv [OF assms(1,2)]
  have u: "sd_inv ?u" using inv sd_reachable_inv by (simp add: tunnels_inv_def)
  have g': "tunnels_inv g'" "sd_step\<^sup>*\<^sup>* ?u ?v"
    and keeps: "\<And>j n. j < length (g_tasks g) \<Longrightarrow> tk_tunnel (g_tasks g ! j) = Some n \<Longrightarrow>
         j < length (g_tasks g') \<and> tk_tunnel (g_tasks g' ! j) = Some n"
    using gate_run_keeps [OF assms(4)] inv by blast+
  have v: "sd_inv ?v" using g'(1) sd_reachable_inv by (simp add: tunnels_inv_def)
  have "sd_closing ?u" using u assms(3) by (simp add: sd_inv_def)
  from closing_stays_rtranclp [OF g'(2) this] have "sd_next ?v = sd_next ?u" by simp
  moreover have "sd_pc ?v n \<noteq> NotStarted"
    using task_typed_started [of ?v "g_tasks g' ! i" n] assms(5,6) g'(1) by (simp add: tunnels_inv_def)
  ultimately have started: "sd_pc ?u n \<noteq> NotStarted" using u v unfolding sd_inv_def by metis
  moreover have "live_at (sd_pc ?u) = {}" using u assms(3) by (simp add: sd_inv_def)
  ultimately have released: "sd_pc ?u n = Released"
    by (cases "sd_pc ?u n") (auto simp: live_at_def live_pc_def)
  obtain j where j: "j < length (g_tasks g)" "tk_tunnel (g_tasks g ! j) = Some n"
    using started inv unfolding tunnels_inv_def by (metis in_set_conv_nth)
  with keeps [OF j] g'(1) assms(5,6) have "j = i" unfolding tunnels_inv_def by blast
  moreover have "audits (tk_trace (g_tasks g ! j)) \<noteq> []"
  proof -
    obtain ph where "in_phase ?u (g_tasks g ! j) ph"
      using inv j(1) unfolding tunnels_inv_def task_typed_def by (metis nth_mem)
    with j(2) released show ?thesis by (cases ph) (auto simp: in_phase_simps)
  qed
  ultimately show ?thesis using j released inv by (auto simp: log_inv_def)
qed

end
