(* ===== verification/Drain.thy ===== *)
theory Drain
  imports Serial
begin

text \<open>
  The gate can always finish what it has begun: no request is ever stuck, and from any state the
  requests in flight and the shutdown can run to their ends. Every program is finite, so a request
  is drained by induction on what is left of it; the shutdown by the size of its snapshot.
\<close>

section \<open>Draining the requests\<close>

definition gate_serves :: "(string \<Rightarrow> string) \<Rightarrow> casemap \<Rightarrow> config \<Rightarrow> gate \<Rightarrow> gate \<Rightarrow> bool" where
  "gate_serves H cm cfg g g' \<longleftrightarrow>
     (\<exists>i sh t. i < length (g_tasks g) \<and> task_step H cm cfg (g_shared g) (g_tasks g ! i) sh t \<and> g' = advance i sh t g)"

text \<open>Some run of the requests alone that ends with request \<open>i\<close> over and the others where they were.\<close>

definition drains :: "(string \<Rightarrow> string) \<Rightarrow> casemap \<Rightarrow> config \<Rightarrow> nat \<Rightarrow> gate \<Rightarrow> bool" where
  "drains H cm cfg i g \<longleftrightarrow>
     (\<exists>g'. (gate_serves H cm cfg)\<^sup>*\<^sup>* g g' \<and> tunnels_inv g' \<and> length (g_tasks g') = length (g_tasks g)
        \<and> tk_prog (g_tasks g' ! i) = Return
        \<and> (\<forall>j. j \<noteq> i \<longrightarrow> g_tasks g' ! j = g_tasks g ! j)
        \<and> sd_shut (sh_tunnels (g_shared g')) = sd_shut (sh_tunnels (g_shared g)))"

lemma task_step_shut:
  "task_step H cm cfg sh t sh' t' \<Longrightarrow> sd_shut (sh_tunnels sh') = sd_shut (sh_tunnels sh)"
proof (induction rule: task_step.induct)
  case (registered t k sh u r)
  then show ?case by (auto simp: registerTunnel_def Let_def split: if_splits)
next
  case (recorded t r p sh)
  then show ?case by (simp add: recorded_tunnel_def write_record_def split: option.split)
qed (simp_all add: unregister_delete_def unregister_done_def)

text \<open>One step of request \<open>i\<close>, and what is left of it drained.\<close>

lemma drains_step:
  assumes "tunnels_inv g" "i < length (g_tasks g)"
    and step: "task_step H cm cfg (g_shared g) (g_tasks g ! i) sh t"
    and rest: "\<And>h. tunnels_inv h \<Longrightarrow> i < length (g_tasks h) \<Longrightarrow> tk_prog (g_tasks h ! i) = tk_prog t \<Longrightarrow> drains H cm cfg i h"
  shows "drains H cm cfg i g"
proof -
  let ?h = "advance i sh t g"
  have h: "tunnels_inv ?h" "i < length (g_tasks ?h)" "tk_prog (g_tasks ?h ! i) = tk_prog t"
    using tunnels_inv_serves [OF assms(1,2) step] assms(2) by (simp_all add: advance_def)
  from rest [OF this] obtain g' where g': "(gate_serves H cm cfg)\<^sup>*\<^sup>* ?h g'" "tunnels_inv g'"
    "length (g_tasks g') = length (g_tasks ?h)" "tk_prog (g_tasks g' ! i) = Return"
    "\<forall>j. j \<noteq> i \<longrightarrow> g_tasks g' ! j = g_tasks ?h ! j"
    "sd_shut (sh_tunnels (g_shared g')) = sd_shut (sh_tunnels (g_shared ?h))"
    unfolding drains_def by blast
  have "gate_serves H cm cfg g ?h" using assms(2) step unfolding gate_serves_def by blast
  with g' task_step_shut [OF step] show ?thesis
    unfolding drains_def by (intro exI [of _ g']) (auto simp: advance_def intro: converse_rtranclp_into_rtranclp)
qed

lemma task_holds:
  assumes "tunnels_inv g" "i < length (g_tasks g)"
    and "tk_prog (g_tasks g ! i) = DeleteTunnel p \<or> tk_prog (g_tasks g ! i) = TunnelDone p"
  shows "\<exists>n. tk_tunnel (g_tasks g ! i) = Some n"
proof -
  obtain ph where "typed (tk_prog (g_tasks g ! i)) ph" "in_phase (sh_tunnels (g_shared g)) (g_tasks g ! i) ph"
    using assms(1,2) unfolding tunnels_inv_def task_typed_def by (metis nth_mem)
  with assms(3) show ?thesis by (auto simp: in_phase_simps)
qed

lemma task_drains:
  "tunnels_inv g \<Longrightarrow> i < length (g_tasks g) \<Longrightarrow> tk_prog (g_tasks g ! i) = p \<Longrightarrow> drains H cm cfg i g"
proof (induction p arbitrary: g)
  case Return
  then show ?case by (auto simp: drains_def)
next
  case (Ask q k)
  show ?case
    by (rule drains_step [OF Ask.prems(1,2) task_step.judged [OF Ask.prems(3)]]) (auto intro: Ask.IH [OF rangeI])
next
  case (AskClosing k)
  show ?case
    by (rule drains_step [OF AskClosing.prems(1,2) task_step.checked [OF AskClosing.prems(3)]]) (auto intro: AskClosing.IH [OF rangeI])
next
  case (Register k)
  obtain u r where u: "registerTunnel (sh_tunnels (g_shared g)) = (u, r)" by fastforce
  show ?case
    by (rule drains_step [OF Register.prems(1,2) task_step.registered [OF Register.prems(3) u]]) (auto intro: Register.IH [OF rangeI])
next
  case (RunPump k)
  obtain p where p: "p \<in> pump_answers cfg (tk_in (g_tasks g ! i))" using pump_answers_possible by blast
  show ?case
    by (rule drains_step [OF RunPump.prems(1,2) task_step.pumped [OF RunPump.prems(3) p]]) (auto intro: RunPump.IH [OF rangeI])
next
  case (Act e p)
  show ?case
    by (rule drains_step [OF Act.prems(1,2) task_step.acted [OF Act.prems(3)]]) (auto intro: Act.IH)
next
  case (AppendRecord r p)
  show ?case
    by (rule drains_step [OF AppendRecord.prems(1,2) task_step.recorded [OF AppendRecord.prems(3)]])
      (auto intro: AppendRecord.IH)
next
  case (Meter m p)
  show ?case
    by (rule drains_step [OF Meter.prems(1,2) task_step.metered [OF Meter.prems(3)]]) (auto intro: Meter.IH)
next
  case (DeleteTunnel p)
  obtain n where n: "tk_tunnel (g_tasks g ! i) = Some n"
    using task_holds [OF DeleteTunnel.prems(1,2)] DeleteTunnel.prems(3) by auto
  show ?case
    by (rule drains_step [OF DeleteTunnel.prems(1,2) task_step.deleted [OF DeleteTunnel.prems(3) n]])
      (auto intro: DeleteTunnel.IH)
next
  case (TunnelDone p)
  obtain n where n: "tk_tunnel (g_tasks g ! i) = Some n"
    using task_holds [OF TunnelDone.prems(1,2)] TunnelDone.prems(3) by auto
  show ?case
    by (rule drains_step [OF TunnelDone.prems(1,2) task_step.released [OF TunnelDone.prems(3) n]])
      (auto intro: TunnelDone.IH)
qed

text \<open>A request that is not over can move.\<close>

lemma task_moves:
  assumes "tunnels_inv g" "i < length (g_tasks g)" "tk_prog (g_tasks g ! i) \<noteq> Return"
  shows "\<exists>sh t. task_step H cm cfg (g_shared g) (g_tasks g ! i) sh t"
proof (cases "tk_prog (g_tasks g ! i)")
  case (Register k)
  obtain u r where "registerTunnel (sh_tunnels (g_shared g)) = (u, r)" by fastforce
  with Register show ?thesis by (blast intro: task_step.registered)
next
  case (RunPump k)
  with pump_answers_possible [of cfg "tk_in (g_tasks g ! i)"] show ?thesis by (blast intro: task_step.pumped)
next
  case (DeleteTunnel p)
  with task_holds [OF assms(1,2), of p] show ?thesis by (blast intro: task_step.deleted)
next
  case (TunnelDone p)
  with task_holds [OF assms(1,2), of p] show ?thesis by (blast intro: task_step.released)
qed (use assms(3) in \<open>blast intro: task_step.intros\<close>)+

lemma all_drain:
  assumes "tunnels_inv g"
  shows "\<exists>g'. (gate_serves H cm cfg)\<^sup>*\<^sup>* g g' \<and> tunnels_inv g' \<and> length (g_tasks g') = length (g_tasks g)
    \<and> (\<forall>t \<in> set (g_tasks g'). tk_prog t = Return)
    \<and> sd_shut (sh_tunnels (g_shared g')) = sd_shut (sh_tunnels (g_shared g))"
proof -
  have "\<exists>g'. (gate_serves H cm cfg)\<^sup>*\<^sup>* g g' \<and> tunnels_inv g' \<and> length (g_tasks g') = length (g_tasks g)
      \<and> (\<forall>j < k. tk_prog (g_tasks g' ! j) = Return)
      \<and> sd_shut (sh_tunnels (g_shared g')) = sd_shut (sh_tunnels (g_shared g))"
    if "k \<le> length (g_tasks g)" for k
    using that
  proof (induction k)
    case 0
    then show ?case using assms by (intro exI [of _ g]) simp
  next
    case (Suc k)
    then obtain h where h: "(gate_serves H cm cfg)\<^sup>*\<^sup>* g h" "tunnels_inv h" "length (g_tasks h) = length (g_tasks g)"
      "\<forall>j < k. tk_prog (g_tasks h ! j) = Return" "sd_shut (sh_tunnels (g_shared h)) = sd_shut (sh_tunnels (g_shared g))"
      by auto
    then have "drains H cm cfg k h" using Suc.prems by (intro task_drains) simp_all
    then obtain g' where "(gate_serves H cm cfg)\<^sup>*\<^sup>* h g'" "tunnels_inv g'" "length (g_tasks g') = length (g_tasks h)"
      "tk_prog (g_tasks g' ! k) = Return" "\<forall>j. j \<noteq> k \<longrightarrow> g_tasks g' ! j = g_tasks h ! j"
      "sd_shut (sh_tunnels (g_shared g')) = sd_shut (sh_tunnels (g_shared h))"
      unfolding drains_def by blast
    with h show ?case by (intro exI [of _ g']) (auto simp: less_Suc_eq)
  qed
  from this [of "length (g_tasks g)"] show ?thesis by (metis in_set_conv_nth order_refl)
qed

section \<open>Draining the shutdown\<close>

text \<open>The steps of \<open>Shutdown\<close> alone.\<close>

definition sd_only :: "tunnels \<Rightarrow> tunnels \<Rightarrow> bool" where
  "sd_only u v \<longleftrightarrow> sd_step u v \<and> sd_pc v = sd_pc u"

lemma shutdown_drains:
  assumes "sd_inv u" "holding u = {}" "finite live" "sd_shut u = Closing live"
  shows "\<exists>v. sd_only\<^sup>*\<^sup>* u v \<and> sd_shut v = Returned None"
  using assms(3,1,2,4)
proof (induction live arbitrary: u rule: finite_induct)
  case empty
  let ?v = "u\<lparr>sd_shut := Waiting\<rparr>"
  have "sd_only u ?v" using empty(3) sd_step.waits [of u] by (simp add: sd_only_def)
  moreover have "sd_only ?v (?v\<lparr>sd_shut := Returned None\<rparr>)"
    using sd_step.all_done [of ?v] empty(1,2) by (simp add: sd_only_def sd_inv_def)
  ultimately have "sd_only\<^sup>*\<^sup>* u (?v\<lparr>sd_shut := Returned None\<rparr>)"
    by (meson r_into_rtranclp rtranclp_trans)
  then show ?case by (metis tunnels.select_convs(7) tunnels.surjective tunnels.update_convs(7))
next
  case (insert i live)
  let ?v = "shutdown_close i (insert i live) u"
  have "sd_only u ?v"
    using sd_step.closed [of u "insert i live" i] insert.prems(3) by (simp add: sd_only_def shutdown_close_def)
  moreover have "sd_inv ?v" using inv_shutdown(2) [OF insert.prems(1,3)] .
  moreover have "sd_shut ?v = Closing live" using insert.hyps(2) by (simp add: shutdown_close_def)
  moreover have "holding ?v = {}" using insert.prems(2) by (simp add: shutdown_close_def)
  ultimately show ?case using insert.IH [of ?v] by (meson converse_rtranclp_into_rtranclp)
qed

lemma shutdown_drains_any:
  assumes "sd_inv u" "holding u = {}"
  shows "\<exists>v. sd_only\<^sup>*\<^sup>* u v \<and> sd_shut v = Returned (outcome (sd_shut u))"
proof (cases "sd_shut u")
  case Idle
  let ?v = "shutdown_begin u"
  have "sd_only u ?v" using sd_step.begin_shutdown [OF Idle] by (simp add: sd_only_def shutdown_begin_def)
  moreover have "\<exists>w. sd_only\<^sup>*\<^sup>* ?v w \<and> sd_shut w = Returned None"
    using inv_shutdown(1) [OF assms(1) Idle] assms(2) sd_inv_finite(2) [OF assms(1)] assms(1)
    by (intro shutdown_drains [of _ "sd_tunnels u"]) (simp_all add: shutdown_begin_def sd_inv_def)
  ultimately show ?thesis using Idle by (auto simp: outcome_def intro: converse_rtranclp_into_rtranclp)
next
  case (Closing live)
  with shutdown_drains [OF assms, of live] assms(1) show ?thesis by (simp add: outcome_def sd_inv_def)
next
  case Waiting
  then have "sd_only u (u\<lparr>sd_shut := Returned None\<rparr>)"
    using sd_step.all_done [of u] assms by (simp add: sd_only_def sd_inv_def)
  with Waiting show ?thesis
    by (intro exI [of _ "u\<lparr>sd_shut := Returned None\<rparr>"]) (simp add: outcome_def r_into_rtranclp)
next
  case (Returned r)
  then show ?thesis by (intro exI [of _ u]) (simp add: outcome_def)
qed

section \<open>Both\<close>

lemma reachable_trans:
  assumes "gate_reachable H cm cfg err g0 g" "gate_reachable H cm cfg err g g'"
  shows "gate_reachable H cm cfg err g0 g'"
  using assms(2,1) by (induction rule: gate_reachable.induct) (auto intro: gate_reachable.step)

lemma serves_reachable: "(gate_serves H cm cfg)\<^sup>*\<^sup>* g g' \<Longrightarrow> gate_reachable H cm cfg err g g'"
  by (induction rule: rtranclp_induct)
    (auto simp: gate_serves_def intro: gate_reachable.start gate_reachable.step [OF _ gate_step.serves])

lemma shuts_reachable:
  assumes "sd_only\<^sup>*\<^sup>* (sh_tunnels (g_shared g)) u"
  shows "gate_reachable H cm cfg err g (g\<lparr>g_shared := (g_shared g)\<lparr>sh_tunnels := u\<rparr>\<rparr>)"
  using assms
proof (induction rule: rtranclp_induct)
  case base
  then show ?case by (simp add: gate_reachable.start)
next
  case (step u v)
  have "gate_step H cm cfg err (g\<lparr>g_shared := (g_shared g)\<lparr>sh_tunnels := u\<rparr>\<rparr>)
      ((g\<lparr>g_shared := (g_shared g)\<lparr>sh_tunnels := u\<rparr>\<rparr>)\<lparr>g_shared :=
        (g_shared (g\<lparr>g_shared := (g_shared g)\<lparr>sh_tunnels := u\<rparr>\<rparr>))\<lparr>sh_tunnels := v\<rparr>\<rparr>)"
    using step(2) by (intro gate_step.shuts) (simp_all add: sd_only_def)
  with gate_reachable.step [OF step(3) this] show ?case by simp
qed

lemma gate_can_end:
  assumes "tunnels_inv g"
  shows "\<exists>g'. gate_reachable H cm cfg err g g' \<and> length (g_tasks g') = length (g_tasks g)
    \<and> (\<forall>t \<in> set (g_tasks g'). tk_prog t = Return)
    \<and> sd_shut (sh_tunnels (g_shared g')) = Returned (outcome (sd_shut (sh_tunnels (g_shared g))))"
proof -
  obtain h where h: "(gate_serves H cm cfg)\<^sup>*\<^sup>* g h" "tunnels_inv h" "length (g_tasks h) = length (g_tasks g)"
    "\<forall>t \<in> set (g_tasks h). tk_prog t = Return"
    "sd_shut (sh_tunnels (g_shared h)) = sd_shut (sh_tunnels (g_shared g))"
    using all_drain [OF assms] by blast
  have "sd_inv (sh_tunnels (g_shared h))" using h(2) sd_reachable_inv by (simp add: tunnels_inv_def)
  moreover have "holding (sh_tunnels (g_shared h)) = {}"
    using released_at_rest [OF h(2,4)] by (simp add: live_at_def live_pc_def) (metis tunnel_pc.distinct)
  ultimately obtain u where u: "sd_only\<^sup>*\<^sup>* (sh_tunnels (g_shared h)) u"
    "sd_shut u = Returned (outcome (sd_shut (sh_tunnels (g_shared g))))"
    using shutdown_drains_any h(5) by metis
  from reachable_trans [OF serves_reachable [OF h(1)] shuts_reachable [OF u(1)]] h(3,4) u(2) show ?thesis
    by (intro exI [of _ "h\<lparr>g_shared := (g_shared h)\<lparr>sh_tunnels := u\<rparr>\<rparr>"]) simp
qed

end
