(* ===== verification/Settle.thy ===== *)
theory Settle
  imports Drain
begin

text \<open>
  What the gate cannot fail to finish. The world may hold a request up for as long as it likes: an
  upstream need not answer, a dial need not connect, a client need not take its response, the two
  ends of a tunnel need not send or take anything. What the gate does by itself, and what a shutdown makes
  of the tunnels, comes to its end all the same.
\<close>

section \<open>What waits for the world\<close>

fun awaits :: "effect \<Rightarrow> bool" where
  "awaits (RoundTrip _) = True"
| "awaits (Dialled _) = True"
| "awaits (Wrote _) = True"
| "awaits (Responded _ _) = True"
| "awaits (Refused _ _) = True"
| "awaits _ = False"

text \<open>
  A call of \<open>pump\<close> can be counted on to return once \<open>Shutdown\<close> has closed its connections, by
  \<open>pump_ends\<close> and not before.
\<close>

definition held_up :: "tunnels \<Rightarrow> task \<Rightarrow> bool" where
  "held_up u t =
     (case tk_prog t of
        Act e _ \<Rightarrow> awaits e
      | RunPump _ \<Rightarrow> (case tk_tunnel t of None \<Rightarrow> True | Some n \<Rightarrow> n \<notin> sd_closed u)
      | _ \<Rightarrow> False)"

text \<open>The actions of a call of \<open>Shutdown\<close>; its deadline may pass while it waits.\<close>

inductive shutdown_step :: "bool \<Rightarrow> tunnels \<Rightarrow> tunnels \<Rightarrow> bool" for expiring :: bool where
  closed: "sd_shut u = Closing live \<Longrightarrow> i \<in> live \<Longrightarrow> shutdown_step expiring u (shutdown_close i live u)"
| waits: "sd_shut u = Closing {} \<Longrightarrow> shutdown_step expiring u (u\<lparr>sd_shut := Waiting\<rparr>)"
| all_done: "sd_shut u = Waiting \<Longrightarrow> sd_wg u = 0 \<Longrightarrow> shutdown_step expiring u (u\<lparr>sd_shut := Returned None\<rparr>)"
| expires: "expiring \<Longrightarrow> sd_shut u = Waiting \<Longrightarrow>
     shutdown_step expiring u (u\<lparr>sd_shut := Returned (Some (activeTunnels u))\<rparr>)"

definition with_tunnels :: "tunnels \<Rightarrow> gate \<Rightarrow> gate" where
  "with_tunnels u g = g\<lparr>g_shared := (g_shared g)\<lparr>sh_tunnels := u\<rparr>\<rparr>"

abbreviation tunnels_of :: "gate \<Rightarrow> tunnels" where
  "tunnels_of g \<equiv> sh_tunnels (g_shared g)"

text \<open>The steps the gate takes by itself, and those that may happen besides; no request arrives.\<close>

inductive gate_must :: "(string \<Rightarrow> string) \<Rightarrow> casemap \<Rightarrow> config \<Rightarrow> gate \<Rightarrow> gate \<Rightarrow> bool"
  for H :: "string \<Rightarrow> string" and cm :: casemap and cfg :: config where
  serves: "i < length (g_tasks g) \<Longrightarrow> \<not> held_up (tunnels_of g) (g_tasks g ! i) \<Longrightarrow>
     task_step H cm cfg (g_shared g) (g_tasks g ! i) sh t \<Longrightarrow> gate_must H cm cfg g (advance i sh t g)"
| shuts: "shutdown_step False (tunnels_of g) u \<Longrightarrow> gate_must H cm cfg g (with_tunnels u g)"

inductive gate_may :: "(string \<Rightarrow> string) \<Rightarrow> casemap \<Rightarrow> config \<Rightarrow> bool \<Rightarrow> gate \<Rightarrow> gate \<Rightarrow> bool"
  for H :: "string \<Rightarrow> string" and cm :: casemap and cfg :: config and expiring :: bool where
  serves: "i < length (g_tasks g) \<Longrightarrow>
     task_step H cm cfg (g_shared g) (g_tasks g ! i) sh t \<Longrightarrow> gate_may H cm cfg expiring g (advance i sh t g)"
| begins: "sd_shut (tunnels_of g) = Idle \<Longrightarrow>
     gate_may H cm cfg expiring g (with_tunnels (shutdown_begin (tunnels_of g)) g)"
| shuts: "shutdown_step expiring (tunnels_of g) u \<Longrightarrow> gate_may H cm cfg expiring g (with_tunnels u g)"

text \<open>
  Quiescent: every request is over or held up by the world, and if the gate is closing, \<open>Shutdown\<close>
  has returned and every tunnel there ever was has been released.
\<close>

definition quiescent :: "gate \<Rightarrow> bool" where
  "quiescent g \<longleftrightarrow>
     (\<forall>t \<in> set (g_tasks g). tk_prog t = Return \<or> held_up (tunnels_of g) t)
     \<and> (isClosing (tunnels_of g) \<longrightarrow>
          (\<exists>r. sd_shut (tunnels_of g) = Returned r) \<and> (\<forall>i \<in> {1..sd_next (tunnels_of g)}. sd_pc (tunnels_of g) i = Released))"

lemma shutdown_is_step:
  assumes "shutdown_step expiring u v"
  shows "sd_step u v" "sd_pc v = sd_pc u" "sd_closing v = sd_closing u"
proof -
  show "sd_step u v" using assms by (induction rule: shutdown_step.induct) (auto intro: sd_step.intros)
  show "sd_pc v = sd_pc u" "sd_closing v = sd_closing u"
    using assms by (induction rule: shutdown_step.induct) (simp_all add: shutdown_close_def)
qed

lemma gate_must_step: "gate_must H cm cfg g g' \<Longrightarrow> gate_step H cm cfg err g g'"
  by (induction rule: gate_must.induct)
    (auto simp: with_tunnels_def intro: gate_step.intros shutdown_is_step)

lemma gate_may_step: "gate_may H cm cfg expiring g g' \<Longrightarrow> gate_step H cm cfg err g g'"
proof (induction rule: gate_may.induct)
  case (begins g)
  then show ?case
    unfolding with_tunnels_def by (intro gate_step.shuts sd_step.begin_shutdown) (simp_all add: shutdown_begin_def)
qed (auto simp: with_tunnels_def intro: gate_step.intros shutdown_is_step)

section \<open>A measure\<close>

inductive sub :: "prog \<Rightarrow> prog \<Rightarrow> bool" where
  "sub (k d) (Ask q k)"
| "sub (k b) (AskClosing k)"
| "sub (k b) (Register k)"
| "sub (k p) (RunPump k)"
| "sub p (Act e p)"
| "sub p (AppendRecord r p)"
| "sub p (Meter m p)"
| "sub p (DeleteTunnel p)"
| "sub p (TunnelDone p)"

inductive_cases subE:
  "sub p Return" "sub p (Ask q k)" "sub p (AskClosing k)" "sub p (Register k)" "sub p (RunPump k)"
  "sub p (Act e q)" "sub p (AppendRecord r q)" "sub p (Meter m q)" "sub p (DeleteTunnel q)" "sub p (TunnelDone q)"

lemma wf_sub: "wf {(p, q). sub p q}"
proof (rule wfUNIVI)
  fix P p
  assume "\<forall>p. (\<forall>q. (q, p) \<in> {(p, q). sub p q} \<longrightarrow> P q) \<longrightarrow> P p"
  then have step: "\<And>p. (\<And>q. sub q p \<Longrightarrow> P q) \<Longrightarrow> P p" by simp
  show "P p"
    by (induction p; rule step) (auto elim!: subE)
qed

lemma task_step_sub: "task_step H cm cfg sh t sh' t' \<Longrightarrow> sub (tk_prog t') (tk_prog t)"
  by (induction rule: task_step.induct) (auto intro: sub.intros)

definition left_over :: "gate \<Rightarrow> prog list \<times> nat \<times> nat" where
  "left_over g =
     (map tk_prog (g_tasks g), if sd_shut (tunnels_of g) = Idle then 1 else 0, shutdown_work (sd_shut (tunnels_of g)))"

definition less_left_over :: "((prog list \<times> nat \<times> nat) \<times> prog list \<times> nat \<times> nat) set" where
  "less_left_over = listrel1 {(p, q). sub p q} <*lex*> less_than <*lex*> less_than"

lemma wf_left_over: "wf less_left_over"
  using wf_sub by (auto simp: less_left_over_def)

lemma serves_left_over:
  assumes "i < length (g_tasks g)" "task_step H cm cfg (g_shared g) (g_tasks g ! i) sh t"
  shows "(left_over (advance i sh t g), left_over g) \<in> less_left_over"
proof -
  let ?ps = "map tk_prog (g_tasks g)"
  have "(?ps[i := tk_prog t], ?ps) \<in> listrel1 {(p, q). sub p q}"
  proof (rule listrel1I)
    show "(tk_prog t, ?ps ! i) \<in> {(p, q). sub p q}" using assms(1) task_step_sub [OF assms(2)] by simp
    show "?ps = take i ?ps @ ?ps ! i # drop (Suc i) ?ps" using assms(1) by (intro id_take_nth_drop) simp
    show "?ps[i := tk_prog t] = take i ?ps @ tk_prog t # drop (Suc i) ?ps"
      using assms(1) by (intro upd_conv_take_nth_drop) simp
  qed
  then have "(map tk_prog ((g_tasks g)[i := t]), ?ps) \<in> listrel1 {(p, q). sub p q}" by (simp add: map_update)
  then show ?thesis by (simp add: less_left_over_def left_over_def advance_def)
qed

lemma shutdown_left_over:
  assumes "shutdown_step expiring u v" "sd_inv u" "tunnels_of g = u"
  shows "(left_over (with_tunnels v g), left_over g) \<in> less_left_over"
  using assms(1)
proof cases
  case (closed live i)
  then have "0 < card live" using assms(2) by (auto simp: sd_inv_def card_gt_0_iff)
  with closed assms(3) show ?thesis
    by (simp add: less_left_over_def left_over_def with_tunnels_def shutdown_close_def)
qed (use assms(3) in \<open>simp_all add: less_left_over_def left_over_def with_tunnels_def\<close>)

lemma begin_left_over:
  "sd_shut (tunnels_of g) = Idle \<Longrightarrow>
     (left_over (with_tunnels (shutdown_begin (tunnels_of g)) g), left_over g) \<in> less_left_over"
  by (simp add: less_left_over_def left_over_def with_tunnels_def shutdown_begin_def)

section \<open>What every step keeps\<close>

lemma shutdown_outcome: "shutdown_step False u v \<Longrightarrow> outcome (sd_shut v) = outcome (sd_shut u)"
  by (induction rule: shutdown_step.induct) (simp_all add: shutdown_close_def outcome_def)

lemma task_step_closing:
  "task_step H cm cfg sh t sh' t' \<Longrightarrow> sd_closing (sh_tunnels sh') = sd_closing (sh_tunnels sh)"
proof (induction rule: task_step.induct)
  case (registered t k sh u r)
  then show ?case by (auto simp: registerTunnel_def Let_def split: if_splits)
next
  case (recorded t r p sh)
  then show ?case by (simp add: recorded_tunnel_def write_record_def split: option.split)
qed (simp_all add: unregister_delete_def unregister_done_def)

definition keeps :: "bool \<Rightarrow> gate \<Rightarrow> gate \<Rightarrow> bool" where
  "keeps expiring g0 g \<longleftrightarrow>
     tunnels_inv g \<and> (isClosing (tunnels_of g0) \<longrightarrow> isClosing (tunnels_of g))
     \<and> (\<not> expiring \<longrightarrow> outcome (sd_shut (tunnels_of g)) = outcome (sd_shut (tunnels_of g0)))"

lemma keeps_serves:
  assumes "keeps e g0 g" "i < length (g_tasks g)" "task_step H cm cfg (g_shared g) (g_tasks g ! i) sh t"
  shows "keeps e g0 (advance i sh t g)"
  using assms tunnels_inv_serves [OF _ assms(2,3)] task_step_shut [OF assms(3)] task_step_closing [OF assms(3)]
  by (simp add: keeps_def isClosing_def advance_def)

lemma tunnels_inv_with:
  assumes "tunnels_inv g" "sd_step (tunnels_of g) u" "sd_pc u = sd_pc (tunnels_of g)"
  shows "tunnels_inv (with_tunnels u g)"
  using assms unfolding tunnels_inv_def with_tunnels_def
  by (auto intro: sd_reachable.step task_typed_frame)

lemma keeps_shuts:
  assumes "keeps e g0 g" "shutdown_step b (tunnels_of g) u" "b \<longrightarrow> e"
  shows "keeps e g0 (with_tunnels u g)"
proof -
  note s = shutdown_is_step [OF assms(2)]
  have "tunnels_inv (with_tunnels u g)" using assms(1) s(1,2) by (intro tunnels_inv_with) (simp_all add: keeps_def)
  with assms s(3) shutdown_outcome [of "tunnels_of g" u] show ?thesis
    by (cases b) (simp_all add: keeps_def isClosing_def with_tunnels_def)
qed

lemma keeps_begins:
  assumes "keeps e g0 g" "sd_shut (tunnels_of g) = Idle"
  shows "keeps e g0 (with_tunnels (shutdown_begin (tunnels_of g)) g)"
proof -
  have "tunnels_inv (with_tunnels (shutdown_begin (tunnels_of g)) g)"
    using assms by (intro tunnels_inv_with sd_step.begin_shutdown) (simp_all add: keeps_def shutdown_begin_def)
  with assms show ?thesis by (simp add: keeps_def isClosing_def with_tunnels_def shutdown_begin_def outcome_def)
qed

lemma must_keeps:
  "gate_must H cm cfg g g' \<Longrightarrow> keeps e g0 g \<Longrightarrow> keeps e g0 g' \<and> (left_over g', left_over g) \<in> less_left_over"
proof (induction rule: gate_must.induct)
  case (serves i g sh t)
  then show ?case using keeps_serves serves_left_over by blast
next
  case (shuts g u)
  then have "sd_inv (tunnels_of g)" using sd_reachable_inv by (simp add: keeps_def tunnels_inv_def)
  with shuts show ?case using keeps_shuts [of e g0 g False u] shutdown_left_over by blast
qed

lemma may_keeps:
  "gate_may H cm cfg e g g' \<Longrightarrow> keeps e g0 g \<Longrightarrow> keeps e g0 g' \<and> (left_over g', left_over g) \<in> less_left_over"
proof (induction rule: gate_may.induct)
  case (serves i g sh t)
  then show ?case using keeps_serves serves_left_over by blast
next
  case (begins g)
  then show ?case using keeps_begins begin_left_over by blast
next
  case (shuts g u)
  then have "sd_inv (tunnels_of g)" using sd_reachable_inv by (simp add: keeps_def tunnels_inv_def)
  with shuts show ?case using keeps_shuts [of e g0 g e u] shutdown_left_over by blast
qed

section \<open>Until then there is a step to take\<close>

text \<open>Once \<open>Shutdown\<close> waits, no tunnel that is still held waits for the world.\<close>

lemma live_tunnel_moves:
  assumes inv: "tunnels_inv g" and w: "mapped (tunnels_of g) \<subseteq> sd_closed (tunnels_of g)"
    and n: "n \<in> holding (tunnels_of g)"
  shows "\<exists>t \<in> set (g_tasks g). tk_prog t \<noteq> Return \<and> \<not> held_up (tunnels_of g) t"
proof -
  have pc: "sd_pc (tunnels_of g) n \<in> {Running, Recorded, Deleted}" using n by (auto simp: live_at_def live_pc_def)
  then have "sd_pc (tunnels_of g) n \<noteq> NotStarted" by auto
  then obtain t where t: "t \<in> set (g_tasks g)" "tk_tunnel t = Some n"
    using inv unfolding tunnels_inv_def by blast
  then obtain ph where ph: "typed (tk_prog t) ph" "in_phase (tunnels_of g) t ph"
    using inv by (auto simp: tunnels_inv_def task_typed_def)
  then have h: "ph = Holding (sd_pc (tunnels_of g) n)" using t(2) by (cases ph) (auto simp: in_phase_simps)
  have closed: "n \<in> sd_closed (tunnels_of g)" if "sd_pc (tunnels_of g) n = Running"
    using that w by (auto simp: in_map_def)
  have "tk_prog t \<noteq> Return \<and> \<not> held_up (tunnels_of g) t"
  proof (cases "tk_prog t")
    case (Act e p)
    with ph(1) h pc show ?thesis by (cases e) auto
  qed (use ph(1) h pc t(2) closed in \<open>auto simp: held_up_def\<close>)
  with t(1) show ?thesis by blast
qed

lemma gate_progress:
  assumes inv: "tunnels_inv g" and "\<not> quiescent g"
  shows "\<exists>g'. gate_must H cm cfg g g'"
proof (cases "\<exists>t \<in> set (g_tasks g). tk_prog t \<noteq> Return \<and> \<not> held_up (tunnels_of g) t")
  case True
  then obtain i where i: "i < length (g_tasks g)" "tk_prog (g_tasks g ! i) \<noteq> Return" "\<not> held_up (tunnels_of g) (g_tasks g ! i)"
    by (metis in_set_conv_nth)
  from task_moves [OF inv i(1,2)] i(1,3) show ?thesis by (blast intro: gate_must.serves)
next
  case False
  let ?u = "tunnels_of g"
  have sd: "sd_inv ?u" using inv sd_reachable_inv by (simp add: tunnels_inv_def)
  from False assms(2) have c: "isClosing ?u"
    and r: "\<not> ((\<exists>r. sd_shut ?u = Returned r) \<and> (\<forall>i \<in> {1..sd_next ?u}. sd_pc ?u i = Released))"
    by (auto simp: quiescent_def)
  have none: "holding ?u = {}" if "mapped ?u \<subseteq> sd_closed ?u"
    using live_tunnel_moves [OF inv that] False by blast
  show ?thesis
  proof (cases "sd_shut ?u")
    case Idle
    then show ?thesis using c sd by (simp add: isClosing_def sd_inv_def)
  next
    case (Closing live)
    then show ?thesis
      by (cases "live = {}") (blast intro: gate_must.shuts shutdown_step.intros)+
  next
    case Waiting
    with none sd have "sd_wg ?u = 0" by (simp add: sd_inv_def)
    with Waiting show ?thesis by (blast intro: gate_must.shuts shutdown_step.all_done)
  next
    case (Returned q)
    with none sd have h: "holding ?u = {}" by (simp add: sd_inv_def)
    have "sd_pc ?u i = Released" if "i \<in> {1..sd_next ?u}" for i
    proof -
      have "sd_pc ?u i \<noteq> NotStarted" using that sd by (simp add: sd_inv_def)
      with h show ?thesis by (cases "sd_pc ?u i") (auto simp: live_at_def live_pc_def)
    qed
    with r Returned show ?thesis by blast
  qed
qed

lemma gate_settles:
  assumes "tunnels_inv g"
  shows "inevitable (gate_must H cm cfg) (gate_may H cm cfg expiring)
    (\<lambda>g'. quiescent g' \<and> (isClosing (tunnels_of g) \<longrightarrow> isClosing (tunnels_of g'))
       \<and> (\<not> expiring \<longrightarrow> outcome (sd_shut (tunnels_of g')) = outcome (sd_shut (tunnels_of g)))) g"
proof (rule inevitableI [where r = less_left_over and f = left_over and I = "keeps expiring g"])
  fix a b
  assume "keeps expiring g a" "gate_must H cm cfg a b \<or> gate_may H cm cfg expiring a b"
  then show "keeps expiring g b \<and> (left_over b, left_over a) \<in> less_left_over"
    using must_keeps may_keeps by blast
next
  fix a
  assume "keeps expiring g a" and "\<not> (quiescent a \<and> (isClosing (tunnels_of g) \<longrightarrow> isClosing (tunnels_of a))
       \<and> (\<not> expiring \<longrightarrow> outcome (sd_shut (tunnels_of a)) = outcome (sd_shut (tunnels_of g))))"
  then show "\<exists>b. gate_must H cm cfg a b" by (intro gate_progress) (auto simp: keeps_def)
next
  show "keeps expiring g g" using assms by (simp add: keeps_def)
qed (rule wf_left_over)

end
