(* ===== verification/SystemProps.thy ===== *)
theory SystemProps
  imports Settle
begin

text \<open>
  What holds of the concurrent gate, and a run of it: one tunnel, opened, pumped and recorded while
  the gate is stopped.
\<close>

section \<open>Properties\<close>

text \<open>C6. Concurrency adds nothing to what the log can say. Whatever the requests, and however their
  handlers, the admin plane and the shutdown interleave, at every moment each request that has been
  recorded did what its handler, run alone, does on the answers the request was given (the decision
  of a valid policy, what the shutdown's flag said, an outcome of its pump); and the log is the one
  that a gate leaves that serves those requests one after another, in the order of their appends.\<close>

theorem gate_serial:
  assumes "gate_reachable H cm cfg err (gate_init s l m) g" "valid_policy (st_current s)"
  shows "\<exists>xs. list_all2 (\<lambda>i x. explains cm cfg (g_tasks g ! i) x) (g_order g) xs
    \<and> distinct (g_order g)
    \<and> set (g_order g) = {i. i < length (g_tasks g) \<and> audits (tk_trace (g_tasks g ! i)) \<noteq> []}
    \<and> sh_log (g_shared g) = px_log (serve_all H cm cfg xs \<lparr>px_log = l, px_metrics = m, px_trace = []\<rparr>)"
proof -
  note inv = reachable_inv [OF assms]
  obtain xs where xs: "list_all2 (\<lambda>i x. explains cm cfg (g_tasks g ! i) x) (g_order g) xs"
    "list_all2 (\<lambda>x r. \<exists>es. audits es = [r] \<and> (\<forall>st. px_trace (serve_one H cm cfg x st) = px_trace st @ es))
        xs (g_records g)"
    using order_explained inv by blast
  have "sh_log (g_shared g) = append_run H (map2 call_of xs (g_records g)) l"
    using inv map2_calls [OF xs(1)] by (simp add: log_inv_def g_records_def)
  with serve_all_log [OF xs(2), of "\<lparr>px_log = l, px_metrics = m, px_trace = []\<rparr>"] xs(1) inv show ?thesis
    by (auto simp: log_inv_def)
qed

text \<open>C7. The log of a concurrent gate is always sound. At every moment of every run that began with a
  new log, if the records' texts are valid UTF-8 and a write goes out whole or not at all: the log
  verifies from genesis, whole, ends on the head the gate holds, and holds exactly the records whose
  write went out, in the order of the appends, each with the payload its handler gave it.\<close>

theorem gate_log_sound:
  assumes "gate_reachable sha256_hex cm cfg err (gate_init s (New []) m) g" "valid_policy (st_current s)"
    and "list_all task_clean (g_tasks g)"
  shows "Verify sha256_hex (l_w (sh_log (g_shared g))) None =
      Inr \<lparr>v_records = length (g_written g), v_last_seq = snd (Head (sh_log (g_shared g))),
           v_head = fst (Head (sh_log (g_shared g))), v_ok = True, v_break_at = 0, v_problem = None,
           v_truncated = False, v_unterminated = False\<rparr>
    \<and> map payload (log_records (l_w (sh_log (g_shared g)))) = map payload (g_written g)"
proof -
  note inv = reachable_inv [OF assms(1,2)]
  let ?es = "map (\<lambda>i. task_call (g_tasks g ! i)) (g_order g)"
  have "clean_call (task_call (g_tasks g ! i))" if "i \<in> set (g_order g)" for i
    using inv that assms(3) by (intro task_clean_call) (auto simp: log_inv_def list_all_iff)
  then have "list_all clean_call ?es" by (simp add: list_all_iff)
  moreover have "sh_log (g_shared g) = append_run sha256_hex ?es (New [])" using inv by (simp add: log_inv_def)
  ultimately show ?thesis
    using clean_run_log [of ?es "sh_log (g_shared g)"] by (simp add: g_written_calls start_result_def Head_def)
qed

text \<open>C12. When every request is over, each has left its record, the request counters are the counts
  of those records by decision, rule and kind, the gauge of live tunnels is back where it was, and
  no tunnel is registered.\<close>

theorem gate_at_rest:
  assumes "gate_reachable H cm cfg err (gate_init s l m) g" "valid_policy (st_current s)"
    and "\<forall>t \<in> set (g_tasks g). tk_prog t = Return"
  shows "set (g_order g) = {..<length (g_tasks g)}
    \<and> (\<forall>lb. m_requests (sh_metrics (g_shared g)) lb
          = m_requests m lb + length (filter (\<lambda>r. (a_decision r, a_rule r, a_kind r) = lb) (g_records g)))
    \<and> m_tunnels (sh_metrics (g_shared g)) = m_tunnels m
    \<and> activeTunnels (sh_tunnels (g_shared g)) = 0"
proof -
  note inv = reachable_inv [OF assms(1,2)]
  then have "sd_inv (sh_tunnels (g_shared g))" using sd_reachable_inv by (simp add: tunnels_inv_def)
  then have t: "sd_tunnels (sh_tunnels (g_shared g)) = in_map (sd_pc (sh_tunnels (g_shared g)))" by (simp add: sd_inv_def)
  have "in_map (sd_pc (sh_tunnels (g_shared g))) = {}"
  proof (rule equals0I)
    fix n
    assume "n \<in> in_map (sd_pc (sh_tunnels (g_shared g)))"
    with released_at_rest [of g n] inv assms(3) show False by (simp add: in_map_def) (metis tunnel_pc.distinct)
  qed
  with t have "activeTunnels (sh_tunnels (g_shared g)) = 0" by (simp add: activeTunnels_def)
  then show ?thesis
    using inv order_at_rest [of H l g] requests_at_rest [of m g H l cm cfg] assms(3)
    unfolding label_of_def by blast
qed

text \<open>C8. A shutdown that returns nil is final as to tunnels, in the whole gate: every tunnel that was
  ever started, at that moment or in any later one, belongs to a request whose record was already
  in the log when it returned, and has been released; no other will start.\<close>

theorem gate_shutdown_final:
  assumes "gate_reachable H cm cfg err (gate_init s l m) g" "valid_policy (st_current s)"
    and "sd_shut (sh_tunnels (g_shared g)) = Returned None" "gate_reachable H cm cfg err g g'"
    and "i < length (g_tasks g')" "tk_tunnel (g_tasks g' ! i) = Some n"
  shows "i \<in> set (g_order g) \<and> tk_tunnel (g_tasks g ! i) = Some n
    \<and> sd_pc (sh_tunnels (g_shared g)) n = Released"
  using shutdown_final [OF assms] .

text \<open>C14. Nothing but the world holds the gate up. From every moment of every run, with no further
  request, the gate comes to a state in which each request is over or waits for an upstream's
  answer, a dial, or a client to take its bytes, or pumps a tunnel nobody has closed; and if it is
  closing by then, none is a tunnel: \<open>Shutdown\<close> has returned, with nil if its deadline did not pass,
  and every tunnel there ever was has written its record and been released, although no peer of a
  tunnel has to do anything. It comes there in whatever order things happen: until then there is
  always a step that the gate takes by itself, and no run goes on for ever.\<close>

theorem gate_drains:
  assumes "gate_reachable H cm cfg err (gate_init s l m) g"
  shows "inevitable (gate_must H cm cfg) (gate_may H cm cfg expiring)
    (\<lambda>g'. quiescent g' \<and> (isClosing (tunnels_of g) \<longrightarrow> isClosing (tunnels_of g'))
       \<and> (\<not> expiring \<longrightarrow> outcome (sd_shut (tunnels_of g')) = outcome (sd_shut (tunnels_of g)))) g"
  using gate_settles [OF tunnels_inv_reachable [OF assms]] .

section \<open>A run of one tunnel\<close>

text \<open>A gate with one request in flight and no shutdown begun.\<close>

definition tunnel_exchange :: exchange where
  "tunnel_exchange = (sample_gate, sample_upstream, sample_world, sample_connect_request)"

abbreviation sample_init :: gate where
  "sample_init \<equiv> gate_init (NewStore sample_policy) (New []) metrics_New"

abbreviation sample_reachable :: "gate \<Rightarrow> gate \<Rightarrow> bool" where
  "sample_reachable \<equiv> gate_reachable sha256_hex plain_casemap DefaultConfig (\<lambda>_. [])"

lemma sample_store_valid: "valid_policy (st_current (NewStore sample_policy))"
  by (simp add: NewStore_def sample_valid)

lemmas sample_inv = reachable_inv [OF _ sample_store_valid]

definition lone :: "exchange \<Rightarrow> prog \<Rightarrow> gate \<Rightarrow> bool" where
  "lone x p g \<longleftrightarrow>
     sample_reachable sample_init g \<and> length (g_tasks g) = 1 \<and> tk_prog (g_tasks g ! 0) = p
     \<and> tk_in (g_tasks g ! 0) = x \<and> sh_store (g_shared g) = NewStore sample_policy
     \<and> sd_shut (sh_tunnels (g_shared g)) = Idle"

lemma lone_new: "\<exists>g. lone x (serve_prog plain_casemap DefaultConfig x) g \<and> tk_trace (g_tasks g ! 0) = []"
proof -
  let ?g = "sample_init\<lparr>g_tasks := g_tasks sample_init @ [new_task plain_casemap DefaultConfig x]\<rparr>"
  have "sample_reachable sample_init ?g"
    by (rule gate_reachable.step [OF gate_reachable.start gate_step.arrives])
  then have "lone x (serve_prog plain_casemap DefaultConfig x) ?g"
    by (simp add: lone_def gate_init_def new_task_def sd_init_def)
  then show ?thesis by (intro exI [of _ ?g]) (simp add: gate_init_def new_task_def)
qed

lemma lone_step:
  assumes "lone x p g" "task_step sha256_hex plain_casemap DefaultConfig (g_shared g) (g_tasks g ! 0) sh t"
  shows "\<exists>g'. lone x (tk_prog t) g' \<and> g_tasks g' ! 0 = t"
proof -
  have r: "sample_reachable sample_init (advance 0 sh t g)"
    using assms by (intro gate_reachable.step [OF _ gate_step.serves]) (simp_all add: lone_def)
  have "task_ok plain_casemap DefaultConfig (g_tasks g ! 0)"
    using assms(1) sample_inv [where g = g] by (fastforce simp: lone_def policy_inv_def)
  from task_ok_step [OF assms(2) this] task_step_shut [OF assms(2)] assms(1) sample_store_valid r
  show ?thesis by (intro exI [of _ "advance 0 sh t g"]) (simp add: lone_def advance_def)
qed

lemma lone_ask: "lone x (Ask q k) g \<Longrightarrow> \<exists>g'. lone x (k (store_Evaluate plain_casemap (NewStore sample_policy) q)) g'"
  using lone_step [OF _ task_step.judged, of x "Ask q k" g q k] by (auto simp: lone_def)

lemma lone_act: "lone x (Act e p) g \<Longrightarrow> \<exists>g'. lone x p g'"
  using lone_step [OF _ task_step.acted, of x "Act e p" g e p] by (auto simp: lone_def)

lemma lone_open:
  assumes "lone x p g"
  shows "sd_inv (sh_tunnels (g_shared g))" "\<not> sd_closing (sh_tunnels (g_shared g))"
proof -
  show inv: "sd_inv (sh_tunnels (g_shared g))"
    using sample_inv [where g = g] assms sd_reachable_inv by (auto simp: lone_def tunnels_inv_def)
  show "\<not> sd_closing (sh_tunnels (g_shared g))" using inv assms by (simp add: lone_def sd_inv_def)
qed

lemma lone_closing: "lone x (AskClosing k) g \<Longrightarrow> \<exists>g'. lone x (k False) g'"
  using lone_step [OF _ task_step.checked, of x "AskClosing k" g k] lone_open(2) [of x "AskClosing k" g]
  by (auto simp: lone_def isClosing_def)

lemma lone_register:
  assumes "lone x (Register k) g"
  shows "\<exists>g' n. lone x (k True) g' \<and> tk_tunnel (g_tasks g' ! 0) = Some n"
proof -
  obtain u n where u: "registerTunnel (sh_tunnels (g_shared g)) = (u, Some n)"
    using lone_open(2) [OF assms] by (simp add: registerTunnel_def Let_def)
  have "tk_prog (g_tasks g ! 0) = Register k" using assms by (simp add: lone_def)
  from lone_step [OF assms task_step.registered [OF this u]] show ?thesis by fastforce
qed

lemma tunnel_program:
  "\<exists>q k k' e k''. serve_prog plain_casemap DefaultConfig tunnel_exchange = Ask q k
    \<and> k (store_Evaluate plain_casemap (NewStore sample_policy) q) = AskClosing k'
    \<and> k' False = Act e (Act Hijacked (Act (Wrote established) (Register k''))) \<and> audits [e] = []"
proof -
  let ?q = "connect_question ''files.pythonhosted.org'' 443"
  have a: "d_action (store_Evaluate plain_casemap (NewStore sample_policy) ?q) = Allow"
    using sample_http_parts(6) by (simp add: sample_gate_def)
  have m: "hr_method sample_connect_request = ''CONNECT''" by (simp add: sample_connect_request_def)
  have w: "ce_dial sample_world h = None" "ce_hijacker sample_world" "ce_hijack sample_world = None"
    "ce_established sample_world = None" for h
    by (simp_all add: sample_world_def)
  show ?thesis
    using sample_http_parts(5) a
    by (simp add: tunnel_exchange_def serve_prog_def connect_prog_def m authority_of_def open_prog_def Let_def w)
qed

text \<open>The tunnel opened.\<close>

lemma tunnel_opened: "\<exists>g n p. lone tunnel_exchange p g \<and> tk_tunnel (g_tasks g ! 0) = Some n"
proof -
  obtain q k k' e k'' where p: "serve_prog plain_casemap DefaultConfig tunnel_exchange = Ask q k"
    "k (store_Evaluate plain_casemap (NewStore sample_policy) q) = AskClosing k'"
    "k' False = Act e (Act Hijacked (Act (Wrote established) (Register k'')))"
    using tunnel_program by blast
  obtain g0 where "lone tunnel_exchange (Ask q k) g0" using lone_new [of tunnel_exchange] p(1) by auto
  then obtain g1 where "lone tunnel_exchange (AskClosing k') g1" using lone_ask p(2) by metis
  then obtain g2 where "lone tunnel_exchange (Register k'') g2" using lone_closing lone_act p(3) by metis
  then show ?thesis using lone_register by blast
qed

text \<open>The gate stopped, everything over.\<close>

lemma tunnel_run:
  "\<exists>g n. sample_reachable sample_init g \<and> sd_shut (sh_tunnels (g_shared g)) = Returned None
    \<and> length (g_tasks g) = 1 \<and> (\<forall>t \<in> set (g_tasks g). tk_prog t = Return) \<and> tk_tunnel (g_tasks g ! 0) = Some n"
proof -
  obtain g n p where g: "lone tunnel_exchange p g" "tk_tunnel (g_tasks g ! 0) = Some n"
    using tunnel_opened by blast
  then have r: "sample_reachable sample_init g" "length (g_tasks g) = 1" "sd_shut (sh_tunnels (g_shared g)) = Idle"
    by (simp_all add: lone_def)
  have inv: "tunnels_inv g" using sample_inv [OF r(1)] by blast
  obtain g' where g': "sample_reachable g g'" "length (g_tasks g') = length (g_tasks g)"
    "\<forall>t \<in> set (g_tasks g'). tk_prog t = Return" "sd_shut (sh_tunnels (g_shared g')) = Returned None"
    using gate_can_end [OF inv, of sha256_hex plain_casemap DefaultConfig "\<lambda>_. []"] r(3) by (auto simp: outcome_def)
  have "tk_tunnel (g_tasks g' ! 0) = Some n" using gate_run_keeps [OF g'(1) inv] g(2) r(2) by simp
  with g' reachable_trans [OF r(1) g'(1)] r(2) show ?thesis by (intro exI [of _ g'] exI [of _ n]) simp
qed

theorem gate_serial_witness:
  "\<exists>g x. sample_reachable sample_init g \<and> g_order g = [0] \<and> explains plain_casemap DefaultConfig (g_tasks g ! 0) x
    \<and> sh_log (g_shared g) = px_log (serve_all sha256_hex plain_casemap DefaultConfig [x] sample_proxy)"
proof -
  obtain g where g: "sample_reachable sample_init g" "length (g_tasks g) = 1" "\<forall>t \<in> set (g_tasks g). tk_prog t = Return"
    using tunnel_run by blast
  have "set (g_order g) = {0}"
    using order_at_rest [of sha256_hex "New []" g plain_casemap DefaultConfig] sample_inv [OF g(1)] g(2,3)
    by (simp add: lessThan_Suc)
  moreover obtain xs where xs: "list_all2 (\<lambda>i x. explains plain_casemap DefaultConfig (g_tasks g ! i) x) (g_order g) xs"
    "distinct (g_order g)" "sh_log (g_shared g) = px_log (serve_all sha256_hex plain_casemap DefaultConfig xs sample_proxy)"
    using gate_serial [OF g(1) sample_store_valid] unfolding sample_proxy_def by blast
  ultimately have o: "g_order g = [0]" using distinct_card [of "g_order g"]
    by (cases "g_order g") (auto simp: subset_singleton_iff)
  with xs(1) obtain x where "xs = [x]" "explains plain_casemap DefaultConfig (g_tasks g ! 0) x"
    by (auto simp: list_all2_Cons1)
  with g(1) o xs(3) show ?thesis by blast
qed

text \<open>A request that is not for a proxy: its record is its first action.\<close>

definition origin_exchange :: exchange where
  "origin_exchange =
     (sample_gate, sample_upstream, sample_world,
      sample_request\<lparr>hr_url := \<lparr>u_scheme = [], u_host = [], u_path = ''/'', u_rawpath = []\<rparr>\<rparr>)"

lemma origin_program:
  "\<exists>rec p. serve_prog plain_casemap DefaultConfig origin_exchange = AppendRecord rec p \<and> utf8_record rec"
proof -
  have c: "clientIP (hr_remote sample_request) = ''10.0.0.7''" by code_simp
  have v: "utf8_valid not_absolute_reason" by (simp add: not_absolute_reason_def)
  show ?thesis
    by (simp add: origin_exchange_def serve_prog_def http_prog_def IsAbs_def refuse_prog_def finish_prog_def
        utf8_record_def utf8_zero Let_def c v) (simp add: sample_request_def)
qed

theorem gate_log_sound_witness:
  "\<exists>g. sample_reachable sample_init g \<and> length (g_written g) = 1
    \<and> Verify sha256_hex (l_w (sh_log (g_shared g))) None =
      Inr \<lparr>v_records = 1, v_last_seq = snd (Head (sh_log (g_shared g))), v_head = fst (Head (sh_log (g_shared g))),
           v_ok = True, v_break_at = 0, v_problem = None, v_truncated = False, v_unterminated = False\<rparr>"
proof -
  obtain rec p where p: "serve_prog plain_casemap DefaultConfig origin_exchange = AppendRecord rec p" "utf8_record rec"
    using origin_program by blast
  obtain g0 where g0: "lone origin_exchange (AppendRecord rec p) g0" "tk_trace (g_tasks g0 ! 0) = []"
    using lone_new [of origin_exchange] p(1) by auto
  then have "tk_prog (g_tasks g0 ! 0) = AppendRecord rec p" by (simp add: lone_def)
  from lone_step [OF g0(1) task_step.recorded [OF this]] obtain g where
    g: "lone origin_exchange p g" "g_tasks g ! 0 = goes p [Audited rec] (g_tasks g0 ! 0)" by auto
  then have r: "sample_reachable sample_init g" "length (g_tasks g) = 1" "tk_in (g_tasks g ! 0) = origin_exchange"
    by (simp_all add: lone_def)
  have a: "audits (tk_trace (g_tasks g ! 0)) = [rec]" using g(2) g0(2) by simp
  have w: "ge_write (fst origin_exchange) = WriteOK" "utf8_valid (ge_now (fst origin_exchange))"
    by (simp_all add: origin_exchange_def sample_gate_def)
  have "task_clean (g_tasks g ! 0)" using a w r(3) p(2) by (simp add: task_clean_def whole_write_def)
  then have "list_all task_clean (g_tasks g)" using r(2) by (cases "g_tasks g") simp_all
  note sound = gate_log_sound [OF r(1) sample_store_valid this]
  have o: "distinct (g_order g)"
    "set (g_order g) = {i. i < length (g_tasks g) \<and> audits (tk_trace (g_tasks g ! i)) \<noteq> []}"
    using sample_inv [OF r(1)] unfolding log_inv_def by blast+
  have "{i. i < length (g_tasks g) \<and> audits (tk_trace (g_tasks g ! i)) \<noteq> []} = {0}"
    using a r(2) by (metis (mono_tags, lifting) list.distinct(1) less_one Collect_cong singleton_conv)
  with o have "set (g_order g) = {0}" "distinct (g_order g)" by simp_all
  then have "g_order g = [0]" using distinct_card [of "g_order g"]
    by (cases "g_order g") (auto simp: subset_singleton_iff)
  then have "length (g_written g) = 1" using r(3) w by (simp add: g_written_def)
  with sound r(1) show ?thesis by (intro exI [of _ g]) simp
qed

theorem gate_at_rest_witness:
  "\<exists>g. sample_reachable sample_init g \<and> length (g_tasks g) = 1 \<and> set (g_order g) = {0}
    \<and> m_tunnels (sh_metrics (g_shared g)) = 0 \<and> activeTunnels (sh_tunnels (g_shared g)) = 0"
proof -
  obtain g where g: "sample_reachable sample_init g" "length (g_tasks g) = 1" "\<forall>t \<in> set (g_tasks g). tk_prog t = Return"
    using tunnel_run by blast
  from gate_at_rest [OF g(1) sample_store_valid g(3)] g(1,2) show ?thesis
    by (intro exI [of _ g]) (simp add: lessThan_Suc metrics_New_def)
qed

theorem gate_shutdown_final_witness:
  "\<exists>g n. sample_reachable sample_init g \<and> sd_shut (sh_tunnels (g_shared g)) = Returned None
    \<and> 0 \<in> set (g_order g) \<and> tk_tunnel (g_tasks g ! 0) = Some n \<and> sd_pc (sh_tunnels (g_shared g)) n = Released"
proof -
  obtain g n where g: "sample_reachable sample_init g" "sd_shut (sh_tunnels (g_shared g)) = Returned None"
    "length (g_tasks g) = 1" "tk_tunnel (g_tasks g ! 0) = Some n"
    using tunnel_run by blast
  then have "0 < length (g_tasks g)" by simp
  from gate_shutdown_final [OF g(1) sample_store_valid g(2) gate_reachable.start this g(4)] g(1,2) show ?thesis by blast
qed

theorem gate_drains_witness:
  "\<exists>g g' n. sample_reachable sample_init g \<and> tk_tunnel (g_tasks g ! 0) = Some n \<and> isClosing (tunnels_of g)
    \<and> (gate_must sha256_hex plain_casemap DefaultConfig)\<^sup>*\<^sup>* g g' \<and> quiescent g'
    \<and> sd_shut (tunnels_of g') = Returned None"
proof -
  obtain g0 n p where g0: "lone tunnel_exchange p g0" "tk_tunnel (g_tasks g0 ! 0) = Some n"
    using tunnel_opened by blast
  let ?g = "with_tunnels (shutdown_begin (tunnels_of g0)) g0"
  have idle: "sd_shut (tunnels_of g0) = Idle" and r0: "sample_reachable sample_init g0" using g0(1) by (simp_all add: lone_def)
  have r: "sample_reachable sample_init ?g"
    using gate_reachable.step [OF r0 gate_may_step [OF gate_may.begins [OF idle, where expiring = False]]] .
  have c: "isClosing (tunnels_of ?g)" "outcome (sd_shut (tunnels_of ?g)) = None"
    by (simp_all add: with_tunnels_def isClosing_def shutdown_begin_def outcome_def)
  from inevitable_reaches [OF gate_drains [OF r, where expiring = False]] c obtain g' where
    g': "(gate_must sha256_hex plain_casemap DefaultConfig)\<^sup>*\<^sup>* ?g g'" "quiescent g'" "isClosing (tunnels_of g')"
      "outcome (sd_shut (tunnels_of g')) = None" by auto
  then have "sd_shut (tunnels_of g') = Returned None" by (auto simp: quiescent_def outcome_def)
  moreover have "tk_tunnel (g_tasks ?g ! 0) = Some n" using g0(2) by (simp add: with_tunnels_def)
  ultimately show ?thesis using r c(1) g'(1,2) by blast
qed

end
