(* ===== verification/Startup.thy ===== *)
theory Startup
  imports AuditHistory GoNet
begin

text \<open>
  What \<open>cmd/egressgate/run.go\<close> does to an audit log already on disk: \<open>existingChainHead\<close>,
  \<open>truncatePartialLine\<close> and \<open>appendMissingNewline\<close>. The file is its bytes; the system calls that
  can fail are the environment, and a call that fails leaves the file as it was.
\<close>

section \<open>Cutting a torn line\<close>

definition chunk_size :: nat where
  "chunk_size = 64 * 1024"

text \<open>
  The backwards search: \<open>readat start\<close> is the error of reading the chunk that starts there. The
  answer is how many bytes to keep.
\<close>

function search_back :: "nat \<Rightarrow> (nat \<Rightarrow> string option) \<Rightarrow> string \<Rightarrow> nat \<Rightarrow> string + nat" where
  "search_back chunk readat s e =
     (if e = 0 \<or> chunk = 0 then Inr 0
      else let start = e - chunk
           in case readat start of
                Some err \<Rightarrow> Inl err
              | None \<Rightarrow>
                  (case LastIndexByte (take (e - start) (drop start s)) nl of
                     Some i \<Rightarrow> Inr (start + i + 1)
                   | None \<Rightarrow> search_back chunk readat s start))"
  by pat_completeness auto
termination by (relation "measure (\<lambda>(chunk, readat, s, e). e)") auto

declare search_back.simps [simp del]

record file_env =
  fe_open :: "string option"
  fe_read :: "string option"
  fe_reopen :: "string option"
  fe_seek :: "string option"
  fe_readat :: "nat \<Rightarrow> string option"
  fe_truncate :: "string option"
  fe_write :: "string option"
  fe_close :: "string option"

definition truncatePartialLine :: "file_env \<Rightarrow> string \<Rightarrow> string \<times> (string + nat)" where
  "truncatePartialLine fe s =
     (case fe_reopen fe of
        Some err \<Rightarrow> (s, Inl err)
      | None \<Rightarrow>
          (case fe_seek fe of
             Some err \<Rightarrow> (s, Inl err)
           | None \<Rightarrow>
               (case search_back chunk_size (fe_readat fe) s (length s) of
                  Inl err \<Rightarrow> (s, Inl err)
                | Inr keep \<Rightarrow>
                    (case fe_truncate fe of
                       Some err \<Rightarrow> (s, Inl err)
                     | None \<Rightarrow> (take keep s, Inr (length s - keep))))))"

text \<open>The newline is one byte: a write that fails leaves nothing, a close that fails comes after it.\<close>

definition appendMissingNewline :: "file_env \<Rightarrow> string \<Rightarrow> string \<times> string option" where
  "appendMissingNewline fe s =
     (case fe_reopen fe of
        Some err \<Rightarrow> (s, Some err)
      | None \<Rightarrow>
          (case fe_write fe of
             Some err \<Rightarrow> (s, Some err)
           | None \<Rightarrow> (s @ [nl], fe_close fe)))"

section \<open>existingChainHead\<close>

datatype start_error =
    ReadingLog string
  | RefusedChain uint64 "problem option"
  | DiscardFailed string
  | TerminateFailed string

datatype start_note = Discarded nat uint64 nat | Terminated uint64 nat

text \<open>
  The file, \<open>None\<close> if it does not exist, to the file left behind, the notes on stderr, and the
  error or the head and number to resume from.
\<close>

definition recover_tail ::
  "file_env \<Rightarrow> verify_result \<Rightarrow> string \<Rightarrow> string \<times> start_note list \<times> (start_error + string \<times> uint64)" where
  "recover_tail fe res s =
     (let unterminated = (\<lambda>s notes.
            if v_unterminated res then
              (case appendMissingNewline fe s of
                 (s', Some err) \<Rightarrow> (s', notes, Inl (TerminateFailed err))
               | (s', None) \<Rightarrow>
                   (s', notes @ [Terminated (v_last_seq res) (v_records res)], Inr (v_head res, v_last_seq res)))
            else (s, notes, Inr (v_head res, v_last_seq res)))
      in if v_truncated res then
           (case truncatePartialLine fe s of
              (s', Inl err) \<Rightarrow> (s', [], Inl (DiscardFailed err))
            | (s', Inr dropped) \<Rightarrow>
                unterminated s' [Discarded dropped (v_last_seq res) (v_records res)])
         else unterminated s [])"

definition existingChainHead ::
  "(string \<Rightarrow> string) \<Rightarrow> file_env \<Rightarrow> string option
     \<Rightarrow> string option \<times> start_note list \<times> (start_error + string \<times> uint64)" where
  "existingChainHead H fe file =
     (case file of
        None \<Rightarrow> (None, [], Inr (GenesisHash, 0))
      | Some s \<Rightarrow>
          (case fe_open fe of
             Some err \<Rightarrow> (Some s, [], Inl (ReadingLog err))
           | None \<Rightarrow>
               (case Verify H s (fe_read fe) of
                  Inl err \<Rightarrow> (Some s, [], Inl (ReadingLog err))
                | Inr res \<Rightarrow>
                    (if \<not> v_ok res then (Some s, [], Inl (RefusedChain (v_break_at res) (v_problem res)))
                     else case recover_tail fe res s of
                            (s', notes, r) \<Rightarrow> (Some s', notes, r)))))"

section \<open>The search finds the last newline\<close>

text \<open>The specification: everything up to and including the last newline.\<close>

definition whole_lines :: "string \<Rightarrow> string" where
  "whole_lines s = concat (map (\<lambda>w. w @ [nl]) (butlast (Split s nl)))"

lemma whole_lines_last: "nl \<notin> set w \<Longrightarrow> whole_lines w = []"
  by (simp add: whole_lines_def Split_no_sep)

lemma whole_lines_snoc: "nl \<notin> set w \<Longrightarrow> whole_lines (s @ nl # w) = s @ [nl]"
proof (induction s rule: lines_induct)
  case (last v)
  then show ?case by (simp add: whole_lines_def Split_append_sep Split_no_sep)
next
  case (line v s)
  then show ?case by (simp add: whole_lines_def Split_append_sep butlast_append)
qed

lemma whole_lines_append: "whole_lines (t @ nl # u) = t @ nl # whole_lines u"
proof (induction t rule: lines_induct)
  case (last v)
  then show ?case by (simp add: whole_lines_def Split_append_sep)
next
  case (line v t)
  then show ?case by (simp add: whole_lines_def Split_append_sep)
qed

lemma whole_lines_split: "s = whole_lines s @ last (Split s nl) \<and> nl \<notin> set (last (Split s nl))"
proof (induction s rule: lines_induct)
  case (last w)
  then show ?case by (simp add: whole_lines_def Split_no_sep)
next
  case (line w s)
  then show ?case by (simp add: whole_lines_def Split_append_sep)
qed

lemma search_back_spec:
  assumes "0 < chunk" "e \<le> length s" "nl \<notin> set (drop e s)"
  shows "case search_back chunk readat s e of
      Inl err \<Rightarrow> \<exists>i. readat i = Some err | Inr keep \<Rightarrow> keep = length (whole_lines s)"
  using assms(2,3)
proof (induction e rule: less_induct)
  case (less e)
  show ?case
  proof (cases "e = 0")
    case True
    with less.prems show ?thesis by (simp add: search_back.simps whole_lines_last)
  next
    case False
    define start where "start = e - chunk"
    define buf where "buf = take (e - start) (drop start s)"
    note step = search_back.simps [of chunk readat s e, folded start_def, unfolded Let_def, folded start_def buf_def]
    have start: "start < e" using False assms(1) by (simp add: start_def)
    have "drop e s = drop (e - start) (drop start s)" using start by simp
    then have rest: "drop start s = buf @ drop e s"
      unfolding buf_def using append_take_drop_id [of "e - start" "drop start s"] by simp
    consider err where "readat start = Some err"
      | "readat start = None" "LastIndexByte buf nl = None"
      | i where "readat start = None" "LastIndexByte buf nl = Some i" by fastforce
    then show ?thesis
    proof cases
      case (1 err)
      with step False assms(1) show ?thesis by auto
    next
      case 2
      then have "nl \<notin> set buf" by (simp add: LastIndexByte_None_iff)
      with rest less.prems(2) have "nl \<notin> set (drop start s)" by simp
      moreover have "start \<le> length s" using start less.prems(1) by simp
      ultimately have "case search_back chunk readat s start of
          Inl err \<Rightarrow> \<exists>i. readat i = Some err | Inr keep \<Rightarrow> keep = length (whole_lines s)"
        using less.IH [OF start] by blast
      then show ?thesis using step 2 False assms(1) by simp
    next
      case (3 i)
      note b = LastIndexByte_Some [OF 3(2)]
      then have "buf = take i buf @ nl # drop (Suc i) buf" by (metis id_take_nth_drop)
      then have "s = (take start s @ take i buf) @ nl # (drop (Suc i) buf @ drop e s)"
        using rest by (metis append.assoc append_Cons append_take_drop_id)
      then have w: "whole_lines s = (take start s @ take i buf) @ [nl]"
        using whole_lines_snoc [of "drop (Suc i) buf @ drop e s" "take start s @ take i buf"] b less.prems(2)
        by simp
      have "start \<le> length s" using start less.prems(1) by simp
      with w b have "length (whole_lines s) = start + i + 1" by simp
      with step 3 False assms(1) show ?thesis by simp
    qed
  qed
qed

section \<open>White space before a record\<close>

lemma space_runes_length:
  "list_all (\<lambda>e. length e = (if byte (hd e) < 128 then 1 else if byte (hd e) < 224 then 2 else 3)) space_runes"
  by (simp add: space_runes_def)

lemma space_runes_prefix_free:
  assumes "e \<in> set space_runes" "f \<in> set space_runes" "prefix e f"
  shows "e = f"
proof -
  obtain g where g: "f = e @ g" using assms(3) by (auto simp: prefix_def)
  moreover have "e \<noteq> []" using space_runes_nonempty [OF assms(1)] by auto
  ultimately have "hd f = hd e" by simp
  then have "length f = length e" using assms(1,2) space_runes_length by (simp add: list_all_iff)
  with g show ?thesis by simp
qed

lemma space_head_append: "space_head w = Some e \<Longrightarrow> space_head (w @ t) = Some e"
proof -
  assume h: "space_head w = Some e"
  then have e: "prefix e w" "e \<in> set space_runes"
    by (auto simp: space_head_def find_Some_iff HasPrefix_prefix)
  then have pe: "prefix e (w @ t)" by simp
  then have "space_head (w @ t) \<noteq> None"
    using e(2) by (auto simp: space_head_def find_None_iff HasPrefix_prefix)
  then obtain f where f: "space_head (w @ t) = Some f" by blast
  then have "prefix f (w @ t)" "f \<in> set space_runes"
    by (auto simp: space_head_def find_Some_iff HasPrefix_prefix)
  with pe have "prefix e f \<or> prefix f e" using prefix_same_cases by blast
  with e(2) \<open>f \<in> set space_runes\<close> have "e = f" using space_runes_prefix_free by blast
  with f show ?thesis by simp
qed

lemma TrimLeftSpace_append: "TrimLeftSpace w = [] \<Longrightarrow> TrimLeftSpace (w @ t) = TrimLeftSpace t"
proof (induction w rule: TrimLeftSpace.induct)
  case (1 w)
  show ?case
  proof (cases "space_head w")
    case None
    with 1 show ?thesis by (simp add: TrimLeftSpace.simps [of w])
  next
    case (Some e)
    then have "length e \<le> length w" using space_head_Some by blast
    moreover have "TrimLeftSpace (drop (length e) w) = []"
      using 1(2) Some by (simp add: TrimLeftSpace.simps [of w])
    ultimately show ?thesis
      using 1(1) [OF Some] space_head_append [OF Some, of t]
      by (simp add: TrimLeftSpace.simps [of "w @ t"])
  qed
qed

lemma TrimRightSpace_blank: "TrimRightSpace x = [] \<Longrightarrow> x \<noteq> [] \<Longrightarrow> space_head x \<noteq> None"
proof (induction x rule: TrimRightSpace.induct)
  case (1 x)
  show ?case
  proof (cases "space_last x")
    case None
    with 1 show ?thesis by (simp add: TrimRightSpace.simps [of x])
  next
    case (Some e)
    let ?y = "take (length x - length e) x"
    have e: "e \<in> set space_runes" "HasSuffix x e" "length e \<le> length x"
      using Some space_last_Some [OF Some] by (auto simp: space_last_def find_Some_iff)
    show ?thesis
    proof (cases "?y = []")
      case True
      with e 1(3) have "x = e" by (auto simp: HasSuffix_iff)
      with e(1) show ?thesis by (auto simp: space_head_def find_None_iff HasPrefix_prefix)
    next
      case False
      have "TrimRightSpace ?y = []" using 1(2) Some by (simp add: TrimRightSpace.simps [of x])
      from 1(1) [OF Some this False] have "space_head ?y \<noteq> None" .
      then show ?thesis using space_head_prefix by (metis append_take_drop_id)
    qed
  qed
qed

lemma TrimSpace_blank: "TrimSpace w = [] \<Longrightarrow> TrimSpace (w @ t) = TrimSpace t"
proof -
  assume "TrimSpace w = []"
  then have "TrimLeftSpace w = []"
    using TrimRightSpace_blank [of "TrimLeftSpace w"] TrimLeftSpace_head [of w] by (auto simp: TrimSpace_def)
  then show ?thesis by (simp add: TrimSpace_def TrimLeftSpace_append)
qed

section \<open>Logs that can be continued\<close>

text \<open>A readable log whose last piece is blank: the next record starts a line of its own.\<close>

definition resumable :: "string \<Rightarrow> bool" where
  "resumable s \<longleftrightarrow> readable s \<and> tail_line s = []"

lemma Split_snoc_empty: "last (Split (s @ [nl]) nl) = [] \<and> butlast (Split (s @ [nl]) nl) = Split s nl"
  by (simp add: Split_append)

lemma resumable_line:
  assumes "resumable s"
  shows "resumable (s @ record_line r) \<and> log_records (s @ record_line r) = log_records s @ [sanitize_record r]"
  using assms
proof (induction s rule: lines_induct)
  case (last w)
  then have b: "TrimSpace w = []" by (simp add: resumable_def line_structure)
  have n: "nl \<notin> set (w @ marshal r)" using last(1) marshal_no_nl by simp
  have t: "TrimSpace (w @ marshal r) = marshal r"
    using TrimSpace_blank [OF b] TrimSpace_marshal by simp
  have d: "decode_record (marshal r) = Some (sanitize_record r, [])"
    using decode_marshal [of r "[]"] by simp
  have "marshal r \<noteq> []" using marshal_shape [of r] by auto
  with t d have "line_record (w @ marshal r) = [sanitize_record r]" "line_ok (w @ marshal r)"
    by (simp_all add: line_record_def line_ok_def skip_ws_def)
  moreover have "line_record w = []" using b by (simp add: line_record_def)
  ultimately show ?case
    using line_structure(1,2) [OF n, of "[]"] log_records_nl [OF n, of "[]"] log_records_last [OF last(1)]
    by (simp add: resumable_def record_line_def line_structure tail_ok_def line_ok_def TrimSpace_def)
next
  case (line w s)
  then have "line_ok w" "resumable s" by (simp_all add: resumable_def line_structure)
  with line.IH line(1) show ?case
    by (simp add: resumable_def line_structure log_records_nl)
qed

lemma resumable_lines:
  "resumable s \<Longrightarrow>
     resumable (s @ concat (map record_line rs))
     \<and> log_records (s @ concat (map record_line rs)) = log_records s @ map sanitize_record rs"
proof (induction rs arbitrary: s)
  case (Cons r rs)
  from Cons.IH [of "s @ record_line r"] resumable_line [OF Cons.prems, of r] show ?case by simp
qed simp

text \<open>What recovery does to an accepted log makes it one that can be continued, with its records.\<close>

lemma whole_lines_resumable:
  "readable s \<Longrightarrow> resumable (whole_lines s)
     \<and> (torn_tail s \<or> tail_line s = [] \<longrightarrow> log_records (whole_lines s) = log_records s)"
proof (induction s rule: lines_induct)
  case (last w)
  then show ?case
    by (auto simp: whole_lines_last resumable_def line_structure(3,4) [of "[]"] line_structure(4) torn_tail_def
        tail_ok_def line_ok_def TrimSpace_def log_records_last line_record_def)
next
  case (line w s)
  then have "line_ok w" "readable s" by (simp_all add: line_structure)
  moreover have "whole_lines (w @ nl # s) = w @ nl # whole_lines s"
    using line(1) by (simp add: whole_lines_def Split_append_sep)
  ultimately show ?case
    using line by (simp add: resumable_def line_structure log_records_nl torn_tail_def)
qed

lemma snoc_nl_resumable:
  "readable s \<Longrightarrow> \<not> torn_tail s \<Longrightarrow>
     resumable (s @ [nl]) \<and> log_records (s @ [nl]) = log_records s"
proof (induction s rule: lines_induct)
  case (last w)
  then have "line_ok w"
    by (auto simp: line_structure tail_ok_def torn_tail_def line_ok_def)
  moreover have "TrimSpace [] = []" by (simp add: TrimSpace_def)
  ultimately show ?case
    using line_structure(1,2) [OF last(1), of "[]"] line_structure(3,4) [of "[]"] log_records_nl [OF last(1), of "[]"]
    by (simp add: resumable_def tail_ok_def line_ok_def log_records_last [OF last(1)])
next
  case (line w s)
  then have "line_ok w" "readable s" "\<not> torn_tail s" by (simp_all add: line_structure torn_tail_def)
  with line.IH line(1) show ?case by (simp add: resumable_def line_structure log_records_nl)
qed

section \<open>Recovery\<close>

text \<open>No system call fails.\<close>

definition calm :: "file_env \<Rightarrow> bool" where
  "calm fe \<longleftrightarrow>
     fe_open fe = None \<and> fe_read fe = None \<and> fe_reopen fe = None \<and> fe_seek fe = None
     \<and> fe_readat fe = (\<lambda>_. None) \<and> fe_truncate fe = None \<and> fe_write fe = None \<and> fe_close fe = None"

lemma take_whole_lines: "take (length (whole_lines s)) s = whole_lines s"
  using whole_lines_split [of s] by (metis append_eq_conv_conj)

lemma truncatePartialLine_cases:
  "truncatePartialLine fe s = (whole_lines s, Inr (length s - length (whole_lines s)))
   \<or> (\<exists>err. truncatePartialLine fe s = (s, Inl err)
        \<and> (fe_reopen fe = Some err \<or> fe_seek fe = Some err \<or> (\<exists>i. fe_readat fe i = Some err)
           \<or> fe_truncate fe = Some err))"
  using search_back_spec [of chunk_size "length s" s "fe_readat fe"]
  by (auto simp: truncatePartialLine_def chunk_size_def take_whole_lines split: option.splits sum.splits)

lemma truncatePartialLine_calm:
  assumes "calm fe"
  shows "truncatePartialLine fe s = (whole_lines s, Inr (length s - length (whole_lines s)))"
  using truncatePartialLine_cases [of fe s] assms by (auto simp: calm_def)

text \<open>The file recovery leaves, and its notes.\<close>

definition recovered :: "string \<Rightarrow> string" where
  "recovered s = (if torn_tail s then whole_lines s else if whole_tail s then s @ [nl] else s)"

definition recovery_notes :: "verify_result \<Rightarrow> string \<Rightarrow> start_note list" where
  "recovery_notes res s =
     (if torn_tail s then [Discarded (length s - length (whole_lines s)) (v_last_seq res) (v_records res)]
      else if whole_tail s then [Terminated (v_last_seq res) (v_records res)] else [])"

lemma recovered_resumable:
  assumes "readable s"
  shows "resumable (recovered s) \<and> log_records (recovered s) = log_records s"
  using assms whole_lines_resumable [OF assms] snoc_nl_resumable [OF assms]
  by (auto simp: recovered_def torn_tail_def whole_tail_def resumable_def)

lemma not_torn_and_whole: "\<not> (torn_tail s \<and> whole_tail s)"
  by (auto simp: torn_tail_def whole_tail_def)

lemma existingChainHead_calm:
  assumes "calm fe" "Verify H s None = Inr res" "v_ok res"
  shows "existingChainHead H fe (Some s) =
    (Some (recovered s), recovery_notes res s, Inr (v_head res, v_last_seq res))"
proof -
  have flags: "v_truncated res = torn_tail s" "v_unterminated res = whole_tail s"
    using VerifyFrom_accepted(6,7) assms(2,3) unfolding Verify_def by blast+
  have "recover_tail fe res s = (recovered s, recovery_notes res s, Inr (v_head res, v_last_seq res))"
    using assms(1) not_torn_and_whole [of s] truncatePartialLine_calm [OF assms(1), of s]
    by (auto simp: recover_tail_def flags recovered_def recovery_notes_def appendMissingNewline_def
        calm_def Let_def)
  with assms show ?thesis by (simp add: existingChainHead_def calm_def)
qed

text \<open>A reader that fails never ends in an accepted log, so an accepted start has read all of it.\<close>

lemma check_line_terminated: "check_line H res prev seq l False = Inl res' \<Longrightarrow> \<not> v_ok res'"
  by (auto simp: check_line_def broken_def split: option.splits prod.splits if_splits)

lemma verify_failing: "verify_loop H (Some e) res prev seq s = Inr res' \<Longrightarrow> \<not> v_ok res'"
proof (induction s arbitrary: res prev seq rule: lines_induct)
  case (last w)
  then show ?case by (simp add: verify_read_error)
next
  case (line w s)
  then show ?case
    by (auto simp: verify_line dest: check_line_terminated split: if_splits sum.splits)
qed

lemma existingChainHead_refuses:
  assumes "Verify H s None = Inr res" "\<not> v_ok res" "existingChainHead H fe (Some s) = (file, notes, r)"
  shows "file = Some s \<and> notes = [] \<and> (\<exists>e. r = Inl e)"
proof -
  have "\<not> v_ok res'" if "Verify H s (fe_read fe) = Inr res'" for res'
    using that assms(1,2) verify_failing by (cases "fe_read fe") (auto simp: Verify_def VerifyFrom_loop)
  with assms(3) show ?thesis
    by (auto simp: existingChainHead_def split: option.splits sum.splits if_splits prod.splits)
qed

lemma existingChainHead_ok:
  assumes "existingChainHead H fe (Some s) = (file, notes, Inr (head, seq))"
  obtains res where "Verify H s None = Inr res" "v_ok res" "file = Some (recovered s)"
    "notes = recovery_notes res s" "head = v_head res" "seq = v_last_seq res"
proof -
  obtain res where res: "Verify H s (fe_read fe) = Inr res" "v_ok res"
    and tail: "recover_tail fe res s = (the file, notes, Inr (head, seq))" "file \<noteq> None"
    using assms by (auto simp: existingChainHead_def split: option.splits sum.splits if_splits prod.splits)
  have "fe_read fe = None"
    using res verify_failing by (cases "fe_read fe") (auto simp: Verify_def VerifyFrom_loop)
  with res have v: "Verify H s None = Inr res" by simp
  then have flags: "v_truncated res = torn_tail s" "v_unterminated res = whole_tail s"
    using VerifyFrom_accepted(6,7) res(2) unfolding Verify_def by blast+
  have "the file = recovered s \<and> notes = recovery_notes res s \<and> head = v_head res \<and> seq = v_last_seq res"
    using tail(1) truncatePartialLine_cases [of fe s] not_torn_and_whole [of s]
    by (auto simp: recover_tail_def flags recovered_def recovery_notes_def appendMissingNewline_def Let_def
        split: option.splits sum.splits if_splits prod.splits)
  with v res(2) tail(2) show thesis by (intro that) auto
qed

text \<open>Whatever fails, the file keeps its whole lines; a log that is refused is left alone.\<close>

lemma existingChainHead_keeps:
  assumes "existingChainHead H fe (Some s) = (file, notes, r)"
  shows "file \<in> {Some s, Some (whole_lines s), Some (s @ [nl]), Some (whole_lines s @ [nl])}"
    and "(\<exists>at p. r = Inl (RefusedChain at p)) \<Longrightarrow> file = Some s \<and> notes = []"
  using assms truncatePartialLine_cases [of fe s]
  by (auto simp: existingChainHead_def recover_tail_def appendMissingNewline_def Let_def
      split: option.splits sum.splits if_splits prod.splits)

section \<open>Going on from a recovered log\<close>

lemma resumable_verdict:
  assumes "resumable s" "chained H (start_head head) seq (log_records s)"
  shows "VerifyFrom H s None head seq =
    Inr ((start_result (end_hash (start_head head) (log_records s)) (end_seq seq (log_records s)))
           \<lparr>v_records := length (log_records s)\<rparr>)"
  using assms VerifyFrom_cases [of s H head seq]
  by (simp add: resumable_def verdict_def torn_tail_def whole_tail_def counted_def start_result_def)

context digest
begin

lemma end_hash_nonempty: "chained H (start_head head) seq rs \<Longrightarrow> end_hash (start_head head) rs \<noteq> []"
proof (cases rs rule: rev_cases)
  case Nil
  then show ?thesis by (simp add: start_head_def GenesisHash_def)
next
  case (snoc ss r)
  assume "chained H (start_head head) seq rs"
  with snoc have "a_hash r = chainHash H (end_hash (start_head head) ss) r" by (simp add: chained_append)
  with snoc show ?thesis using digest_not_Nil by (auto simp: chainHash_def)
qed

lemma continued_verifies:
  assumes s: "resumable s" "chained H (start_head head) seq (log_records s)"
    and u: "utf8_valid head" "list_all clean_call es"
    and l: "l = append_run H es (Resume s (end_hash (start_head head) (log_records s)) (end_seq seq (log_records s)))"
  shows "VerifyFrom H (l_w l) None head seq =
      Inr ((start_result (l_prev l) (l_seq l))\<lparr>v_records := length (log_records s) + taken es\<rparr>)"
    and "\<exists>rs. l_w l = s @ concat (map record_line rs) \<and> length rs = taken es"
    and "map payload (log_records (l_w l)) = map payload (log_records s) @ sent_payloads es"
proof -
  let ?h = "end_hash (start_head head) (log_records s)" and ?q = "end_seq seq (log_records s)"
  have h: "start_head ?h = ?h" using end_hash_nonempty [OF s(2)] by (simp add: start_head_def)
  have "utf8_valid ?h" using end_hash_utf8 [OF utf8_start_head [OF u(1)] s(2)] .
  with log_of_run_payloads [OF log_of_start [of H ?h ?q s] _ u(2)] h
  obtain rs where rs: "log_of H ?h ?q s rs l" "map payload rs = sent_payloads es" unfolding l by auto
  then have n: "length rs = taken es" unfolding taken_def by (metis length_map)
  with rs(1) show "\<exists>rs. l_w l = s @ concat (map record_line rs) \<and> length rs = taken es"
    by (auto simp: log_of_def)
  have id: "map sanitize_record rs = rs"
    using rs(1) by (intro map_idI) (auto simp: log_of_def list_all_iff sanitize_utf8_record)
  have r: "resumable (l_w l)" "log_records (l_w l) = log_records s @ rs"
    using resumable_lines [OF s(1), of rs] rs(1) id by (simp_all add: log_of_def)
  with rs(2) show "map payload (log_records (l_w l)) = map payload (log_records s) @ sent_payloads es" by simp
  have "chained H (start_head head) seq (log_records (l_w l))"
    using r(2) s(2) rs(1) by (simp add: log_of_def chained_append)
  moreover have "end_hash (start_head head) (log_records s @ rs) = l_prev l"
    "end_seq seq (log_records s @ rs) = l_seq l"
    using rs(1) by (auto simp: log_of_def end_hash_def end_seq_def)
  ultimately show "VerifyFrom H (l_w l) None head seq =
      Inr ((start_result (l_prev l) (l_seq l))\<lparr>v_records := length (log_records s) + taken es\<rparr>)"
    using resumable_verdict [of "l_w l" H head seq] r n by simp
qed

text \<open>A log the gate wrote, cut at any byte, is accepted.\<close>

lemma cut_verifies:
  assumes "chained H prev seq rs" "list_all utf8_record rs"
  shows "\<exists>res'. verify_loop H None res prev seq (take n (concat (map record_line rs))) = Inr res'
    \<and> v_ok res' = v_ok res"
  using assms
proof (induction rs arbitrary: res prev seq n)
  case Nil
  then show ?case by (simp add: verify_end)
next
  case (Cons r rs)
  then have fits: "utf8_record r" "a_seq r = seq + 1" "a_prev r = prev" "a_hash r = chainHash H prev r"
    and rest: "chained H (a_hash r) (a_seq r) rs" "list_all utf8_record rs"
    by (auto simp only: chained.simps list.pred_inject)
  have len: "length (record_line r) = length (marshal r) + 1" by (simp add: record_line_def)
  consider "n = 0" | "0 < n" "n < length (marshal r)" | "n = length (marshal r)" "0 < n"
    | "length (record_line r) \<le> n" using len by linarith
  then show ?case
  proof cases
    case 1
    then show ?thesis by (simp add: verify_end)
  next
    case 2
    then have "take n (concat (map record_line (r # rs))) = take n (marshal r)"
      by (simp add: record_line_def)
    moreover have "take n (marshal r) \<noteq> []" "drop n (marshal r) \<noteq> []" using 2 by auto
    note torn = torn_line [OF append_take_drop_id this]
    ultimately show ?thesis using verify_torn [OF torn] by simp
  next
    case 3
    then have "take n (concat (map record_line (r # rs))) = marshal r" by (simp add: record_line_def)
    then show ?thesis using verify_unterminated [OF fits] by (simp add: count_record_def)
  next
    case 4
    then have "take n (concat (map record_line (r # rs))) =
        record_line r @ take (n - length (record_line r)) (concat (map record_line rs))" by simp
    then show ?thesis
      using verify_fits [OF fits] Cons.IH [OF rest, of "count_record res r" "n - length (record_line r)"]
      by (simp add: count_record_def)
  qed
qed

text \<open>So a gate that was killed at any byte of its log can go on, and the log verifies.\<close>

lemma cut_accepted:
  assumes "list_all clean_call es" "s = take n (l_w (append_run H es (Resume [] [] 0)))"
  shows "\<exists>res. Verify H s None = Inr res \<and> v_ok res"
proof -
  obtain rs where rs: "log_of H (start_head []) 0 [] rs (append_run H es (Resume [] [] 0))"
    using log_of_run [OF log_of_start utf8_start_head, of "[]" es 0 "[]"] assms(1) by force
  then show ?thesis
    using cut_verifies [of "start_head []" 0 rs "start_result (start_head []) 0" n]
    by (auto simp: log_of_def assms(2) Verify_def VerifyFrom_loop start_result_def start_head_def GenesisHash_def)
qed

lemma resumed_verifies:
  assumes "Verify H s None = Inr res" "v_ok res" "list_all clean_call es"
    and l: "l = append_run H es (Resume (recovered s) (v_head res) (v_last_seq res))"
  shows "Verify H (l_w l) None =
    Inr ((start_result (l_prev l) (l_seq l))\<lparr>v_records := v_records res + taken es\<rparr>)"
    and "map payload (log_records (l_w l)) = map payload (log_records s) @ sent_payloads es"
proof -
  have v: "VerifyFrom H s None [] 0 = Inr res" using assms(1) by (simp add: Verify_def VerifyFrom_def GenesisHash_def)
  note acc = VerifyFrom_accepted [OF v assms(2)]
  note rec = continued_verifies [OF _ _ _ assms(3) refl, of "recovered s" "[]" 0]
  show "Verify H (l_w l) None = Inr ((start_result (l_prev l) (l_seq l))\<lparr>v_records := v_records res + taken es\<rparr>)"
    using rec(1) acc recovered_resumable [OF acc(1)] by (simp add: l Verify_def VerifyFrom_def GenesisHash_def)
  show "map payload (log_records (l_w l)) = map payload (log_records s) @ sent_payloads es"
    using rec(3) acc recovered_resumable [OF acc(1)] by (simp add: l)
qed

end

section \<open>Properties\<close>

text \<open>The backwards search in chunks is an optimisation only: for every chunk size, on every file
  whose reads succeed, it keeps what a forward pass keeping whole lines would keep, and so the cut
  file is the longest prefix that is empty or ends in a newline.\<close>

lemma startup_search:
  assumes "0 < chunk" "\<forall>i. readat i = None"
  shows "search_back chunk readat s (length s) = Inr (length (whole_lines s))
    \<and> prefix (whole_lines s) s \<and> (whole_lines s = [] \<or> last (whole_lines s) = nl)
    \<and> (\<forall>t. prefix (t @ [nl]) s \<longrightarrow> prefix (t @ [nl]) (whole_lines s))"
proof -
  have "search_back chunk readat s (length s) = Inr (length (whole_lines s))"
    using search_back_spec [OF assms(1), of "length s" s readat] assms(2) by (auto split: sum.splits)
  moreover have "prefix (whole_lines s) s" using whole_lines_split [of s] by (metis prefixI)
  moreover have "whole_lines s = [] \<or> last (whole_lines s) = nl"
    by (cases "butlast (Split s nl)" rule: rev_cases) (simp_all add: whole_lines_def)
  moreover have "prefix (t @ [nl]) (whole_lines s)" if "prefix (t @ [nl]) s" for t
  proof -
    from that obtain u where "s = t @ nl # u" by (auto simp: prefix_def)
    then show ?thesis by (simp add: whole_lines_append)
  qed
  ultimately show ?thesis by blast
qed

text \<open>C19. A start on an existing log either goes on from a file that verifies whole, with every record
  that verified before and the head they end on, having only cut a torn last line or added a lost
  newline, or fails with the file's whole lines untouched; a log that does not verify is refused
  and left byte for byte as it was.\<close>

theorem startup_recovers:
  assumes "existingChainHead H fe (Some s) = (file, notes, r)"
  shows "(case r of
      Inr (head, seq) \<Rightarrow>
        \<exists>s'. file = Some s' \<and> s' \<in> {s, whole_lines s, s @ [nl]} \<and> log_records s' = log_records s
          \<and> Verify H s' None = Inr \<lparr>v_records = length (log_records s), v_last_seq = seq, v_head = head,
               v_ok = True, v_break_at = 0, v_problem = None, v_truncated = False, v_unterminated = False\<rparr>
    | Inl e \<Rightarrow> file \<in> {Some s, Some (whole_lines s), Some (s @ [nl]), Some (whole_lines s @ [nl])})
    \<and> ((\<exists>res. Verify H s None = Inr res \<and> \<not> v_ok res) \<longrightarrow> file = Some s \<and> (\<exists>e. r = Inl e))"
proof (cases r)
  case (Inl e)
  then show ?thesis
    using existingChainHead_keeps(1) [OF assms] existingChainHead_refuses [OF _ _ assms] by auto
next
  case (Inr hs)
  obtain head seq where hs: "hs = (head, seq)" by (cases hs)
  from existingChainHead_ok [OF assms [unfolded Inr hs]] obtain res where
    res: "Verify H s None = Inr res" "v_ok res" "file = Some (recovered s)" "head = v_head res"
      "seq = v_last_seq res" by metis
  have v: "VerifyFrom H s None [] 0 = Inr res" using res(1) by (simp add: Verify_def VerifyFrom_def GenesisHash_def)
  note acc = VerifyFrom_accepted [OF v res(2)]
  note rec = recovered_resumable [OF acc(1)]
  have "Verify H (recovered s) None = Inr \<lparr>v_records = length (log_records s), v_last_seq = seq, v_head = head,
      v_ok = True, v_break_at = 0, v_problem = None, v_truncated = False, v_unterminated = False\<rparr>"
    using resumable_verdict [of "recovered s" H "[]" 0] rec acc res
    by (simp add: Verify_def VerifyFrom_def GenesisHash_def start_result_def)
  moreover have "recovered s \<in> {s, whole_lines s, s @ [nl]}" by (simp add: recovered_def)
  ultimately show ?thesis using Inr hs rec res by simp
qed

definition calm_env :: file_env where
  "calm_env =
     \<lparr>fe_open = None, fe_read = None, fe_reopen = None, fe_seek = None, fe_readat = (\<lambda>_. None),
      fe_truncate = None, fe_write = None, fe_close = None\<rparr>"

lemma calm_env: "calm calm_env"
  by (simp add: calm_def calm_env_def)

text \<open>A log of one brace: a torn first record.\<close>

lemma brace_verifies:
  "Verify H ''{'' None = Inr ((start_result GenesisHash 0)\<lparr>v_truncated := True\<rparr>)"
  "torn_tail ''{''"
proof -
  have t: "TrimSpace ''{'' = ''{''" "decode_record ''{'' = None"
    using torn_line(3) [of "''{''" "drop 1 (marshal zero_record)" zero_record]
      marshal_shape [of zero_record]
    by (auto simp: TrimSpace_trimmed trimmedI)
  then show "Verify H ''{'' None = Inr ((start_result GenesisHash 0)\<lparr>v_truncated := True\<rparr>)"
    using verify_torn [of "''{''" H]
    by (simp add: Verify_def VerifyFrom_loop start_head_def GenesisHash_def)
  show "torn_tail ''{''" using t by (simp add: torn_tail_def tail_line_def Split_no_sep)
qed

theorem startup_recovers_witness:
  "existingChainHead sha256_hex calm_env (Some ''{'') = (Some [], [Discarded 1 0 0], Inr (GenesisHash, 0))
   \<and> (\<exists>res. Verify sha256_hex [] None = Inr res \<and> v_ok res)"
proof -
  have "existingChainHead sha256_hex calm_env (Some ''{'') = (Some [], [Discarded 1 0 0], Inr (GenesisHash, 0))"
    using existingChainHead_calm [OF calm_env brace_verifies(1)] brace_verifies(2)
    by (simp add: start_result_def recovered_def recovery_notes_def whole_lines_last)
  from startup_recovers [OF this] this show ?thesis by auto
qed

end
