(* ===== verification/GoFlag.thy ===== *)
theory GoFlag
  imports GoStrings
begin

text \<open>
  The parts of the package \<open>flag\<close> the command line uses: \<open>FlagSet.Parse\<close> for flags that take a
  value, and the value parsers of string, int and uint64 flags (\<open>strconv\<close>'s base-0 integers). Any
  error is a usage error to the callers, so an error is \<open>None\<close>.
\<close>

section \<open>Integers in base 0\<close>

definition digit_of :: "char \<Rightarrow> nat option" where
  "digit_of c =
     (let b = byte (lower_char c)
      in if is_digit c then Some (b - 48) else if 97 \<le> b \<and> b \<le> 122 then Some (b - 87) else None)"

definition underscore :: char where
  "underscore = CHR ''_''"

text \<open>The value of a run of digits, underscores skipped.\<close>

fun base_digits :: "nat \<Rightarrow> nat \<Rightarrow> string \<Rightarrow> nat option" where
  "base_digits base acc [] = Some acc"
| "base_digits base acc (c # s) =
     (if c = underscore then base_digits base acc s
      else case digit_of c of
             None \<Rightarrow> None
           | Some d \<Rightarrow> if d < base then base_digits base (acc * base + d) s else None)"

text \<open>The prefix of a literal: its base and the rest.\<close>

definition base_prefix :: "string \<Rightarrow> nat \<times> string" where
  "base_prefix s =
     (case s of
        z # x # r \<Rightarrow>
          if z \<noteq> CHR ''0'' then (10, s)
          else if r \<noteq> [] \<and> lower_char x = CHR ''b'' then (2, r)
          else if r \<noteq> [] \<and> lower_char x = CHR ''o'' then (8, r)
          else if r \<noteq> [] \<and> lower_char x = CHR ''x'' then (16, r)
          else (8, x # r)
      | [z] \<Rightarrow> if z = CHR ''0'' then (8, []) else (10, s)
      | [] \<Rightarrow> (10, []))"

text \<open>An underscore stands between digits, the base prefix counting as one.\<close>

datatype saw = SawBegin | SawDigit | SawUnderscore | SawOther

fun underscores_ok :: "bool \<Rightarrow> saw \<Rightarrow> string \<Rightarrow> bool" where
  "underscores_ok hex sw [] = (sw \<noteq> SawUnderscore)"
| "underscores_ok hex sw (c # s) =
     (if is_digit c \<or> hex \<and> (case digit_of c of None \<Rightarrow> False | Some d \<Rightarrow> 10 \<le> d \<and> d < 16)
      then underscores_ok hex SawDigit s
      else if c = underscore then sw = SawDigit \<and> underscores_ok hex SawUnderscore s
      else sw \<noteq> SawUnderscore \<and> underscores_ok hex SawOther s)"

definition underscoreOK :: "string \<Rightarrow> bool" where
  "underscoreOK s =
     (case s of
        z # x # r \<Rightarrow>
          if z = CHR ''0'' \<and> lower_char x \<in> {CHR ''b'', CHR ''o'', CHR ''x''}
          then underscores_ok (lower_char x = CHR ''x'') SawDigit r
          else underscores_ok False SawBegin s
      | _ \<Rightarrow> underscores_ok False SawBegin s)"

definition ParseUint0 :: "string \<Rightarrow> nat option" where
  "ParseUint0 s =
     (if s = [] then None
      else case base_prefix s of (base, r) \<Rightarrow>
        (case base_digits base 0 r of
           None \<Rightarrow> None
         | Some v \<Rightarrow>
             if v < 2 ^ 64 \<and> (underscore \<in> set r \<longrightarrow> underscoreOK s) then Some v else None))"

definition ParseInt0 :: "string \<Rightarrow> int option" where
  "ParseInt0 s =
     (let neg = (s \<noteq> [] \<and> hd s = CHR ''-'');
          t = (if neg \<or> s \<noteq> [] \<and> hd s = CHR ''+'' then tl s else s)
      in case ParseUint0 t of
           None \<Rightarrow> None
         | Some v \<Rightarrow>
             if neg then (if v \<le> 2 ^ 63 then Some (- int v) else None)
             else (if v < 2 ^ 63 then Some (int v) else None))"

section \<open>Parse\<close>

text \<open>A flag's name and what setting it does to the options.\<close>

type_synonym 'o flag = "string \<times> (string \<Rightarrow> 'o \<Rightarrow> 'o option)"

definition string_flag :: "string \<Rightarrow> (string \<Rightarrow> 'o \<Rightarrow> 'o) \<Rightarrow> 'o flag" where
  "string_flag name upd = (name, \<lambda>v ops. Some (upd v ops))"

definition int_flag :: "string \<Rightarrow> (int \<Rightarrow> 'o \<Rightarrow> 'o) \<Rightarrow> 'o flag" where
  "int_flag name upd = (name, \<lambda>v ops. map_option (\<lambda>n. upd n ops) (ParseInt0 v))"

definition uint64_flag :: "string \<Rightarrow> (nat \<Rightarrow> 'o \<Rightarrow> 'o) \<Rightarrow> 'o flag" where
  "uint64_flag name upd = (name, \<lambda>v ops. map_option (\<lambda>n. upd n ops) (ParseUint0 v))"

text \<open>A \<open>name=value\<close> argument; the name is at least one character long.\<close>

fun cut_value :: "string \<Rightarrow> string \<times> string option" where
  "cut_value [] = ([], None)"
| "cut_value (c # s) = (if c = CHR ''='' then ([], Some s) else (case cut_value s of (n, v) \<Rightarrow> (c # n, v)))"

definition flag_name :: "string \<Rightarrow> string \<times> string option" where
  "flag_name s = (case cut_value (tl s) of (n, v) \<Rightarrow> (hd s # n, v))"

definition dashes :: "string \<Rightarrow> nat" where
  "dashes s = (if length s < 2 \<or> hd s \<noteq> CHR ''-'' then 0 else if s ! 1 = CHR ''-'' then 2 else 1)"

fun flag_Parse :: "'o flag list \<Rightarrow> 'o \<Rightarrow> string list \<Rightarrow> ('o \<times> string list) option" where
  "flag_Parse fs ops [] = Some (ops, [])"
| "flag_Parse fs ops (s # args) =
     (if dashes s = 0 then Some (ops, s # args)
      else if s = ''--'' then Some (ops, args)
      else let body = drop (dashes s) s
           in if body = [] \<or> hd body = CHR ''-'' \<or> hd body = CHR ''='' then None
              else case flag_name body of (name, value) \<Rightarrow>
                (case map_of fs name of
                   None \<Rightarrow> None
                 | Some set_value \<Rightarrow>
                     (case value of
                        Some v \<Rightarrow>
                          (case set_value v ops of None \<Rightarrow> None | Some ops' \<Rightarrow> flag_Parse fs ops' args)
                      | None \<Rightarrow>
                          (case args of
                             [] \<Rightarrow> None
                           | v # rest \<Rightarrow>
                               (case set_value v ops of
                                  None \<Rightarrow> None
                                | Some ops' \<Rightarrow> flag_Parse fs ops' rest)))))"

text \<open>An argument that is no flag ends the flags; a flag the set does not have is an error.\<close>

lemma flag_Parse_positional: "dashes s = 0 \<Longrightarrow> flag_Parse fs ops (s # args) = Some (ops, s # args)"
  by simp

lemma flag_Parse_two:
  assumes "map_of fs (c # name) = Some set_value" "set_value v ops = Some ops'"
    and "c \<noteq> CHR ''-''" "c \<noteq> CHR ''=''" "CHR ''='' \<notin> set name"
  shows "flag_Parse fs ops ((''--'' @ c # name) # v # args) = flag_Parse fs ops' args"
proof -
  have "cut_value name = (name, None)"
    using assms(5) by (induction name) auto
  then show ?thesis
    using assms(1-4) by (simp add: dashes_def flag_name_def)
qed

end
