(* ===== verification/Cli.thy ===== *)
theory Cli
  imports Startup GoFlag ProxyConnect
begin

text \<open>
  \<open>cmd/egressgate/run.go\<close>: the three subcommands with their flags, their exit codes and what they
  print, and the life of \<open>serve\<close> from the flags to the chain head it announces. The file system,
  the listeners, the signals and \<open>net/url\<close>'s parser, whose corner cases vary between releases, are
  the environment.
\<close>

section \<open>Exit codes\<close>

definition exitOK :: nat where
  "exitOK = 0"

definition exitFail :: nat where
  "exitFail = 1"

definition exitUsage :: nat where
  "exitUsage = 2"

definition exitTruncated :: nat where
  "exitTruncated = 3"

lemmas exit_codes = exitOK_def exitFail_def exitUsage_def exitTruncated_def

section \<open>verify\<close>

record verify_opts =
  vo_audit :: string
  vo_min :: int
  vo_head :: string
  vo_seq :: nat

definition verify_flags :: "verify_opts flag list" where
  "verify_flags =
     [string_flag ''audit'' (\<lambda>v ops. ops\<lparr>vo_audit := v\<rparr>),
      int_flag ''min-records'' (\<lambda>n ops. ops\<lparr>vo_min := n\<rparr>),
      string_flag ''from-head'' (\<lambda>v ops. ops\<lparr>vo_head := v\<rparr>),
      uint64_flag ''from-seq'' (\<lambda>n ops. ops\<lparr>vo_seq := n\<rparr>)]"

definition verify_defaults :: verify_opts where
  "verify_defaults = \<lparr>vo_audit = [], vo_min = 0, vo_head = [], vo_seq = 0\<rparr>"

text \<open>What it prints, without the wording.\<close>

datatype verify_line =
    UsageError
  | CannotRead string
  | ChainBroken uint64 "problem option"
  | VerifiedBefore nat
  | ChainIntact nat
  | HeadIs string
  | TooFewRecords nat int
  | EndsMidRecord
  | NewlineMissing

text \<open>The file system for reading: an open error, or the bytes and the error reading them ends with.\<close>

type_synonym read_files = "string \<Rightarrow> string + string \<times> string option"

definition verify_report :: "int \<Rightarrow> verify_result \<Rightarrow> nat \<times> verify_line list" where
  "verify_report min_records res =
     (if \<not> v_ok res then
        (exitFail, [ChainBroken (v_break_at res) (v_problem res), VerifiedBefore (v_records res)])
      else
        (let intact = [ChainIntact (v_records res), HeadIs (v_head res)]
         in if int (v_records res) < min_records then
              (exitFail, intact @ [TooFewRecords (v_records res) min_records])
            else if v_truncated res then (exitTruncated, intact @ [EndsMidRecord])
            else if v_unterminated res then (exitTruncated, intact @ [NewlineMissing])
            else (exitOK, intact)))"

definition cmdVerify ::
  "(string \<Rightarrow> string) \<Rightarrow> read_files \<Rightarrow> string list \<Rightarrow> nat \<times> verify_line list" where
  "cmdVerify H files args =
     (case flag_Parse verify_flags verify_defaults args of
        None \<Rightarrow> (exitUsage, [UsageError])
      | Some (ops, _) \<Rightarrow>
          (if vo_audit ops = [] \<or> vo_min ops < 0 \<or> vo_head ops = [] \<and> vo_seq ops \<noteq> 0
           then (exitUsage, [UsageError])
           else
             (case files (vo_audit ops) of
                Inl err \<Rightarrow> (exitFail, [CannotRead err])
              | Inr (s, fail) \<Rightarrow>
                  (case VerifyFrom H s fail (vo_head ops) (of_nat (vo_seq ops)) of
                     Inl err \<Rightarrow> (exitFail, [CannotRead err])
                   | Inr res \<Rightarrow> verify_report (vo_min ops) res))))"

section \<open>check\<close>

definition check_flags :: "string flag list" where
  "check_flags = [string_flag ''policy'' (\<lambda>v _. v)]"

definition requestFor :: "url \<Rightarrow> string \<Rightarrow> request" where
  "requestFor u method =
     (let port0 = (if u_scheme u = ''https'' then 443 else 80);
          port = (if Port u \<noteq> [] then (case Atoi (Port u) of Some n \<Rightarrow> n | None \<Rightarrow> port0) else port0)
      in if u_scheme u = ''https'' then
           \<lparr>q_kind = KindConnect, q_host = Hostname u, q_port = port, q_method = [], q_path = []\<rparr>
         else
           \<lparr>q_kind = KindHTTP, q_host = Hostname u, q_port = port, q_method = method,
            q_path = (if u_path u = [] then ''/'' else u_path u)\<rparr>)"

datatype check_answer =
    CheckUsage
  | CheckNoPolicy load_error
  | CheckRefused request string
  | CheckDecided request decision

definition cmdCheck ::
  "load_env \<Rightarrow> casemap \<Rightarrow> (string \<Rightarrow> url option) \<Rightarrow> string list \<Rightarrow> nat \<times> check_answer" where
  "cmdCheck env cm parse_url args =
     (case flag_Parse check_flags [] args of
        Some (path, [arg0, arg1]) \<Rightarrow>
          (if path = [] then (exitUsage, CheckUsage)
           else case parse_url arg1 of
             None \<Rightarrow> (exitUsage, CheckUsage)
           | Some u \<Rightarrow>
               (if \<not> IsAbs u \<or> Hostname u = [] then (exitUsage, CheckUsage)
                else case LoadStore env path of
                  Inl e \<Rightarrow> (exitFail, CheckNoPolicy e)
                | Inr store \<Rightarrow>
                    (let req = requestFor u (ToUpper cm arg0);
                         refused = (q_kind req = KindHTTP \<and> \<not> snd (normalisedPath cm u))
                     in if refused then (exitFail, CheckRefused req (fst (normalisedPath cm u)))
                        else
                          (let d = store_Evaluate cm store req
                           in (if d_action d = Allow then exitOK else exitFail, CheckDecided req d)))))
      | _ \<Rightarrow> (exitUsage, CheckUsage))"

section \<open>serve\<close>

record serve_opts =
  so_policy :: string
  so_policy_env :: string
  so_listen :: string
  so_admin :: string
  so_audit :: string
  so_dial :: int
  so_header :: int
  so_idle :: int
  so_max :: int

text \<open>\<open>dur\<close> is \<open>time.ParseDuration\<close>, in nanoseconds; its fractions are floating point.\<close>

definition duration_flag :: "(string \<Rightarrow> int option) \<Rightarrow> string \<Rightarrow> (int \<Rightarrow> 'o \<Rightarrow> 'o) \<Rightarrow> 'o flag" where
  "duration_flag dur name upd = (name, \<lambda>v ops. map_option (\<lambda>n. upd n ops) (dur v))"

definition serve_flags :: "(string \<Rightarrow> int option) \<Rightarrow> serve_opts flag list" where
  "serve_flags dur =
     [string_flag ''policy'' (\<lambda>v ops. ops\<lparr>so_policy := v\<rparr>),
      string_flag ''policy-env'' (\<lambda>v ops. ops\<lparr>so_policy_env := v\<rparr>),
      string_flag ''listen'' (\<lambda>v ops. ops\<lparr>so_listen := v\<rparr>),
      string_flag ''admin'' (\<lambda>v ops. ops\<lparr>so_admin := v\<rparr>),
      string_flag ''audit'' (\<lambda>v ops. ops\<lparr>so_audit := v\<rparr>),
      duration_flag dur ''dial-timeout'' (\<lambda>n ops. ops\<lparr>so_dial := n\<rparr>),
      duration_flag dur ''response-header-timeout'' (\<lambda>n ops. ops\<lparr>so_header := n\<rparr>),
      duration_flag dur ''idle-timeout'' (\<lambda>n ops. ops\<lparr>so_idle := n\<rparr>),
      int_flag ''max-tunnel-bytes'' (\<lambda>n ops. ops\<lparr>so_max := n\<rparr>)]"

definition serve_defaults :: serve_opts where
  "serve_defaults =
     \<lparr>so_policy = [], so_policy_env = [], so_listen = ''127.0.0.1:8080'', so_admin = ''127.0.0.1:9090'',
      so_audit = [], so_dial = 10 * second, so_header = 30 * second, so_idle = 5 * 60 * second, so_max = 0\<rparr>"

text \<open>The configuration it builds; the fields it leaves out are zero.\<close>

definition serve_config :: "serve_opts \<Rightarrow> config" where
  "serve_config ops =
     \<lparr>cfg_dial = so_dial ops, cfg_header = so_header ops, cfg_idle = so_idle ops, cfg_max_tunnel = so_max ops,
      cfg_idle_conn = 0, cfg_max_idle = 0, cfg_max_per_host = 0, cfg_tls = 0\<rparr>"

datatype serve_failure =
    BadFlags
  | NoPolicyGiven
  | TwoPoliciesGiven
  | EnvEmpty string
  | BadPolicy load_error
  | BadAuditLog start_error
  | CannotOpenLog string
  | CannotListen string string
  | ServerDied string

definition failure_exit :: "serve_failure \<Rightarrow> nat" where
  "failure_exit e =
     (case e of BadFlags \<Rightarrow> exitUsage | NoPolicyGiven \<Rightarrow> exitUsage | TwoPoliciesGiven \<Rightarrow> exitUsage
      | _ \<Rightarrow> exitFail)"

text \<open>
  What the process does, in order. The handler is built with the policy and the configuration;
  \<open>ready\<close> is what \<open>/readyz\<close> asks.
\<close>

datatype serve_event =
    Noted start_note
  | Built store handler
  | Listening string
  | StoppedListening string
  | Ready bool
  | Announced string
  | ServersShutDown
  | TunnelsShutDown "nat option"
  | HeadPrinted string uint64
  | LogClosed "string option"
  | Failed serve_failure

text \<open>Why serving ends: a server's error, a server closed without one, or the stop signal.\<close>

datatype stop = ServerError string | ServerClosed | StopSignal

text \<open>
  The world of one run. \<open>se_calls\<close> are the appends up to the moment serving ends, \<open>se_closing\<close>
  those until the head is read, \<open>se_late\<close> those of requests that outlive it, before the process is
  gone, and \<open>se_stranded\<close> is what \<open>Handler.Shutdown\<close> returned. What \<open>http.Server.Shutdown\<close> returns
  is discarded: a server that did not stop in time leaves no trace but its late appends.
\<close>

record serve_env =
  se_getenv :: "string \<Rightarrow> string option"
  se_load :: load_env
  se_file :: "string option"
  se_fe :: file_env
  se_append_open :: "string option"
  se_listen_data :: "string option"
  se_listen_admin :: "string option"
  se_calls :: "append_call list"
  se_stop :: stop
  se_closing :: "append_call list"
  se_stranded :: "nat option"
  se_late :: "append_call list"
  se_close_log :: "string option"

definition load_policy :: "serve_env \<Rightarrow> serve_opts \<Rightarrow> serve_failure + store \<times> string" where
  "load_policy env ops =
     (if so_policy_env ops \<noteq> [] then
        (case se_getenv env (so_policy_env ops) of
           None \<Rightarrow> Inl (EnvEmpty (so_policy_env ops))
         | Some raw \<Rightarrow>
             (if raw = [] then Inl (EnvEmpty (so_policy_env ops))
              else case Parse (le_yaml (se_load env)) (le_case (se_load env)) raw of
                Inl e \<Rightarrow> Inl (BadPolicy (ParseFailed e))
              | Inr p \<Rightarrow> Inr (NewStore p, CHR ''$'' # so_policy_env ops)))
      else case LoadStore (se_load env) (so_policy ops) of
        Inl e \<Rightarrow> Inl (BadPolicy e)
      | Inr s \<Rightarrow> Inr (s, so_policy ops))"

text \<open>The audit log the gate resumes: on stdout, or on the file, recovered and opened to append.\<close>

definition open_log ::
  "(string \<Rightarrow> string) \<Rightarrow> serve_env \<Rightarrow> serve_opts
     \<Rightarrow> string option \<times> serve_event list \<times> (serve_failure + audit_log)" where
  "open_log H env ops =
     (if so_audit ops = [] then (se_file env, [], Inr (Resume [] GenesisHash 0))
      else case existingChainHead H (se_fe env) (se_file env) of
        (file, notes, Inl e) \<Rightarrow> (file, map Noted notes, Inl (BadAuditLog e))
      | (file, notes, Inr (head, seq)) \<Rightarrow>
          (case se_append_open env of
             Some e \<Rightarrow> (file, map Noted notes, Inl (CannotOpenLog e))
           | None \<Rightarrow>
               (let s = (case file of None \<Rightarrow> [] | Some s \<Rightarrow> s)
                in (Some s, map Noted notes, Inr (Resume s head seq)))))"

text \<open>From the open listeners to the return.\<close>

definition serve_loop ::
  "(string \<Rightarrow> string) \<Rightarrow> serve_env \<Rightarrow> string \<Rightarrow> audit_log \<Rightarrow> nat \<times> serve_event list \<times> audit_log" where
  "serve_loop H env source l =
     (let l1 = append_run H (se_calls env) l;
          l2 = append_run H (se_closing env) l1;
          l3 = append_run H (se_late env) l2
      in case se_stop env of
           ServerError e \<Rightarrow>
             (exitFail, [Ready True, Announced source, Failed (ServerDied e), ServersShutDown], l3)
         | _ \<Rightarrow>
             (exitOK,
              [Ready True, Announced source, Ready False, ServersShutDown,
               TunnelsShutDown (se_stranded env), HeadPrinted (fst (Head l2)) (snd (Head l2))], l3))"

definition serve_listeners ::
  "(string \<Rightarrow> string) \<Rightarrow> serve_env \<Rightarrow> serve_opts \<Rightarrow> string \<Rightarrow> audit_log
     \<Rightarrow> nat \<times> serve_event list \<times> audit_log" where
  "serve_listeners H env ops source l =
     (case se_listen_data env of
        Some e \<Rightarrow> (exitFail, [Failed (CannotListen (so_listen ops) e)], l)
      | None \<Rightarrow>
          (case se_listen_admin env of
             Some e \<Rightarrow>
               (exitFail,
                [Listening (so_listen ops), StoppedListening (so_listen ops),
                 Failed (CannotListen (so_admin ops) e)], l)
           | None \<Rightarrow>
               (case serve_loop H env source l of
                  (code, es, l') \<Rightarrow> (code, Listening (so_listen ops) # Listening (so_admin ops) # es, l'))))"

text \<open>The exit code, the events, the audit file and what went to stdout.\<close>

record serve_result =
  sr_exit :: nat
  sr_events :: "serve_event list"
  sr_file :: "string option"
  sr_stdout :: string

definition serve_failed :: "serve_env \<Rightarrow> serve_event list \<Rightarrow> string option \<Rightarrow> serve_failure \<Rightarrow> serve_result" where
  "serve_failed env es file e =
     \<lparr>sr_exit = failure_exit e, sr_events = es @ [Failed e], sr_file = file, sr_stdout = []\<rparr>"

definition cmdServe ::
  "(string \<Rightarrow> string) \<Rightarrow> (string \<Rightarrow> int option) \<Rightarrow> serve_env \<Rightarrow> string list \<Rightarrow> serve_result" where
  "cmdServe H dur env args =
     (case flag_Parse (serve_flags dur) serve_defaults args of
        None \<Rightarrow> serve_failed env [] (se_file env) BadFlags
      | Some (ops, _) \<Rightarrow>
          (if so_policy ops = [] \<and> so_policy_env ops = [] then serve_failed env [] (se_file env) NoPolicyGiven
           else if so_policy ops \<noteq> [] \<and> so_policy_env ops \<noteq> [] then
             serve_failed env [] (se_file env) TwoPoliciesGiven
           else case load_policy env ops of
             Inl e \<Rightarrow> serve_failed env [] (se_file env) e
           | Inr (store, source) \<Rightarrow>
               (case open_log H env ops of
                  (file, notes, Inl e) \<Rightarrow> serve_failed env notes file e
                | (file, notes, Inr l) \<Rightarrow>
                    (case serve_listeners H env ops source l of
                       (code, es, l') \<Rightarrow>
                         (let all = notes @ [Built store (proxy_New (serve_config ops))] @ es
                          in if so_audit ops = [] then
                               \<lparr>sr_exit = code, sr_events = all, sr_file = file, sr_stdout = l_w l'\<rparr>
                             else
                               \<lparr>sr_exit = code, sr_events = all @ [LogClosed (se_close_log env)],
                                sr_file = Some (l_w l'), sr_stdout = []\<rparr>)))))"

section \<open>The dispatch\<close>

record run_env =
  re_files :: read_files
  re_parse_url :: "string \<Rightarrow> url option"
  re_dur :: "string \<Rightarrow> int option"
  re_serve :: serve_env

definition runWithStop :: "(string \<Rightarrow> string) \<Rightarrow> run_env \<Rightarrow> string list \<Rightarrow> nat" where
  "runWithStop H env args =
     (case args of
        [] \<Rightarrow> exitUsage
      | cmd # rest \<Rightarrow>
          if cmd = ''serve'' then sr_exit (cmdServe H (re_dur env) (re_serve env) rest)
          else if cmd = ''verify'' then fst (cmdVerify H (re_files env) rest)
          else if cmd = ''check'' then
            fst (cmdCheck (se_load (re_serve env)) (le_case (se_load (re_serve env))) (re_parse_url env) rest)
          else if cmd \<in> {''-h'', ''--help'', ''help''} then exitOK
          else exitUsage)"

end
