(* ===== verification/CliProps.thy ===== *)
theory CliProps
  imports Cli AuditProps ProxyProps
begin

text \<open>
  The properties of the command line: what its exit codes mean, what \<open>serve\<close> announces against what
  \<open>verify\<close> answers, when the gate listens at all, and how far \<open>check\<close> can be trusted.
\<close>

section \<open>verify\<close>

definition verify_usage :: "string list \<Rightarrow> bool" where
  "verify_usage args =
     (case flag_Parse verify_flags verify_defaults args of
        None \<Rightarrow> True
      | Some (ops, _) \<Rightarrow> vo_audit ops = [] \<or> vo_min ops < 0 \<or> vo_head ops = [] \<and> vo_seq ops \<noteq> 0)"

lemma exit_codes_distinct [simp]:
  "exitOK \<noteq> exitFail" "exitOK \<noteq> exitUsage" "exitOK \<noteq> exitTruncated" "exitFail \<noteq> exitOK"
  "exitFail \<noteq> exitUsage" "exitFail \<noteq> exitTruncated" "exitUsage \<noteq> exitOK" "exitUsage \<noteq> exitFail"
  "exitUsage \<noteq> exitTruncated" "exitTruncated \<noteq> exitOK" "exitTruncated \<noteq> exitFail"
  "exitTruncated \<noteq> exitUsage"
  by (simp_all add: exit_codes)

lemma verify_report_exit:
  "fst (verify_report m res) =
     (if \<not> v_ok res \<or> int (v_records res) < m then exitFail
      else if v_truncated res \<or> v_unterminated res then exitTruncated else exitOK)"
  by (simp add: verify_report_def Let_def)

lemma cmdVerify_run:
  assumes "\<not> verify_usage args" "flag_Parse verify_flags verify_defaults args = Some (ops, rest)"
    "files (vo_audit ops) = Inr (s, None)"
  shows "cmdVerify H files args =
    verify_report (vo_min ops) (projr (VerifyFrom H s None (vo_head ops) (of_nat (vo_seq ops))))"
proof -
  obtain res where "VerifyFrom H s None (vo_head ops) (of_nat (vo_seq ops)) = Inr res"
    using VerifyFrom_cases [of s H "vo_head ops" "of_nat (vo_seq ops)"] by (auto split: if_splits)
  with assms show ?thesis by (auto simp: cmdVerify_def verify_usage_def)
qed

text \<open>C28. The exit code of verify: 2 for the usage errors and nothing else; on a file that can be read,
  0 exactly if every line is blank or a record, the records are a chain from the head and number
  given, there are as many as required, and the file ends where a record ends; 3 exactly if all
  but the last of these holds; 1 otherwise.\<close>

theorem cli_verify_exit:
  "(fst (cmdVerify H files args) = exitUsage \<longleftrightarrow> verify_usage args)
   \<and> (\<not> verify_usage args \<and> flag_Parse verify_flags verify_defaults args = Some (ops, rest)
        \<and> files (vo_audit ops) = Inr (s, None) \<longrightarrow>
      (let sound = readable s \<and> chained H (start_head (vo_head ops)) (of_nat (vo_seq ops)) (log_records s)
                     \<and> vo_min ops \<le> int (length (log_records s))
       in fst (cmdVerify H files args) =
            (if sound then if tail_line s = [] then exitOK else exitTruncated else exitFail)))"
proof
  show "fst (cmdVerify H files args) = exitUsage \<longleftrightarrow> verify_usage args"
    by (auto simp: cmdVerify_def verify_usage_def verify_report_exit split: option.splits sum.splits)
next
  have "fst (cmdVerify H files args) =
      (if readable s \<and> chained H (start_head (vo_head ops)) (of_nat (vo_seq ops)) (log_records s)
            \<and> vo_min ops \<le> int (length (log_records s))
       then if tail_line s = [] then exitOK else exitTruncated else exitFail)"
    if a: "\<not> verify_usage args" "flag_Parse verify_flags verify_defaults args = Some (ops, rest)"
      "files (vo_audit ops) = Inr (s, None)"
  proof (cases "readable s \<and> chained H (start_head (vo_head ops)) (of_nat (vo_seq ops)) (log_records s)")
    case True
    then have "VerifyFrom H s None (vo_head ops) (of_nat (vo_seq ops)) =
        Inr (verdict (start_result (start_head (vo_head ops)) (of_nat (vo_seq ops))) s)"
      using VerifyFrom_cases [of s H "vo_head ops" "of_nat (vo_seq ops)"] by simp
    with True cmdVerify_run [where files = files, OF a] show ?thesis
      by (auto simp: verify_report_exit verdict_def start_result_def torn_tail_def whole_tail_def)
  next
    case False
    then obtain res where "VerifyFrom H s None (vo_head ops) (of_nat (vo_seq ops)) = Inr res" "\<not> v_ok res"
      using VerifyFrom_cases [of s H "vo_head ops" "of_nat (vo_seq ops)"] by auto
    with False cmdVerify_run [where files = files, OF a] show ?thesis by (auto simp: verify_report_exit)
  qed
  then show "\<not> verify_usage args \<and> flag_Parse verify_flags verify_defaults args = Some (ops, rest)
        \<and> files (vo_audit ops) = Inr (s, None) \<longrightarrow>
      (let sound = readable s \<and> chained H (start_head (vo_head ops)) (of_nat (vo_seq ops)) (log_records s)
                     \<and> vo_min ops \<le> int (length (log_records s))
       in fst (cmdVerify H files args) =
            (if sound then if tail_line s = [] then exitOK else exitTruncated else exitFail))"
    by (simp add: Let_def)
qed

definition verify_args :: "string list" where
  "verify_args = [''--audit'', ''audit.jsonl'']"

lemma verify_args_parse:
  "flag_Parse verify_flags verify_defaults verify_args =
     Some (verify_defaults\<lparr>vo_audit := ''audit.jsonl''\<rparr>, [])"
  "\<not> verify_usage verify_args"
proof -
  show p: "flag_Parse verify_flags verify_defaults verify_args =
     Some (verify_defaults\<lparr>vo_audit := ''audit.jsonl''\<rparr>, [])"
    by (simp add: verify_args_def verify_flags_def string_flag_def dashes_def flag_name_def)
  show "\<not> verify_usage verify_args" by (simp add: verify_usage_def p) (simp add: verify_defaults_def)
qed

lemma cmdVerify_args:
  assumes "Verify H s None = Inr res"
  shows "cmdVerify H (\<lambda>_. Inr (s, None)) verify_args = verify_report 0 res"
proof -
  have "VerifyFrom H s None [] 0 = Inr res"
    using assms by (simp add: Verify_def VerifyFrom_def GenesisHash_def)
  then show ?thesis
    unfolding cmdVerify_def verify_args_parse(1) by (simp add: verify_defaults_def)
qed

theorem cli_verify_exit_witness:
  "fst (cmdVerify sha256_hex (\<lambda>_. Inr (record_line sample_first, None)) verify_args) = exitOK"
proof -
  note acc = VerifyFrom_accepted [OF sample_accepted(1)]
  have "v_ok ((start_result (a_hash sample_first) 1)\<lparr>v_records := 1\<rparr>)" by (simp add: start_result_def)
  note acc = acc [OF this]
  have "tail_line (record_line sample_first) = []"
    using acc(6,7) by (auto simp: start_result_def torn_tail_def whole_tail_def)
  moreover have "chained sha256_hex (start_head (vo_head verify_defaults)) (of_nat (vo_seq verify_defaults))
      (log_records (record_line sample_first))"
    using acc(2) by (simp add: verify_defaults_def)
  moreover have "vo_min verify_defaults \<le> int (length (log_records (record_line sample_first)))"
    by (simp add: verify_defaults_def)
  ultimately show ?thesis
    using cli_verify_exit [of sha256_hex "\<lambda>_. Inr (record_line sample_first, None)" verify_args
        "verify_defaults\<lparr>vo_audit := ''audit.jsonl''\<rparr>" "[]" "record_line sample_first"]
      verify_args_parse acc(1) by (simp add: Let_def)
qed

section \<open>serve\<close>

text \<open>What a run that gets past its flags does.\<close>

lemma open_log_ok:
  assumes "open_log H env ops = (fl, evs, Inr l)" "so_audit ops \<noteq> []"
  obtains s res where "l = Resume (recovered s) (v_head res) (v_last_seq res)" "fl = Some (recovered s)"
    "Verify H s None = Inr res" "v_ok res" "se_file env = Some s \<or> se_file env = None \<and> s = []"
proof (cases "se_file env")
  case None
  have "Verify H [] None = Inr (start_result GenesisHash 0)"
    by (simp add: Verify_def VerifyFrom_loop verify_end start_head_def GenesisHash_def)
  moreover have "recovered [] = []"
    by (simp add: recovered_def torn_tail_def whole_tail_def tail_line_def TrimSpace_def)
  moreover have "fl = Some []" "l = Resume [] GenesisHash 0"
    using assms None by (auto simp: open_log_def existingChainHead_def split: option.splits)
  ultimately show ?thesis using None that [of "[]" "start_result GenesisHash 0"]
    by (simp add: start_result_def)
next
  case (Some s)
  obtain file0 evs0 hd0 sq0 where e: "existingChainHead H (se_fe env) (Some s) = (file0, evs0, Inr (hd0, sq0))"
    and l: "fl = Some (case file0 of None \<Rightarrow> [] | Some s \<Rightarrow> s)" "l = Resume (case file0 of None \<Rightarrow> [] | Some s \<Rightarrow> s) hd0 sq0"
    using assms Some by (auto simp: open_log_def Let_def split: prod.splits sum.splits option.splits)
  from existingChainHead_ok [OF e] l Some show ?thesis by (metis that option.simps(5))
qed

lemma open_log_refused:
  assumes "open_log H env ops = (fl, evs, Inl e)"
  shows "Listening a \<notin> set evs"
    and "so_audit ops \<noteq> [] \<Longrightarrow> se_file env = Some s \<Longrightarrow> Verify H s None = Inr res \<Longrightarrow> \<not> v_ok res \<Longrightarrow> fl = Some s"
  using assms existingChainHead_refuses [of H s res "se_fe env"]
  by (auto simp: open_log_def Let_def split: if_splits prod.splits sum.splits option.splits)

lemma load_policy_valid: "load_policy env ops = Inr (store, source) \<Longrightarrow> valid_policy (st_current store)"
  by (auto simp: load_policy_def NewStore_def dest: Parse_valid LoadStore_valid split: if_splits option.splits sum.splits)

text \<open>A run that exits 0 has opened its log, both listeners, and gone through the orderly shutdown.\<close>

lemma serve_loop_ok:
  assumes "serve_loop H env source l = (exitOK, es, l')"
  shows "l' = append_run H (se_late env)
        (append_run H (se_closing env) (append_run H (se_calls env) l))
    \<and> es = [Ready True, Announced source, Ready False, ServersShutDown, TunnelsShutDown (se_stranded env),
        HeadPrinted (fst (Head (append_run H (se_closing env) (append_run H (se_calls env) l))))
          (snd (Head (append_run H (se_closing env) (append_run H (se_calls env) l))))]"
  using assms by (auto simp: serve_loop_def Let_def split: stop.splits)

lemma failure_not_ok [simp]: "failure_exit e \<noteq> exitOK"
  by (simp add: failure_exit_def split: serve_failure.splits)

lemma cmdServe_ok:
  assumes "flag_Parse (serve_flags dur) serve_defaults args = Some (ops, rest)"
    and "sr_exit (cmdServe H dur env args) = exitOK" "so_audit ops \<noteq> []"
  obtains store source fl evs l l2 where
    "load_policy env ops = Inr (store, source)" "open_log H env ops = (fl, evs, Inr l)"
    "se_listen_data env = None" "se_listen_admin env = None"
    "l2 = append_run H (se_calls env @ se_closing env) l"
    "sr_file (cmdServe H dur env args) =
       Some (l_w (append_run H (se_late env) l2))"
    "sr_events (cmdServe H dur env args) =
            evs @ [Built store (proxy_New (serve_config ops)), Listening (so_listen ops),
                     Listening (so_admin ops), Ready True, Announced source, Ready False, ServersShutDown,
                     TunnelsShutDown (se_stranded env), HeadPrinted (l_prev l2) (l_seq l2),
                     LogClosed (se_close_log env)]"
proof -
  have "\<not> (\<exists>e. load_policy env ops = Inl e)"
    using assms(1,2) by (auto simp: cmdServe_def serve_failed_def split: if_splits)
  then obtain store source where p: "load_policy env ops = Inr (store, source)"
    by (cases "load_policy env ops") auto
  obtain fl evs r where o: "open_log H env ops = (fl, evs, r)" by (cases "open_log H env ops")
  obtain l where l: "r = Inr l"
    using assms p o by (cases r) (auto simp: cmdServe_def serve_failed_def split: if_splits)
  obtain code es l' where q: "serve_listeners H env ops source l = (code, es, l')"
    by (cases "serve_listeners H env ops source l")
  have code: "code = exitOK"
    and run: "sr_file (cmdServe H dur env args) = Some (l_w l')"
      "sr_events (cmdServe H dur env args) =
         (evs @ [Built store (proxy_New (serve_config ops))] @ es) @ [LogClosed (se_close_log env)]"
    using assms p o l q by (auto simp: cmdServe_def serve_failed_def Let_def split: if_splits)
  have n: "se_listen_data env = None" "se_listen_admin env = None"
    using q code by (auto simp: serve_listeners_def split: option.splits)
  then obtain es0 where "serve_loop H env source l = (exitOK, es0, l')"
    "es = Listening (so_listen ops) # Listening (so_admin ops) # es0"
    using q code by (auto simp: serve_listeners_def split: prod.splits)
  with serve_loop_ok [OF this(1)] that [OF p o [unfolded l] n refl] run show ?thesis
    by (simp add: append_run_append Head_def)
qed

lemma taken_append: "taken (es @ fs) = taken es + taken fs"
  by (simp add: taken_def)

text \<open>All the appends of a run of \<open>serve\<close>.\<close>

definition all_calls :: "serve_env \<Rightarrow> append_call list" where
  "all_calls env = se_calls env @ se_closing env @ se_late env"

text \<open>What \<open>serve\<close> announces is what \<open>verify\<close> answers: a run that exits 0, on a new file or any
  file it could go on from, with writes that go out whole or not at all, leaves a file that \<open>verify\<close>
  accepts with exit code 0, with the records from before and those of this run; and if no request
  outlived it, the head is the one \<open>serve\<close> printed as its last word before closing the log.\<close>

lemma serve_verifies:
  assumes "flag_Parse (serve_flags dur) serve_defaults args = Some (ops, rest)" "so_audit ops \<noteq> []"
    and "sr_exit (cmdServe sha256_hex dur env args) = exitOK" "list_all clean_call (all_calls env)"
    and old: "old = log_records (case se_file env of None \<Rightarrow> [] | Some s0 \<Rightarrow> s0)"
  shows "\<exists>before s head seq head'.
      sr_events (cmdServe sha256_hex dur env args) =
        before @ [Ready False, ServersShutDown, TunnelsShutDown (se_stranded env), HeadPrinted head seq,
                  LogClosed (se_close_log env)]
    \<and> sr_file (cmdServe sha256_hex dur env args) = Some s
    \<and> cmdVerify sha256_hex (\<lambda>_. Inr (s, None)) verify_args =
        (exitOK, [ChainIntact (length old + taken (all_calls env)), HeadIs head'])
    \<and> map payload (log_records s) = map payload old @ sent_payloads (all_calls env)
    \<and> (se_late env = [] \<longrightarrow> head' = head)"
proof -
  let ?es = "all_calls env"
  from cmdServe_ok [OF assms(1,3,2)] obtain store source fl evs l l2 where
    o: "open_log sha256_hex env ops = (fl, evs, Inr l)"
    and l2: "l2 = append_run sha256_hex (se_calls env @ se_closing env) l"
    and r: "sr_file (cmdServe sha256_hex dur env args) = Some (l_w (append_run sha256_hex (se_late env) l2))"
      "sr_events (cmdServe sha256_hex dur env args) =
        evs @ [Built store (proxy_New (serve_config ops)), Listening (so_listen ops),
               Listening (so_admin ops), Ready True, Announced source, Ready False, ServersShutDown,
               TunnelsShutDown (se_stranded env), HeadPrinted (l_prev l2) (l_seq l2),
               LogClosed (se_close_log env)]" .
  let ?before = "evs @ [Built store (proxy_New (serve_config ops)), Listening (so_listen ops),
     Listening (so_admin ops), Ready True, Announced source]" and ?l3 = "append_run sha256_hex (se_late env) l2"
  from open_log_ok [OF o assms(2)] obtain s0 res where s0:
    "l = Resume (recovered s0) (v_head res) (v_last_seq res)" "Verify sha256_hex s0 None = Inr res" "v_ok res"
    "se_file env = Some s0 \<or> se_file env = None \<and> s0 = []" .
  have rs: "log_records s0 = old" using s0(4) old by auto
  have l3: "?l3 = append_run sha256_hex ?es (Resume (recovered s0) (v_head res) (v_last_seq res))"
    unfolding l2 s0(1) all_calls_def by (simp add: append_run_append)
  note v = sha.resumed_verifies [OF s0(2,3) assms(4) l3]
  have "v_records res = length old"
    using VerifyFrom_accepted(3) s0(2,3) rs unfolding Verify_def by blast
  with v(1) have "cmdVerify sha256_hex (\<lambda>_. Inr (l_w ?l3, None)) verify_args =
      (exitOK, [ChainIntact (length old + taken ?es), HeadIs (l_prev ?l3)])"
    by (simp add: cmdVerify_args verify_report_def start_result_def)
  moreover have "se_late env = [] \<longrightarrow> l_prev ?l3 = l_prev l2" by simp
  moreover have "sr_events (cmdServe sha256_hex dur env args) =
      ?before @ [Ready False, ServersShutDown, TunnelsShutDown (se_stranded env), HeadPrinted (l_prev l2) (l_seq l2),
        LogClosed (se_close_log env)]"
    using r(2) by simp
  ultimately show ?thesis using r(1) v(2) unfolding rs by blast
qed

text \<open>A sample start: a policy file, and an audit file a killed run left with half a record.\<close>

definition serve_args :: "string list" where
  "serve_args = [''--policy'', ''policy.yaml'', ''--audit'', ''audit.jsonl'']"

definition serve_ops :: serve_opts where
  "serve_ops = serve_defaults\<lparr>so_policy := ''policy.yaml'', so_audit := ''audit.jsonl''\<rparr>"

definition sample_serve :: "string option \<Rightarrow> serve_env" where
  "sample_serve fl =
     \<lparr>se_getenv = (\<lambda>_. None), se_load = sample_env, se_file = fl, se_fe = calm_env, se_append_open = None,
      se_listen_data = None, se_listen_admin = None, se_calls = sample_calls, se_stop = StopSignal,
      se_closing = [], se_stranded = None, se_late = [], se_close_log = None\<rparr>"

lemma serve_args_parse: "flag_Parse (serve_flags dur) serve_defaults serve_args = Some (serve_ops, [])"
  by (simp add: serve_args_def serve_flags_def string_flag_def dashes_def flag_name_def serve_ops_def)

lemma serve_ops_simps [simp]:
  "so_policy serve_ops = ''policy.yaml''" "so_policy_env serve_ops = []" "so_audit serve_ops = ''audit.jsonl''"
  by (simp_all add: serve_ops_def serve_defaults_def)

lemma sample_load_policy:
  "load_policy (sample_serve fl) serve_ops =
     Inr (\<lparr>st_current = sample_policy, st_source = ''policy.yaml''\<rparr>, ''policy.yaml'')"
  using sample_load by (simp add: load_policy_def sample_serve_def)

text \<open>A run with nothing in its way exits 0.\<close>

definition undisturbed :: "serve_env \<Rightarrow> bool" where
  "undisturbed env \<longleftrightarrow>
     calm (se_fe env) \<and> se_append_open env = None \<and> se_listen_data env = None \<and> se_listen_admin env = None
     \<and> (\<forall>e. se_stop env \<noteq> ServerError e)"

lemma serve_undisturbed:
  assumes "flag_Parse (serve_flags dur) serve_defaults args = Some (ops, rest)" "so_audit ops \<noteq> []"
    and "(so_policy ops = []) \<noteq> (so_policy_env ops = [])" "load_policy env ops = Inr (store, source)"
    and "undisturbed env" "se_file env = Some s" "Verify H s None = Inr res" "v_ok res"
  shows "sr_exit (cmdServe H dur env args) = exitOK"
proof -
  have o: "open_log H env ops =
      (Some (recovered s), map Noted (recovery_notes res s), Inr (Resume (recovered s) (v_head res) (v_last_seq res)))"
    using existingChainHead_calm [of "se_fe env" H s res] assms(2,5-8)
    by (simp add: open_log_def undisturbed_def Let_def)
  obtain es l' where "serve_loop H env source (Resume (recovered s) (v_head res) (v_last_seq res)) = (exitOK, es, l')"
    using assms(5) by (cases "se_stop env") (auto simp: serve_loop_def undisturbed_def Let_def)
  with assms o show ?thesis by (auto simp: cmdServe_def serve_listeners_def undisturbed_def Let_def)
qed

lemma sample_undisturbed: "undisturbed (sample_serve fl)"
  by (simp add: undisturbed_def sample_serve_def calm_env)

lemma brace_records: "log_records ''{'' = []"
proof -
  have "v_records ((start_result GenesisHash 0)\<lparr>v_truncated := True\<rparr>) = length (log_records ''{'')"
    using VerifyFrom_accepted(3) [OF brace_verifies(1) [unfolded Verify_def]] by (simp add: start_result_def)
  then show ?thesis by (simp add: start_result_def)
qed

text \<open>C3. A crash does not cost the gate its log, as long as every text in the records of the killed
  run and of the new one is valid UTF-8 and the other writes of both go out whole or not at all:
  from whatever byte a killed gate stopped writing at, the next run, if nothing else is in its way
  (\<open>undisturbed\<close>: the policy loads, no system call of the start fails and the sockets open), starts,
  goes on from the records that are whole, exits 0 and leaves a log that \<open>verify\<close> accepts as intact
  and complete. A log that holds a record with an invalid text is not among these: a gate that
  restarts on it refuses to start.\<close>

theorem cli_crash_restart:
  assumes "flag_Parse (serve_flags dur) serve_defaults args = Some (ops, rest)" "so_audit ops \<noteq> []"
    and "(so_policy ops = []) \<noteq> (so_policy_env ops = [])" "load_policy env ops = Inr (store, source)"
    and "undisturbed env" "list_all clean_call es"
    and "se_file env = Some (take n (l_w (append_run sha256_hex es (New []))))"
    and "list_all clean_call (all_calls env)"
  shows "sr_exit (cmdServe sha256_hex dur env args) = exitOK
    \<and> (\<exists>s. sr_file (cmdServe sha256_hex dur env args) = Some s
        \<and> fst (cmdVerify sha256_hex (\<lambda>_. Inr (s, None)) verify_args) = exitOK)"
proof -
  obtain s where s: "s = take n (l_w (append_run sha256_hex es (Resume [] [] 0)))" "se_file env = Some s"
    using assms(7) by (simp add: New_Resume)
  then obtain res where v: "Verify sha256_hex s None = Inr res" "v_ok res"
    using sha.cut_accepted [OF assms(6)] by blast
  have ok: "sr_exit (cmdServe sha256_hex dur env args) = exitOK"
    using serve_undisturbed [OF assms(1-5) s(2) v] .
  from serve_verifies [OF assms(1,2) ok assms(8) refl] ok show ?thesis by force
qed

theorem cli_crash_restart_witness:
  "sr_exit (cmdServe sha256_hex (\<lambda>_. None)
     (sample_serve (Some (take 7 (l_w (append_run sha256_hex sample_calls (New [])))))) serve_args) = exitOK"
  by (rule conjunct1 [OF cli_crash_restart [OF serve_args_parse _ _ sample_load_policy sample_undisturbed
      sample_clean(1)]])
    (use sample_clean(1) in \<open>simp_all add: sample_serve_def all_calls_def\<close>)

text \<open>C29. When the gate listens at all, it has a valid policy, a transport whose pool is bounded and that chains to no
  other proxy, and, if
  it audits to a file, a file it could go on from; a log that does not verify keeps it from
  listening, and is left byte for byte as it was.\<close>

theorem cli_listens_only:
  assumes "flag_Parse (serve_flags dur) serve_defaults args = Some (ops, rest)"
  shows "(Listening a \<in> set (sr_events (cmdServe H dur env args)) \<longrightarrow>
      (\<exists>store source. load_policy env ops = Inr (store, source) \<and> valid_policy (st_current store)
        \<and> Built store (proxy_New (serve_config ops)) \<in> set (sr_events (cmdServe H dur env args))
        \<and> bounded_transport (h_transport (proxy_New (serve_config ops))))
      \<and> (so_audit ops \<noteq> [] \<longrightarrow>
          (\<exists>res. Verify H (case se_file env of None \<Rightarrow> [] | Some s \<Rightarrow> s) None = Inr res \<and> v_ok res)))
    \<and> (so_audit ops \<noteq> [] \<and> se_file env = Some s \<and> Verify H s None = Inr res \<and> \<not> v_ok res \<longrightarrow>
        sr_file (cmdServe H dur env args) = Some s \<and> sr_exit (cmdServe H dur env args) \<noteq> exitOK
        \<and> Listening a \<notin> set (sr_events (cmdServe H dur env args)))"
proof (cases "load_policy env ops")
  case (Inl e)
  then show ?thesis
    using assms by (auto simp: cmdServe_def serve_failed_def)
next
  case (Inr ss)
  obtain store source where p: "load_policy env ops = Inr (store, source)" using Inr by (cases ss) simp
  obtain fl evs r where o: "open_log H env ops = (fl, evs, r)" by (cases "open_log H env ops")
  show ?thesis
  proof (cases r)
    case (Inl e)
    then show ?thesis
      using assms p o open_log_refused [OF o [unfolded Inl]] by (auto simp: cmdServe_def serve_failed_def)
  next
    case (Inr l)
    have "so_audit ops \<noteq> [] \<longrightarrow>
        (\<exists>res. Verify H (case se_file env of None \<Rightarrow> [] | Some s \<Rightarrow> s) None = Inr res \<and> v_ok res)"
      using open_log_ok [OF o [unfolded Inr]] by fastforce
    then show ?thesis
      using assms p o Inr load_policy_valid [OF p] transport_bounded(1)
      by (auto simp: cmdServe_def serve_failed_def Let_def split: prod.splits)
  qed
qed

theorem cli_listens_only_witness:
  "sr_file (cmdServe sha256_hex (\<lambda>_. None) (sample_serve (Some (''x'' @ [nl]))) serve_args) = Some (''x'' @ [nl])"
proof -
  have t: "TrimSpace ''x'' = ''x''" "nl \<notin> set ''x''" by (simp_all add: TrimSpace_trimmed trimmedI)
  have "decode_record ''x'' = None" by code_simp
  with t have "\<not> line_ok ''x''" by (simp add: line_ok_def)
  with line_structure(1) [OF t(2), of "[]"] have "\<not> readable (''x'' @ [nl])" by simp
  then obtain res where "Verify sha256_hex (''x'' @ [nl]) None = Inr res" "\<not> v_ok res"
    using VerifyFrom_cases [of "''x'' @ [nl]" sha256_hex "[]" 0]
    by (auto simp: Verify_def VerifyFrom_def GenesisHash_def)
  then show ?thesis
    using cli_listens_only [OF serve_args_parse, of "[]" sha256_hex "\<lambda>_. None" "sample_serve (Some (''x'' @ [nl]))"
        "''x'' @ [nl]" res]
    by (simp add: sample_serve_def)
qed

section \<open>check\<close>





lemma connect_shape_refused:
  assumes "connect_shape cfg gate ce r es" "splitAuthority (authority_of r) = Inr (host, port)"
    and "d_action (ge_eval gate (connect_question host port)) \<noteq> Allow"
  shows "\<exists>rec msg. es = [Asked (connect_question host port), Audited rec, Refused 403 msg]"
  using assms by (cases rule: connect_shape.cases) auto



definition check_args :: "string \<Rightarrow> string list" where
  "check_args raw = [''--policy'', ''policy.yaml'', ''get'', raw]"

lemma check_args_parse: "flag_Parse check_flags [] (check_args raw) = Some (''policy.yaml'', [''get'', raw])"
  by (simp add: check_args_def check_flags_def string_flag_def dashes_def flag_name_def)

lemma cmdCheck_sample:
  assumes "LoadStore env ''policy.yaml'' = Inr store" "IsAbs u" "Hostname u \<noteq> []" "u_scheme u = ''http''"
    "snd (normalisedPath plain_casemap u)"
  shows "fst (cmdCheck env plain_casemap (\<lambda>_. Some u) (check_args raw)) =
    (if d_action (store_Evaluate plain_casemap store (requestFor u (ToUpper plain_casemap ''get''))) = Allow
     then exitOK else exitFail)"
  using assms by (simp add: cmdCheck_def check_args_parse Let_def)




text \<open>A policy whose one rule allows a host under the root path, and three URLs of that host.\<close>

definition root_policy :: policy where
  "root_policy =
     \<lparr>p_version = 1, p_default = Deny,
      p_rules = [\<lparr>r_name = ''root'', r_hosts = Some [''api.example.com''], r_methods = None,
                  r_paths = Some [''/''], r_ports = None\<rparr>]\<rparr>"

definition root_env :: load_env where
  "root_env = sample_env\<lparr>le_yaml := (\<lambda>_. YamlDoc root_policy False)\<rparr>"

abbreviation root_store :: store where
  "root_store \<equiv> \<lparr>st_current = root_policy, st_source = ''policy.yaml''\<rparr>"

definition url_of :: "string \<Rightarrow> string \<Rightarrow> url" where
  "url_of host path = \<lparr>u_scheme = ''http'', u_host = host, u_path = path, u_rawpath = []\<rparr>"

lemma root_load: "LoadStore root_env ''policy.yaml'' = Inr root_store"
  by code_simp

definition root_gate :: gate_env where
  "root_gate = sample_gate\<lparr>ge_eval := store_Evaluate plain_casemap root_store\<rparr>"

definition asking :: "url \<Rightarrow> http_request" where
  "asking u = sample_request\<lparr>hr_url := u\<rparr>"

definition pathless :: url where
  "pathless = url_of ''api.example.com'' []"

definition big_port :: url where
  "big_port = url_of ''api.example.com:99999999999999999999'' ''/''"

lemma big_port_facts:
  "Port big_port = ''99999999999999999999''" "Hostname big_port = ''api.example.com''"
  "u_scheme big_port = ''http''" "IsAbs big_port" "snd (normalisedPath plain_casemap big_port)"
  "u_path big_port = ''/''"
  by code_simp+

lemma big_port_overflows: "Atoi ''99999999999999999999'' = None"
  by (simp add: Atoi_def digits_val_def is_digit_def HasPrefix_def Let_def)

lemma big_port_request:
  "requestFor big_port (ToUpper plain_casemap ''get'') =
     \<lparr>q_kind = KindHTTP, q_host = ''api.example.com'', q_port = 80, q_method = ''GET'', q_path = ''/''\<rparr>"
proof -
  have "ToUpper plain_casemap ''get'' = ''GET''" by code_simp
  then show ?thesis by (simp add: requestFor_def big_port_facts big_port_overflows)
qed

lemma check_gap_exits:
  "fst (cmdCheck root_env plain_casemap (\<lambda>_. Some pathless) (check_args raw)) = exitOK"
  "fst (cmdCheck root_env plain_casemap (\<lambda>_. Some big_port) (check_args raw)) = exitOK"
proof -
  have "IsAbs pathless" "Hostname pathless \<noteq> []" "u_scheme pathless = ''http''"
    "snd (normalisedPath plain_casemap pathless)"
    "d_action (store_Evaluate plain_casemap root_store (requestFor pathless (ToUpper plain_casemap ''get''))) = Allow"
    by code_simp+
  then show "fst (cmdCheck root_env plain_casemap (\<lambda>_. Some pathless) (check_args raw)) = exitOK"
    using cmdCheck_sample [OF root_load, of pathless] by simp
  have "d_action (store_Evaluate plain_casemap root_store (requestFor big_port (ToUpper plain_casemap ''get''))) = Allow"
    unfolding big_port_request by code_simp
  then show "fst (cmdCheck root_env plain_casemap (\<lambda>_. Some big_port) (check_args raw)) = exitOK"
    using cmdCheck_sample [OF root_load, of big_port] big_port_facts by simp
qed

text \<open>The gate's own answer to a CONNECT for the host and port that \<open>check\<close> was asked about with the
  method CONNECT and the URL \<open>http://api.example.com/\<close>.\<close>

definition rooted_url :: url where
  "rooted_url = url_of ''api.example.com'' ''/''"

definition connect_args :: "string \<Rightarrow> string list" where
  "connect_args raw = [''--policy'', ''policy.yaml'', ''connect'', raw]"

definition tunnelling :: http_request where
  "tunnelling = sample_request\<lparr>hr_method := ''CONNECT'', hr_host := ''api.example.com:80''\<rparr>"

lemma check_connect_exit:
  "fst (cmdCheck root_env plain_casemap (\<lambda>_. Some rooted_url) (connect_args raw)) = exitOK"
proof -
  have "IsAbs rooted_url" "Hostname rooted_url \<noteq> []" "u_scheme rooted_url = ''http''"
    "snd (normalisedPath plain_casemap rooted_url)"
    "d_action (store_Evaluate plain_casemap root_store (requestFor rooted_url (ToUpper plain_casemap ''connect''))) = Allow"
    by code_simp+
  moreover have "flag_Parse check_flags [] (connect_args raw) = Some (''policy.yaml'', [''connect'', raw])"
    by (simp add: connect_args_def check_flags_def string_flag_def dashes_def flag_name_def)
  ultimately show ?thesis by (simp add: cmdCheck_def root_load Let_def)
qed

lemma tunnelling_refused:
  "\<exists>rec msg. effects st (ServeHTTP H plain_casemap cfg root_gate ue ce tunnelling st)
     = [Asked (connect_question ''api.example.com'' 80), Audited rec, Refused 403 msg]"
proof -
  have "splitAuthority (authority_of tunnelling) = Inr (''api.example.com'', 80)"
    "d_action (ge_eval root_gate (connect_question ''api.example.com'' 80)) \<noteq> Allow"
    by code_simp+
  then have "\<exists>rec msg. effects st (handleConnect H cfg root_gate ce tunnelling st)
      = [Asked (connect_question ''api.example.com'' 80), Audited rec, Refused 403 msg]"
    using connect_shape_refused [OF handleConnect_shape] by blast
  then show ?thesis by (simp add: ServeHTTP_def tunnelling_def)
qed

text \<open>C39. The three gaps in that promise. A URL without a path is checked as one with the path \<open>/\<close>,
  which a rule for \<open>/\<close> allows, while the gate asks about the empty path and answers 403; a URL whose
  port overflows an integer is checked as one for port 80 and exits 0, while the gate answers 400
  without asking the policy; and the method CONNECT with an http URL is checked as a plain request
  and exits 0 under a rule that constrains the path but no method, while the gate judges a CONNECT to
  that host and port as a tunnel, which such a rule never allows, and answers 403.\<close>

theorem cli_check_gaps:
  "fst (cmdCheck root_env plain_casemap (\<lambda>_. Some pathless) (check_args raw)) = exitOK
   \<and> (\<exists>q rec msg. effects st (handleHTTP H plain_casemap root_gate ue (asking pathless) st)
        = [Asked q, Audited rec, Refused 403 msg])
   \<and> fst (cmdCheck root_env plain_casemap (\<lambda>_. Some big_port) (check_args raw)) = exitOK
   \<and> (\<exists>rec msg. effects st (handleHTTP H plain_casemap root_gate ue (asking big_port) st)
        = [Audited rec, Refused 400 msg])
   \<and> fst (cmdCheck root_env plain_casemap (\<lambda>_. Some rooted_url) (connect_args raw)) = exitOK
   \<and> (\<exists>rec msg. effects st (ServeHTTP H plain_casemap cfg root_gate ue ce tunnelling st)
        = [Asked (connect_question ''api.example.com'' 80), Audited rec, Refused 403 msg])"
proof -
  have "IsAbs pathless" "request_port pathless = Some 80" "snd (normalisedPath plain_casemap pathless)"
    "d_action (ge_eval root_gate (http_question (asking pathless) 80)) \<noteq> Allow"
    by code_simp+
  then have "\<exists>q rec msg. effects st (handleHTTP H plain_casemap root_gate ue (asking pathless) st)
      = [Asked q, Audited rec, Refused 403 msg]"
    by (auto simp: handleHTTP_def effects_def Let_def asking_def split: prod.splits)
  moreover have "IsAbs big_port" "request_port big_port = None"
    using big_port_facts big_port_overflows by (simp_all add: request_port_def)
  then have "\<exists>rec msg. effects st (handleHTTP H plain_casemap root_gate ue (asking big_port) st)
      = [Audited rec, Refused 400 msg]"
    by (auto simp: handleHTTP_def effects_def Let_def asking_def)
  ultimately show ?thesis using check_gap_exits check_connect_exit tunnelling_refused by blast
qed

end
