(* ===== verification/Stop.thy ===== *)
theory Stop
  imports SystemProps CliProps
begin

text \<open>
  How the gate stops: \<open>cmdServe\<close> shuts its servers down, then the tunnels, then reads the head. What
  can still reach the log once it has, what is lost then, and a whole run of \<open>serve\<close> around a
  concurrent gate, from its start on a file to what \<open>verify\<close> says of that file.
\<close>

section \<open>The servers\<close>

text \<open>
  \<open>http.Server\<close> tracks a request until its handler returns, or takes the connection over. A server
  whose \<open>Shutdown\<close> returned nil tracks none and accepts none. In between a hijack and the
  registration of the tunnel nobody tracks it.
\<close>

definition tracked :: "task \<Rightarrow> bool" where
  "tracked t \<longleftrightarrow> tk_prog t \<noteq> Return \<and> Hijacked \<notin> set (tk_trace t)"

definition drained :: "gate \<Rightarrow> bool" where
  "drained g \<longleftrightarrow> list_all (\<lambda>t. \<not> tracked t) (g_tasks g)"

definition half_open :: "task \<Rightarrow> bool" where
  "half_open t \<longleftrightarrow> Hijacked \<in> set (tk_trace t) \<and> tk_tunnel t = None \<and> audits (tk_trace t) = []"

definition gate_calls :: "gate \<Rightarrow> append_call list" where
  "gate_calls g = map (\<lambda>i. task_call (g_tasks g ! i)) (g_order g)"

section \<open>The log only grows\<close>

lemma gate_step_calls:
  assumes "gate_step H cm cfg err g g'" "tunnels_inv g" "log_inv H l g"
  shows "length (g_tasks g) \<le> length (g_tasks g') \<and> (\<exists>os. g_order g' = g_order g @ os)
    \<and> (\<forall>i \<in> set (g_order g). task_call (g_tasks g' ! i) = task_call (g_tasks g ! i))"
  using assms
proof (induction rule: gate_step.induct)
  case (arrives g x)
  then show ?case by (auto simp: log_inv_def nth_append)
next
  case (serves i g sh t)
  then have "task_typed (sh_tunnels (g_shared g)) (g_tasks g ! i)" by (simp add: tunnels_inv_def)
  from recorded_once [OF serves(2) this] have
    "audits (tk_trace (g_tasks g ! i)) \<noteq> [] \<Longrightarrow> task_call t = task_call (g_tasks g ! i)"
    by (auto simp: task_call_def)
  then have "task_call ((g_tasks g)[i := t] ! j) = task_call (g_tasks g ! j)" if "j \<in> set (g_order g)" for j
    using that serves(1,4) by (cases "j = i") (auto simp: log_inv_def)
  then show ?case by (auto simp: advance_def)
qed simp_all

lemma gate_run_calls:
  assumes "gate_reachable H cm cfg err g g'" "tunnels_inv g" "log_inv H l g"
  shows "tunnels_inv g' \<and> log_inv H l g' \<and> length (g_tasks g) \<le> length (g_tasks g')
    \<and> (\<exists>os. g_order g' = g_order g @ os)
    \<and> (\<forall>i \<in> set (g_order g). task_call (g_tasks g' ! i) = task_call (g_tasks g ! i))"
  using assms(1)
proof (induction rule: gate_reachable.induct)
  case start
  then show ?case using assms(2,3) by simp
next
  case (step h h')
  then have inv: "tunnels_inv h" "log_inv H l h" by blast+
  with gate_step_calls [OF step(2) inv] tunnels_inv_step [OF step(2)] log_inv_step [OF step(2)] step(3)
  show ?case by fastforce
qed

text \<open>A later log with no more records than an earlier one is the earlier one.\<close>

lemma same_order_same_log:
  assumes "gate_reachable H cm cfg err g g'" "tunnels_inv g" "log_inv H l g" "g_order g' = g_order g"
  shows "sh_log (g_shared g') = sh_log (g_shared g) \<and> gate_calls g' = gate_calls g"
proof -
  have "map (\<lambda>i. task_call (g_tasks g' ! i)) (g_order g') = map (\<lambda>i. task_call (g_tasks g ! i)) (g_order g)"
    using gate_run_calls [OF assms(1-3)] assms(4) by simp
  then show ?thesis using gate_run_calls [OF assms(1-3)] assms(3) by (simp add: log_inv_def gate_calls_def)
qed

lemma gate_calls_clean:
  assumes "log_inv H l g" "list_all task_clean (g_tasks g)"
  shows "list_all clean_call (gate_calls g)"
proof -
  have "clean_call (task_call (g_tasks g ! i))" if "i \<in> set (g_order g)" for i
    using assms that by (intro task_clean_call) (auto simp: log_inv_def list_all_iff)
  then show ?thesis by (simp add: gate_calls_def list_all_iff)
qed

section \<open>Who is left when the head is read\<close>

lemma unrecorded_half_open:
  assumes inv: "tunnels_inv g" and d: "drained g" "sd_shut (sh_tunnels (g_shared g)) = Returned None"
    and i: "i < length (g_tasks g)" "audits (tk_trace (g_tasks g ! i)) = []"
  shows "half_open (g_tasks g ! i)"
proof -
  let ?t = "g_tasks g ! i" and ?u = "sh_tunnels (g_shared g)"
  obtain ph where ph: "typed (tk_prog ?t) ph" "in_phase ?u ?t ph"
    using inv i(1) unfolding tunnels_inv_def task_typed_def by (metis nth_mem)
  have "live_at (sd_pc ?u) = {}"
    using sd_reachable_inv [of ?u] inv d(2) by (simp add: tunnels_inv_def sd_inv_def)
  then have "sd_pc ?u n \<noteq> Running" for n by (auto simp: live_at_def live_pc_def)
  with ph(2) i(2) have "tk_tunnel ?t = None \<and> ph \<noteq> Settled \<and> (\<forall>pc. ph \<noteq> Holding pc)"
    by (cases ph) (auto simp: in_phase_simps split: if_splits)
  moreover from this ph(1) have "tk_prog ?t \<noteq> Return" by auto
  then have "Hijacked \<in> set (tk_trace ?t)" using d(1) i(1) by (auto simp: drained_def tracked_def list_all_length)
  ultimately show ?thesis using i(2) by (simp add: half_open_def)
qed

lemma nothing_half_open:
  assumes run: "gate_reachable H cm cfg err g g'" "length (g_tasks g') = length (g_tasks g)"
    and inv: "tunnels_inv g" "log_inv H l g"
    and d: "drained g" "sd_shut (sh_tunnels (g_shared g)) = Returned None" "list_all (\<lambda>t. \<not> half_open t) (g_tasks g)"
  shows "set (g_order g) = {..<length (g_tasks g)} \<and> g_order g' = g_order g
    \<and> sh_log (g_shared g') = sh_log (g_shared g) \<and> gate_calls g' = gate_calls g"
proof -
  note later = gate_run_calls [OF run(1) inv]
  have all: "set (g_order g) = {..<length (g_tasks g)}"
    using inv(2) unrecorded_half_open [OF inv(1) d(1,2)] d(3) by (auto simp: log_inv_def list_all_length)
  obtain os where os: "g_order g' = g_order g @ os" using later by blast
  have "set (g_order g') \<subseteq> set (g_order g)" "distinct (g_order g')"
    using later run(2) unfolding log_inv_def all by auto
  with os have "g_order g' = g_order g" by (cases os) auto
  with all same_order_same_log [OF run(1) inv] show ?thesis by simp
qed

section \<open>A run of \<open>serve\<close>\<close>

text \<open>
  The gate of one run: \<open>g1\<close> when serving ends, \<open>g2\<close> when the head is read, \<open>g3\<close> when the process is
  gone. Its appends are those the environment of \<open>cmdServe\<close> speaks of.
\<close>

definition gate_of_run ::
  "casemap \<Rightarrow> (load_error \<Rightarrow> string) \<Rightarrow> serve_env \<Rightarrow> serve_opts \<Rightarrow> store \<Rightarrow> audit_log
     \<Rightarrow> gate \<Rightarrow> gate \<Rightarrow> gate \<Rightarrow> bool" where
  "gate_of_run cm err env ops s l g1 g2 g3 \<longleftrightarrow>
     (let run = gate_reachable sha256_hex cm (h_cfg (proxy_New (serve_config ops))) err
      in run (gate_init s l metrics_New) g1 \<and> run g1 g2 \<and> run g2 g3
         \<and> sd_shut (sh_tunnels (g_shared g1)) = Idle
         \<and> sd_shut (sh_tunnels (g_shared g2)) = Returned (se_stranded env)
         \<and> length (g_tasks g3) = length (g_tasks g2)
         \<and> gate_calls g1 = se_calls env \<and> gate_calls g2 = se_calls env @ se_closing env
         \<and> gate_calls g3 = all_calls env)"

section \<open>Properties\<close>

text \<open>C15. What can still come after the head. Once both servers have shut down and the tunnels'
  shutdown has returned nil, the only requests without a record are tunnels between the hijack and
  their registration; whatever is recorded later never held a tunnel; and if there is no such
  request, every request has its record and the log, hence its head, is final.\<close>

theorem stop_head_final:
  assumes "gate_reachable H cm cfg err (gate_init s l m) g" "valid_policy (st_current s)"
    and "drained g" "sd_shut (sh_tunnels (g_shared g)) = Returned None"
    and "gate_reachable H cm cfg err g g'" "length (g_tasks g') = length (g_tasks g)"
  shows "(\<forall>i < length (g_tasks g). i \<notin> set (g_order g) \<longrightarrow> half_open (g_tasks g ! i))
    \<and> (\<forall>i \<in> set (g_order g') - set (g_order g). tk_tunnel (g_tasks g' ! i) = None)
    \<and> (list_all (\<lambda>t. \<not> half_open t) (g_tasks g) \<longrightarrow>
        set (g_order g) = {..<length (g_tasks g)} \<and> sh_log (g_shared g') = sh_log (g_shared g))"
proof -
  have inv: "tunnels_inv g" "log_inv H l g" using reachable_inv [OF assms(1,2)] by blast+
  have "half_open (g_tasks g ! i)" if "i < length (g_tasks g)" "i \<notin> set (g_order g)" for i
    using that inv(2) unrecorded_half_open [OF inv(1) assms(3,4) that(1)] by (simp add: log_inv_def)
  moreover have "tk_tunnel (g_tasks g' ! i) = None" if "i \<in> set (g_order g') - set (g_order g)" for i
  proof -
    have "i < length (g_tasks g')" using that gate_run_calls [OF assms(5) inv] by (auto simp: log_inv_def)
    with shutdown_final [OF assms(1,2,4,5)] that show ?thesis by (cases "tk_tunnel (g_tasks g' ! i)") auto
  qed
  ultimately show ?thesis using nothing_half_open [OF assms(5,6) inv assms(3,4)] by blast
qed

text \<open>C2. A run of \<open>serve\<close>, end to end. Whatever the requests, however they interleave with each other,
  with reloads and with the stop: if the run exits 0, its texts are valid UTF-8 and a write goes out
  whole or not at all, the servers shut down in time, no tunnel was stranded and none was half open,
  then every request has its record; the file holds the records from before and, in the order of the
  appends, those whose write went out; \<open>verify\<close> accepts it with exit code 0 and counts them; and the
  head it reports is the one \<open>serve\<close> printed.\<close>

theorem serve_whole:
  assumes "flag_Parse (serve_flags dur) serve_defaults args = Some (ops, rest)" "so_audit ops \<noteq> []"
    and "sr_exit (cmdServe sha256_hex dur env args) = exitOK"
    and "load_policy env ops = Inr (store, source)" "open_log sha256_hex env ops = (fl, notes, Inr l)"
    and "gate_of_run cm err env ops store l g1 g2 g3" "list_all task_clean (g_tasks g3)"
    and "se_stranded env = None" "drained g2" "list_all (\<lambda>t. \<not> half_open t) (g_tasks g2)"
    and "old = log_records (case se_file env of None \<Rightarrow> [] | Some s0 \<Rightarrow> s0)"
  shows "set (g_order g3) = {..<length (g_tasks g3)}
    \<and> (\<exists>before s head seq.
      sr_events (cmdServe sha256_hex dur env args) =
        before @ [Ready False, ServersShutDown, TunnelsShutDown None, HeadPrinted head seq,
                  LogClosed (se_close_log env)]
      \<and> sr_file (cmdServe sha256_hex dur env args) = Some s
      \<and> map payload (log_records s) = map payload old @ map payload (g_written g3)
      \<and> cmdVerify sha256_hex (\<lambda>_. Inr (s, None)) verify_args =
          (exitOK, [ChainIntact (length old + length (g_written g3)), HeadIs head]))"
proof -
  let ?run = "gate_reachable sha256_hex cm (h_cfg (proxy_New (serve_config ops))) err"
  have r: "?run (gate_init store l metrics_New) g2" "?run g2 g3" "length (g_tasks g3) = length (g_tasks g2)"
    "sd_shut (sh_tunnels (g_shared g2)) = Returned None"
    "gate_calls g2 = se_calls env @ se_closing env" "gate_calls g3 = all_calls env"
    using assms(6,8) by (auto simp: gate_of_run_def Let_def intro: reachable_trans)
  note valid = load_policy_valid [OF assms(4)]
  have inv: "tunnels_inv g2" "log_inv sha256_hex l g2" using reachable_inv [OF r(1) valid] by blast+
  note fin = nothing_half_open [OF r(2,3) inv assms(9) r(4) assms(10)]
  have late: "se_late env = []" using fin r(5,6) by (simp add: all_calls_def)
  have "log_inv sha256_hex l g3" using gate_run_calls [OF r(2) inv] by blast
  then have clean: "list_all clean_call (all_calls env)"
    using gate_calls_clean assms(7) r(6) by metis
  have "taken (all_calls env) = length (g_written g3)" "sent_payloads (all_calls env) = map payload (g_written g3)"
    using g_written_calls [of g3] r(6) by (simp_all add: gate_calls_def)
  with serve_verifies [OF assms(1-3) clean assms(11)] late fin r(3) assms(8) show ?thesis by fastforce
qed

section \<open>Runs that stop\<close>

text \<open>A gate with one request in flight that has done these things and holds no tunnel.\<close>

definition lone_at :: "exchange \<Rightarrow> prog \<Rightarrow> effect list \<Rightarrow> gate \<Rightarrow> bool" where
  "lone_at x p es g \<longleftrightarrow> lone x p g \<and> tk_trace (g_tasks g ! 0) = es \<and> tk_tunnel (g_tasks g ! 0) = None"

lemma lone_at_new: "\<exists>g. lone_at x (serve_prog plain_casemap DefaultConfig x) [] g"
proof -
  let ?g = "sample_init\<lparr>g_tasks := g_tasks sample_init @ [new_task plain_casemap DefaultConfig x]\<rparr>"
  have "sample_reachable sample_init ?g"
    by (rule gate_reachable.step [OF gate_reachable.start gate_step.arrives])
  then have "lone_at x (serve_prog plain_casemap DefaultConfig x) [] ?g"
    by (simp add: lone_at_def lone_def gate_init_def new_task_def sd_init_def)
  then show ?thesis by blast
qed

lemma lone_at_step:
  assumes "lone_at x p es g"
    and "task_step sha256_hex plain_casemap DefaultConfig (g_shared g) (g_tasks g ! 0) sh (goes p' es' (g_tasks g ! 0))"
  shows "\<exists>g'. lone_at x p' (es @ es') g'"
proof -
  from assms(1) have l: "lone x p g" by (simp add: lone_at_def)
  from lone_step [OF l assms(2)] assms(1) show ?thesis by (auto simp: lone_at_def)
qed

lemma lone_at_ask:
  "lone_at x (Ask q k) es g \<Longrightarrow>
     \<exists>g'. lone_at x (k (store_Evaluate plain_casemap (NewStore sample_policy) q)) (es @ [Asked q]) g'"
  using lone_at_step [OF _ task_step.judged, of x "Ask q k" es g q k] by (auto simp: lone_at_def lone_def)

lemma lone_at_act: "lone_at x (Act e p) es g \<Longrightarrow> \<exists>g'. lone_at x p (es @ [e]) g'"
  using lone_at_step [OF _ task_step.acted, of x "Act e p" es g e p] by (auto simp: lone_at_def lone_def)

lemma lone_at_closing: "lone_at x (AskClosing k) es g \<Longrightarrow> \<exists>g'. lone_at x (k False) es g'"
  using lone_at_step [OF _ task_step.checked, of x "AskClosing k" es g k] lone_open(2) [of x "AskClosing k" g]
  by (auto simp: lone_at_def lone_def isClosing_def)

text \<open>Nothing is registered, so the tunnels' shutdown returns nil at once.\<close>

lemma lone_at_stop:
  assumes "lone_at x p es g"
  shows "\<exists>g'. sample_reachable sample_init g' \<and> g_tasks g' = g_tasks g \<and> g_order g' = g_order g
    \<and> sd_shut (sh_tunnels (g_shared g')) = Returned None"
proof -
  let ?u = "sh_tunnels (g_shared g)"
  have l: "sample_reachable sample_init g" "length (g_tasks g) = 1" "sd_shut ?u = Idle" "tk_tunnel (g_tasks g ! 0) = None"
    using assms by (auto simp: lone_at_def lone_def)
  have "tunnels_inv g" using sample_inv [OF l(1)] by blast
  then have "sd_pc ?u n = NotStarted" for n
    using l(2,4) unfolding tunnels_inv_def by (metis in_set_conv_nth less_one option.distinct(1))
  then have "holding ?u = {}" by (simp add: live_at_def live_pc_def)
  moreover have "sd_inv ?u" using lone_open(1) [of x p g] assms by (simp add: lone_at_def)
  moreover have "outcome Idle = None" by (simp add: outcome_def)
  ultimately obtain u where "sd_only\<^sup>*\<^sup>* ?u u" "sd_shut u = Returned None"
    using shutdown_drains_any l(3) by metis
  with reachable_trans [OF l(1) shuts_reachable] show ?thesis
    by (intro exI [of _ "g\<lparr>g_shared := (g_shared g)\<lparr>sh_tunnels := u\<rparr>\<rparr>"]) simp
qed

lemma lone_at_window:
  assumes "lone_at x p es g" "audits es = []"
  shows "\<exists>g1 g2. sample_reachable sample_init g1 \<and> g_tasks g1 = g_tasks g
    \<and> sd_shut (sh_tunnels (g_shared g1)) = Returned None \<and> 0 \<notin> set (g_order g1)
    \<and> sample_reachable g1 g2 \<and> length (g_tasks g2) = length (g_tasks g1) \<and> 0 \<in> set (g_order g2)"
proof -
  have l: "length (g_tasks g) = 1" "audits (tk_trace (g_tasks g ! 0)) = []"
    using assms by (auto simp: lone_at_def lone_def)
  obtain g1 where g1: "sample_reachable sample_init g1" "g_tasks g1 = g_tasks g"
    "sd_shut (sh_tunnels (g_shared g1)) = Returned None"
    using lone_at_stop [OF assms(1)] by blast
  note inv = sample_inv [OF g1(1)]
  have n: "0 \<notin> set (g_order g1)" using inv g1(2) l(2) by (simp add: log_inv_def)
  obtain g2 where g2: "sample_reachable g1 g2" "length (g_tasks g2) = length (g_tasks g1)"
    "\<forall>t \<in> set (g_tasks g2). tk_prog t = Return"
    using gate_can_end [of g1] inv by blast
  have "set (g_order g2) = {..<length (g_tasks g2)}"
    using order_at_rest [OF _ _ g2(3)] sample_inv [OF reachable_trans [OF g1(1) g2(1)]] by blast
  then have "0 \<in> set (g_order g2)" using g2(2) g1(2) l(1) by simp
  with g1 g2 n show ?thesis by blast
qed

text \<open>A plain request the upstream has not answered.\<close>

definition plain_exchange :: exchange where
  "plain_exchange = (sample_gate, sample_upstream, sample_world, sample_request)"

lemma plain_program:
  "\<exists>q k p. serve_prog plain_casemap DefaultConfig plain_exchange = Ask q k
    \<and> k (store_Evaluate plain_casemap (NewStore sample_policy) q) = Act (RoundTrip (forwarded sample_request)) p"
proof -
  have "d_action (store_Evaluate plain_casemap (NewStore sample_policy) (http_question sample_request 80)) = Allow"
    using sample_http_parts(4) by (simp add: sample_gate_def)
  moreover have "hr_method sample_request \<noteq> ''CONNECT''" "IsAbs (hr_url sample_request)"
    by (simp_all add: sample_request_def IsAbs_def)
  ultimately show ?thesis
    using sample_http_parts(1,3)
    by (simp add: plain_exchange_def serve_prog_def http_prog_def forward_prog_def Let_def)
qed

lemma plain_run: "\<exists>p es g. lone_at plain_exchange p es g \<and> RoundTrip (forwarded sample_request) \<in> set es \<and> audits es = []"
proof -
  obtain q k p where prog: "serve_prog plain_casemap DefaultConfig plain_exchange = Ask q k"
    "k (store_Evaluate plain_casemap (NewStore sample_policy) q) = Act (RoundTrip (forwarded sample_request)) p"
    using plain_program by blast
  obtain g0 where "lone_at plain_exchange (Ask q k) [] g0" using lone_at_new [of plain_exchange] prog(1) by auto
  from lone_at_ask [OF this] prog(2) lone_at_act
  obtain g where "lone_at plain_exchange p ([] @ [Asked q] @ [RoundTrip (forwarded sample_request)]) g"
    by (metis append_assoc)
  then show ?thesis by fastforce
qed

text \<open>A tunnel whose 200 has gone out, not yet registered.\<close>

lemma half_open_run:
  "\<exists>p es g. lone_at tunnel_exchange p es g \<and> Hijacked \<in> set es \<and> Wrote established \<in> set es \<and> audits es = []"
proof -
  obtain q k k' e k'' where p: "serve_prog plain_casemap DefaultConfig tunnel_exchange = Ask q k"
    "k (store_Evaluate plain_casemap (NewStore sample_policy) q) = AskClosing k'"
    "k' False = Act e (Act Hijacked (Act (Wrote established) (Register k'')))" "audits [e] = []"
    using tunnel_program by blast
  obtain g0 where "lone_at tunnel_exchange (Ask q k) [] g0" using lone_at_new [of tunnel_exchange] p(1) by auto
  from lone_at_ask [OF this] p(2) obtain g1 where "lone_at tunnel_exchange (AskClosing k') [Asked q] g1" by auto
  from lone_at_closing [OF this] p(3) obtain g2 where
    "lone_at tunnel_exchange (Act e (Act Hijacked (Act (Wrote established) (Register k'')))) [Asked q] g2" by auto
  from lone_at_act [OF this] obtain g3 where
    "lone_at tunnel_exchange (Act Hijacked (Act (Wrote established) (Register k''))) [Asked q, e] g3" by auto
  from lone_at_act [OF this] obtain g4 where
    "lone_at tunnel_exchange (Act (Wrote established) (Register k'')) [Asked q, e, Hijacked] g4" by auto
  from lone_at_act [OF this] obtain g where
    "lone_at tunnel_exchange (Register k'') [Asked q, e, Hijacked, Wrote established] g" by auto
  moreover have "audits [Asked q, e, Hijacked, Wrote established] = []"
    using p(4) audits_append [of "[e]" "[Hijacked, Wrote established]"] by simp
  ultimately show ?thesis by fastforce
qed

text \<open>C16. What an orderly stop can lose. \<open>cmdServe\<close> discards what the servers' \<open>Shutdown\<close> returns, so
  the head can be read, after a nil from the tunnels' shutdown, while a plain request that went out
  to its upstream has no record; and, between a hijack and the registration of the tunnel, even when
  both servers had shut down. In both cases the process may exit before that record is written, and
  if it does not, the record comes after the head.\<close>

theorem stop_windows:
  "(\<exists>g1 g2. sample_reachable sample_init g1 \<and> sd_shut (sh_tunnels (g_shared g1)) = Returned None
      \<and> RoundTrip (forwarded sample_request) \<in> set (tk_trace (g_tasks g1 ! 0)) \<and> 0 \<notin> set (g_order g1)
      \<and> sample_reachable g1 g2 \<and> length (g_tasks g2) = length (g_tasks g1) \<and> 0 \<in> set (g_order g2))
   \<and> (\<exists>g1 g2. sample_reachable sample_init g1 \<and> sd_shut (sh_tunnels (g_shared g1)) = Returned None \<and> drained g1
      \<and> Wrote established \<in> set (tk_trace (g_tasks g1 ! 0)) \<and> 0 \<notin> set (g_order g1)
      \<and> sample_reachable g1 g2 \<and> length (g_tasks g2) = length (g_tasks g1) \<and> 0 \<in> set (g_order g2))"
proof
  obtain p es g where g: "lone_at plain_exchange p es g" "RoundTrip (forwarded sample_request) \<in> set es" "audits es = []"
    using plain_run by blast
  then have "RoundTrip (forwarded sample_request) \<in> set (tk_trace (g_tasks g ! 0))" by (simp add: lone_at_def)
  with lone_at_window [OF g(1,3)] show "\<exists>g1 g2. sample_reachable sample_init g1
      \<and> sd_shut (sh_tunnels (g_shared g1)) = Returned None
      \<and> RoundTrip (forwarded sample_request) \<in> set (tk_trace (g_tasks g1 ! 0)) \<and> 0 \<notin> set (g_order g1)
      \<and> sample_reachable g1 g2 \<and> length (g_tasks g2) = length (g_tasks g1) \<and> 0 \<in> set (g_order g2)"
    by (metis (no_types, lifting))
next
  obtain p es g where g: "lone_at tunnel_exchange p es g" "Hijacked \<in> set es" "Wrote established \<in> set es" "audits es = []"
    using half_open_run by blast
  then have t: "Hijacked \<in> set (tk_trace (g_tasks g ! 0))" "Wrote established \<in> set (tk_trace (g_tasks g ! 0))"
    "length (g_tasks g) = 1" by (simp_all add: lone_at_def lone_def)
  then have "list_all (\<lambda>t. \<not> tracked t) (g_tasks g)" by (simp add: list_all_length tracked_def)
  with lone_at_window [OF g(1,4)] t(2) show "\<exists>g1 g2. sample_reachable sample_init g1
      \<and> sd_shut (sh_tunnels (g_shared g1)) = Returned None \<and> drained g1
      \<and> Wrote established \<in> set (tk_trace (g_tasks g1 ! 0)) \<and> 0 \<notin> set (g_order g1)
      \<and> sample_reachable g1 g2 \<and> length (g_tasks g2) = length (g_tasks g1) \<and> 0 \<in> set (g_order g2)"
    unfolding drained_def by (metis (no_types, lifting))
qed

theorem stop_head_final_witness:
  "\<exists>g. sample_reachable sample_init g \<and> drained g \<and> sd_shut (sh_tunnels (g_shared g)) = Returned None
    \<and> half_open (g_tasks g ! 0)"
proof -
  obtain p es g where g: "lone_at tunnel_exchange p es g" "Hijacked \<in> set es" "audits es = []"
    using half_open_run by blast
  obtain g1 where g1: "sample_reachable sample_init g1" "g_tasks g1 = g_tasks g"
    "sd_shut (sh_tunnels (g_shared g1)) = Returned None" "0 \<notin> set (g_order g1)"
    using lone_at_window [OF g(1,3)] by blast
  have l: "length (g_tasks g1) = 1" "drained g1"
    using g(1,2) g1(2) by (simp_all add: lone_at_def lone_def drained_def tracked_def list_all_length)
  then have "0 < length (g_tasks g1)" by simp
  with stop_head_final [OF g1(1) sample_store_valid l(2) g1(3) gate_reachable.start refl] g1 l(2) show ?thesis by blast
qed

section \<open>A run of \<open>serve\<close> with one request\<close>

lemma task_step_in: "task_step H cm cfg sh t sh' t' \<Longrightarrow> tk_in t' = tk_in t"
  by (induction rule: task_step.induct) simp_all

lemma gate_run_in:
  assumes "gate_reachable H cm cfg err g g'" "i < length (g_tasks g)"
  shows "i < length (g_tasks g') \<and> tk_in (g_tasks g' ! i) = tk_in (g_tasks g ! i)"
  using assms(1)
proof (induction rule: gate_reachable.induct)
  case (step h h')
  from step(2,3) show ?case
  proof (induction rule: gate_step.induct)
    case (serves j h sh t)
    then show ?case using task_step_in [OF serves(2)] by (cases "j = i") (simp_all add: advance_def)
  qed (simp_all add: nth_append)
qed (use assms(2) in simp)

lemma origin_clean:
  assumes "task_ok plain_casemap DefaultConfig t" "task_typed u t" "tk_in t = origin_exchange" "tk_prog t = Return"
  shows "task_clean t"
proof -
  obtain rec p where p: "serve_prog plain_casemap DefaultConfig origin_exchange = AppendRecord rec p" "utf8_record rec"
    using origin_program by blast
  have "runs (evaluators plain_casemap) (pump_answers DefaultConfig origin_exchange) (AppendRecord rec p)
      (tk_trace t) (tk_meters t)"
    using assms(1,3,4) p(1) by (fastforce simp: task_ok_def)
  then obtain es where "tk_trace t = Audited rec # es" by auto
  with task_typed_audits [OF assms(2)] have "audits (tk_trace t) = [rec]" by simp
  with p(2) show ?thesis
    by (simp add: task_clean_def assms(3) origin_exchange_def sample_gate_def whole_write_def)
qed

lemma serve_ops_config: "h_cfg (proxy_New (serve_config serve_ops)) = DefaultConfig"
  by code_simp

abbreviation sample_stop :: "append_call list \<Rightarrow> serve_env" where
  "sample_stop cs \<equiv> (sample_serve (Some ''{''))\<lparr>se_calls := [], se_closing := cs\<rparr>"

lemma sample_stop_starts:
  "load_policy (sample_stop cs) serve_ops =
     Inr (\<lparr>st_current = sample_policy, st_source = ''policy.yaml''\<rparr>, ''policy.yaml'')"
  "undisturbed (sample_stop cs)" "se_file (sample_stop cs) = Some ''{''" "se_stranded (sample_stop cs) = None"
  using sample_load by (simp_all add: load_policy_def sample_serve_def undisturbed_def calm_env)

lemma sample_stop_exit: "sr_exit (cmdServe sha256_hex dur (sample_stop cs) serve_args) = exitOK"
  using serve_undisturbed [OF serve_args_parse _ _ sample_stop_starts(1-3) brace_verifies(1)]
  by (simp add: start_result_def)

lemma sample_stop_log: "\<exists>fl ns l. \<forall>cs. open_log sha256_hex (sample_stop cs) serve_ops = (fl, ns, Inr l)"
proof -
  have "\<exists>fl ns hs. existingChainHead sha256_hex calm_env (Some ''{'') = (fl, ns, Inr hs)"
    using existingChainHead_calm [OF calm_env brace_verifies(1)] by (simp add: start_result_def)
  then show ?thesis by (fastforce simp: open_log_def sample_serve_def Let_def)
qed

lemma lone_order:
  assumes "log_inv H l g" "policy_inv cm cfg g" "length (g_tasks g) = 1" "\<forall>t \<in> set (g_tasks g). tk_prog t = Return"
  shows "g_order g = [0]"
proof -
  have "distinct (g_order g)" "set (g_order g) = {0}"
    using order_at_rest [OF assms(1,2,4)] assms(1,3) by (auto simp: log_inv_def lessThan_Suc)
  then show ?thesis using distinct_card [of "g_order g"] by (cases "g_order g") (auto simp: subset_singleton_iff)
qed

text \<open>One request to a started gate, which is then stopped.\<close>

lemma stopped_run:
  assumes "valid_policy (st_current s)"
  shows "\<exists>g1 g2. gate_reachable sha256_hex plain_casemap DefaultConfig err (gate_init s l metrics_New) g1
    \<and> gate_reachable sha256_hex plain_casemap DefaultConfig err g1 g2 \<and> gate_calls g1 = []
    \<and> sd_shut (sh_tunnels (g_shared g1)) = Idle \<and> sd_shut (sh_tunnels (g_shared g2)) = Returned None
    \<and> length (g_written g2) = 1 \<and> length (gate_calls g2) = 1
    \<and> list_all task_clean (g_tasks g2) \<and> drained g2 \<and> list_all (\<lambda>t. \<not> half_open t) (g_tasks g2)"
proof -
  let ?run = "gate_reachable sha256_hex plain_casemap DefaultConfig err" and ?g0 = "gate_init s l metrics_New"
  let ?g1 = "?g0\<lparr>g_tasks := g_tasks ?g0 @ [new_task plain_casemap DefaultConfig origin_exchange]\<rparr>"
  have r1: "?run ?g0 ?g1" by (rule gate_reachable.step [OF gate_reachable.start gate_step.arrives])
  have "tunnels_inv ?g1" using reachable_inv [OF r1 assms] by blast
  from gate_can_end [OF this] obtain g2 where g2: "?run ?g1 g2" "length (g_tasks g2) = length (g_tasks ?g1)"
    "\<forall>t \<in> set (g_tasks g2). tk_prog t = Return"
    "sd_shut (sh_tunnels (g_shared g2)) = Returned (outcome (sd_shut (sh_tunnels (g_shared ?g1))))"
    by blast
  have n: "length (g_tasks g2) = 1" using g2(2) by (simp add: gate_init_def)
  have "0 < length (g_tasks ?g1)" by simp
  from gate_run_in [OF g2(1) this] have x: "tk_in (g_tasks g2 ! 0) = origin_exchange"
    by (simp add: gate_init_def new_task_def)
  note inv = reachable_inv [OF reachable_trans [OF r1 g2(1)] assms]
  have o: "g_order g2 = [0]" using lone_order [OF _ _ n g2(3)] inv by blast
  then have a: "audits (tk_trace (g_tasks g2 ! 0)) \<noteq> []" using inv unfolding log_inv_def by force
  have t: "g_tasks g2 ! 0 \<in> set (g_tasks g2)" using n by simp
  with inv have "task_ok plain_casemap DefaultConfig (g_tasks g2 ! 0)"
    "task_typed (sh_tunnels (g_shared g2)) (g_tasks g2 ! 0)"
    by (simp_all add: policy_inv_def tunnels_inv_def)
  from origin_clean [OF this x] g2(3) t have c: "task_clean (g_tasks g2 ! 0)" by blast
  have "ge_write (fst origin_exchange) = WriteOK" by (simp add: origin_exchange_def sample_gate_def)
  then have "length (g_written g2) = 1" using o x by (simp add: g_written_def)
  moreover have "list_all (\<lambda>t. task_clean t \<and> \<not> tracked t \<and> \<not> half_open t) (g_tasks g2)"
    using n c a g2(3) t by (simp add: list_all_length tracked_def half_open_def)
  moreover have "sd_shut (sh_tunnels (g_shared ?g1)) = Idle" "gate_calls ?g1 = []"
    by (simp_all add: gate_init_def sd_init_def gate_calls_def)
  ultimately show ?thesis
    using r1 g2(1,4) o by (intro exI [of _ ?g1] exI [of _ g2]) (simp add: outcome_def gate_calls_def drained_def list_all_iff)
qed

theorem serve_whole_witness:
  "\<exists>cs s head. length cs = 1 \<and> sr_file (cmdServe sha256_hex (\<lambda>_. None) (sample_stop cs) serve_args) = Some s
    \<and> cmdVerify sha256_hex (\<lambda>_. Inr (s, None)) verify_args = (exitOK, [ChainIntact 1, HeadIs head])"
proof -
  let ?s = "\<lparr>st_current = sample_policy, st_source = ''policy.yaml''\<rparr>"
  obtain fl ns l where l: "\<And>cs. open_log sha256_hex (sample_stop cs) serve_ops = (fl, ns, Inr l)"
    using sample_stop_log by blast
  have "valid_policy (st_current ?s)" by (simp add: sample_valid)
  from stopped_run [OF this] obtain g1 g2 where g:
    "gate_reachable sha256_hex plain_casemap DefaultConfig (\<lambda>_. []) (gate_init ?s l metrics_New) g1"
    "gate_reachable sha256_hex plain_casemap DefaultConfig (\<lambda>_. []) g1 g2" "gate_calls g1 = []"
    "sd_shut (sh_tunnels (g_shared g1)) = Idle" "sd_shut (sh_tunnels (g_shared g2)) = Returned None"
    "length (g_written g2) = 1" "length (gate_calls g2) = 1" and
    c: "list_all task_clean (g_tasks g2)" "drained g2" "list_all (\<lambda>t. \<not> half_open t) (g_tasks g2)"
    by blast
  let ?env = "sample_stop (gate_calls g2)"
  have "gate_of_run plain_casemap (\<lambda>_. []) ?env serve_ops ?s l g1 g2 g2"
    using g(1-5) gate_reachable.start by (simp add: gate_of_run_def serve_ops_config all_calls_def sample_serve_def)
  from serve_whole [OF serve_args_parse _ sample_stop_exit sample_stop_starts(1) l this c(1) sample_stop_starts(4) c(2,3) refl]
    g(6,7) sample_stop_starts(3) brace_records show ?thesis
    by (intro exI [of _ "gate_calls g2"]) force
qed

end
