(* ===== verification/Process.thy ===== *)
theory Process
  imports Stop
begin

text \<open>
  The process: \<open>main.go\<close>, \<open>signal.go\<close> and the parts of \<open>run.go\<close> around the subcommands. What a
  serving gate waits for, how long its stop takes, and the exit code of the process.
\<close>

section \<open>Waiting\<close>

text \<open>
  What can happen to a serving gate, in the order its \<open>select\<close> takes it: of two channels that are ready
  together Go takes either, so both orders are event lists. A signal it does not ask for is the operating system's
  affair: it is ignored, or it kills the process, which is a crash.
\<close>

datatype os_signal = SIGINT | SIGTERM

datatype world_event =
    ServerReturned "string option"
  | StopClosed
  | Signalled os_signal

text \<open>Which events make the channel ready that \<open>serve\<close> waits on; a test passes its own.\<close>

definition signalContext :: "world_event \<Rightarrow> bool" where
  "signalContext ev = (ev \<in> {Signalled SIGINT, Signalled SIGTERM})"

definition waitForStop :: "bool \<Rightarrow> world_event \<Rightarrow> bool" where
  "waitForStop injected = (if injected then (\<lambda>ev. ev = StopClosed) else signalContext)"

text \<open>The \<open>select\<close> of \<open>cmdServe\<close>: \<open>None\<close> as long as neither channel is ready.\<close>

fun select_stop :: "bool \<Rightarrow> world_event list \<Rightarrow> stop option" where
  "select_stop injected [] = None"
| "select_stop injected (ServerReturned (Some e) # evs) = Some (ServerError e)"
| "select_stop injected (ServerReturned None # evs) = Some ServerClosed"
| "select_stop injected (ev # evs) =
     (if waitForStop injected ev then Some StopSignal else select_stop injected evs)"

section \<open>The time a stop takes\<close>

text \<open>
  \<open>http.Server.Shutdown\<close> under a deadline, one server after the other: \<open>idle t\<close> is when a server told
  at \<open>t\<close> to stop has no request left. It looks once before it looks at the deadline. Each answer is
  the time of its return and whether it was nil.
\<close>

definition server_Shutdown :: "int \<Rightarrow> int \<Rightarrow> (int \<Rightarrow> int option) \<Rightarrow> int \<times> bool" where
  "server_Shutdown dl t idle =
     (case idle t of
        Some u \<Rightarrow> if u \<le> max t dl then (u, True) else (max t dl, False)
      | None \<Rightarrow> (max t dl, False))"

fun shutdown_under :: "int \<Rightarrow> int \<Rightarrow> (int \<Rightarrow> int option) list \<Rightarrow> int \<times> bool list" where
  "shutdown_under dl t [] = (t, [])"
| "shutdown_under dl t (idle # servers) =
     (case server_Shutdown dl t idle of
        (u, ok) \<Rightarrow> (case shutdown_under dl u servers of (v, oks) \<Rightarrow> (v, ok # oks)))"

definition shutdown :: "int \<Rightarrow> (int \<Rightarrow> int option) list \<Rightarrow> int \<times> bool list" where
  "shutdown now servers = shutdown_under (now + 5 * second) now servers"

text \<open>The deadline \<open>serve\<close> gives \<open>Handler.Shutdown\<close>, which waits in a \<open>select\<close>; \<open>done_at\<close> is when the last tunnel is.\<close>

definition tunnels_waited :: "int \<Rightarrow> int option \<Rightarrow> int \<times> bool" where
  "tunnels_waited now done_at =
     (case done_at of
        Some u \<Rightarrow> if u \<le> now + 5 * second then (max now u, True) else (now + 5 * second, False)
      | None \<Rightarrow> (now + 5 * second, False))"

lemma server_Shutdown_time:
  assumes "\<And>u. idle t = Some u \<Longrightarrow> t \<le> u" "t \<le> dl"
  shows "t \<le> fst (server_Shutdown dl t idle) \<and> fst (server_Shutdown dl t idle) \<le> dl
    \<and> (snd (server_Shutdown dl t idle) \<longleftrightarrow> (\<exists>u \<le> dl. idle t = Some u))"
  using assms by (auto simp: server_Shutdown_def split: option.split)

lemma shutdown_under_time:
  assumes "\<And>idle t u. idle \<in> set servers \<Longrightarrow> idle t = Some u \<Longrightarrow> t \<le> u" "t \<le> dl"
  shows "t \<le> fst (shutdown_under dl t servers) \<and> fst (shutdown_under dl t servers) \<le> dl
    \<and> length (snd (shutdown_under dl t servers)) = length servers"
  using assms
proof (induction servers arbitrary: t)
  case (Cons idle servers)
  obtain u ok where q: "server_Shutdown dl t idle = (u, ok)" by fastforce
  obtain v oks where r: "shutdown_under dl u servers = (v, oks)" by fastforce
  have "t \<le> u \<and> u \<le> dl"
    using server_Shutdown_time [of idle t dl] Cons.prems q by fastforce
  with Cons.IH [of u] Cons.prems q r show ?case by fastforce
qed simp

section \<open>The process\<close>

datatype ending = Serving | Exit nat | Panicked

definition with_stop :: "stop \<Rightarrow> run_env \<Rightarrow> run_env" where
  "with_stop st env = env\<lparr>re_serve := (re_serve env)\<lparr>se_stop := st\<rparr>\<rparr>"

text \<open>Whether these arguments make a gate that gets as far as its wait.\<close>

definition serve_waits :: "(string \<Rightarrow> string) \<Rightarrow> run_env \<Rightarrow> string list \<Rightarrow> bool" where
  "serve_waits H env args =
     (case args of
        [] \<Rightarrow> False
      | cmd # rest \<Rightarrow> cmd = ''serve'' \<and> Ready True \<in> set (sr_events (cmdServe H (re_dur env) (re_serve env) rest)))"

definition run_until :: "(string \<Rightarrow> string) \<Rightarrow> run_env \<Rightarrow> bool \<Rightarrow> world_event list \<Rightarrow> string list \<Rightarrow> ending" where
  "run_until H env injected evs args =
     (if serve_waits H env args then
        (case select_stop injected evs of
           None \<Rightarrow> Serving
         | Some st \<Rightarrow> Exit (runWithStop H (with_stop st env) args))
      else Exit (runWithStop H env args))"

definition run :: "(string \<Rightarrow> string) \<Rightarrow> run_env \<Rightarrow> world_event list \<Rightarrow> string list \<Rightarrow> ending" where
  "run H env evs args = run_until H env False evs args"

text \<open>\<open>os.Args[1:]\<close> panics on an empty argument vector.\<close>

definition main :: "(string \<Rightarrow> string) \<Rightarrow> run_env \<Rightarrow> world_event list \<Rightarrow> string list \<Rightarrow> ending" where
  "main H env evs argv = (case argv of [] \<Rightarrow> Panicked | _ # args \<Rightarrow> run H env evs args)"

section \<open>Exit codes\<close>

definition exit_code :: "nat \<Rightarrow> bool" where
  "exit_code n \<longleftrightarrow> n \<in> {exitOK, exitFail, exitUsage, exitTruncated}"

lemma failure_exit_code: "exit_code (failure_exit e)"
  by (simp add: exit_code_def failure_exit_def split: serve_failure.split)

lemma serve_loop_code: "serve_loop H env source l = (code, es, l') \<Longrightarrow> exit_code code"
  by (auto simp: serve_loop_def Let_def exit_code_def split: stop.splits)

lemma serve_listeners_code: "serve_listeners H env ops source l = (code, es, l') \<Longrightarrow> exit_code code"
  using serve_loop_code
  by (auto simp: serve_listeners_def exit_code_def [of exitFail] split: option.splits prod.splits)

lemma cmdServe_code: "exit_code (sr_exit (cmdServe H dur env args))"
  using serve_listeners_code
  by (simp add: cmdServe_def serve_failed_def failure_exit_code Let_def split: option.split sum.split prod.split)

lemma cmdVerify_code: "exit_code (fst (cmdVerify H files args))"
  by (auto simp: cmdVerify_def verify_report_def exit_code_def Let_def split: option.split sum.split prod.split)

lemma cmdCheck_code: "exit_code (fst (cmdCheck env cm parse_url args))"
  by (auto simp: cmdCheck_def exit_code_def Let_def split: option.split sum.split prod.split list.split)

lemma runWithStop_code: "exit_code (runWithStop H env args)"
  using cmdServe_code cmdVerify_code cmdCheck_code
  by (auto simp: runWithStop_def exit_code_def [of exitUsage] exit_code_def [of exitOK] split: list.split)

section \<open>What decides how a serving gate ends\<close>

lemma open_log_notes: "open_log H env ops = (fl, evs, r) \<Longrightarrow> set evs \<subseteq> range Noted"
  by (auto simp: open_log_def Let_def split: if_splits prod.splits sum.splits option.splits)

lemma serve_ready:
  assumes "Ready True \<in> set (sr_events (cmdServe H dur env args))"
  obtains ops r2 store source fl evs l where
    "flag_Parse (serve_flags dur) serve_defaults args = Some (ops, r2)"
    "(so_policy ops = []) \<noteq> (so_policy_env ops = [])" "load_policy env ops = Inr (store, source)"
    "open_log H env ops = (fl, evs, Inr l)" "se_listen_data env = None" "se_listen_admin env = None"
proof -
  obtain ops r2 where p: "flag_Parse (serve_flags dur) serve_defaults args = Some (ops, r2)"
    using assms by (cases "flag_Parse (serve_flags dur) serve_defaults args") (auto simp: cmdServe_def serve_failed_def)
  have q: "(so_policy ops = []) \<noteq> (so_policy_env ops = [])"
    using assms p by (auto simp: cmdServe_def serve_failed_def split: if_splits)
  obtain store source where s: "load_policy env ops = Inr (store, source)"
    using assms p q by (cases "load_policy env ops") (auto simp: cmdServe_def serve_failed_def)
  obtain fl evs r where o: "open_log H env ops = (fl, evs, r)" by (cases "open_log H env ops")
  have n: "Ready True \<notin> set evs" using open_log_notes [OF o] by auto
  obtain l where l: "r = Inr l"
    using assms p q s o n by (cases r) (auto simp: cmdServe_def serve_failed_def)
  have "se_listen_data env = None \<and> se_listen_admin env = None"
    using assms p q s o n l
    by (auto simp: cmdServe_def serve_listeners_def Let_def split: option.splits if_splits)
  with that [OF p q s o [unfolded l]] show ?thesis by simp
qed

text \<open>The reason of the stop alone: everything before it does not depend on it.\<close>

lemma stop_irrelevant:
  "load_policy (env\<lparr>se_stop := st\<rparr>) = load_policy env" "open_log H (env\<lparr>se_stop := st\<rparr>) = open_log H env"
proof -
  have fields: "se_getenv (env\<lparr>se_stop := st\<rparr>) = se_getenv env" "se_load (env\<lparr>se_stop := st\<rparr>) = se_load env"
    "se_file (env\<lparr>se_stop := st\<rparr>) = se_file env" "se_fe (env\<lparr>se_stop := st\<rparr>) = se_fe env"
    "se_append_open (env\<lparr>se_stop := st\<rparr>) = se_append_open env"
    by simp_all
  show "load_policy (env\<lparr>se_stop := st\<rparr>) = load_policy env" "open_log H (env\<lparr>se_stop := st\<rparr>) = open_log H env"
    unfolding fun_eq_iff load_policy_def open_log_def fields by (rule allI, rule refl)+
qed

definition orderly :: "stop \<Rightarrow> bool" where
  "orderly st = (case st of ServerError e \<Rightarrow> False | _ \<Rightarrow> True)"

lemma serve_stopped:
  assumes "Ready True \<in> set (sr_events (cmdServe H dur env args))"
  shows "sr_exit (cmdServe H dur (env\<lparr>se_stop := st\<rparr>) args) = (if orderly st then exitOK else exitFail)"
    and "(\<exists>head seq. HeadPrinted head seq \<in> set (sr_events (cmdServe H dur (env\<lparr>se_stop := st\<rparr>) args))) = orderly st"
proof -
  obtain ops r2 store source fl evs l where p:
    "flag_Parse (serve_flags dur) serve_defaults args = Some (ops, r2)"
    "(so_policy ops = []) \<noteq> (so_policy_env ops = [])" "load_policy env ops = Inr (store, source)"
    "open_log H env ops = (fl, evs, Inr l)" "se_listen_data env = None" "se_listen_admin env = None"
    using serve_ready [OF assms] by metis
  have n: "HeadPrinted head seq \<notin> set evs" for head seq using open_log_notes [OF p(4)] by auto
  obtain code es l' where q: "serve_loop H (env\<lparr>se_stop := st\<rparr>) source l = (code, es, l')"
    by (cases "serve_loop H (env\<lparr>se_stop := st\<rparr>) source l")
  have "code = (if orderly st then exitOK else exitFail)"
    and "(\<exists>head seq. HeadPrinted head seq \<in> set es) = orderly st"
    using q by (auto simp: serve_loop_def orderly_def Let_def split: stop.splits)
  with p q n show "sr_exit (cmdServe H dur (env\<lparr>se_stop := st\<rparr>) args) = (if orderly st then exitOK else exitFail)"
    and "(\<exists>head seq. HeadPrinted head seq \<in> set (sr_events (cmdServe H dur (env\<lparr>se_stop := st\<rparr>) args))) = orderly st"
    by (auto simp: cmdServe_def serve_listeners_def stop_irrelevant Let_def)
qed

text \<open>The first event that means something to a gate that listens for signals decides.\<close>

definition stop_reason :: "world_event \<Rightarrow> stop" where
  "stop_reason ev =
     (case ev of ServerReturned (Some e) \<Rightarrow> ServerError e | ServerReturned None \<Rightarrow> ServerClosed | _ \<Rightarrow> StopSignal)"

lemma signals_heard [simp]: "waitForStop False (Signalled sig)" "\<not> waitForStop False StopClosed"
  by (cases sig) (simp_all add: waitForStop_def signalContext_def)

lemma select_stop_none: "select_stop False evs = None \<longleftrightarrow> set evs \<subseteq> {StopClosed}"
proof (induction evs)
  case (Cons ev evs)
  then show ?case
  proof (cases ev)
    case (ServerReturned e)
    then show ?thesis by (cases e) simp_all
  qed simp_all
qed simp

lemma select_stop_first: "ev \<noteq> StopClosed \<Longrightarrow> select_stop False (replicate n StopClosed @ ev # later) = Some (stop_reason ev)"
proof (induction n)
  case 0
  then show ?case by (cases ev) (simp_all add: stop_reason_def split: option.split)
qed simp

section \<open>Properties\<close>

text \<open>C36. How the process ends. It goes on serving exactly as long as its arguments have made a gate and
  no server has returned and neither SIGINT nor SIGTERM has come (a stop channel, which it has not,
  does not close); the first of these ends it: a signal with exit code 0, through the orderly stop that prints the
  chain head, a server that fails with 1 and without the head. Whatever the subcommand there are four
  exit codes.\<close>

theorem process_ends:
  "(main H env evs (prog # args) = Serving \<longleftrightarrow> serve_waits H env args \<and> set evs \<subseteq> {StopClosed})
    \<and> (serve_waits H env args \<and> evs = replicate n StopClosed @ ev # later \<and> ev \<noteq> StopClosed \<longrightarrow>
        main H env evs (prog # args) = Exit (if \<exists>e. ev = ServerReturned (Some e) then exitFail else exitOK)
        \<and> ((\<exists>head seq. HeadPrinted head seq \<in>
             set (sr_events (cmdServe H (re_dur env) ((re_serve env)\<lparr>se_stop := stop_reason ev\<rparr>) (tl args))))
           \<longleftrightarrow> \<not> (\<exists>e. ev = ServerReturned (Some e))))
    \<and> (main H env evs (prog # args) = Exit code \<longrightarrow> exit_code code)"
proof -
  have orderly: "orderly (stop_reason ev) \<longleftrightarrow> \<not> (\<exists>e. ev = ServerReturned (Some e))"
    by (auto simp: orderly_def stop_reason_def split: world_event.split option.split)
  have "main H env evs (prog # args) = Exit (if orderly (stop_reason ev) then exitOK else exitFail)
      \<and> (\<exists>head seq. HeadPrinted head seq \<in>
           set (sr_events (cmdServe H (re_dur env) ((re_serve env)\<lparr>se_stop := stop_reason ev\<rparr>) (tl args))))
        = orderly (stop_reason ev)"
    if w: "serve_waits H env args" and st: "evs = replicate n StopClosed @ ev # later" "ev \<noteq> StopClosed"
  proof -
    obtain rest where rest: "args = ''serve'' # rest"
      "Ready True \<in> set (sr_events (cmdServe H (re_dur env) (re_serve env) rest))"
      using w by (auto simp: serve_waits_def split: list.splits)
    note stopped = serve_stopped [OF rest(2), of "stop_reason ev"]
    have "runWithStop H (with_stop (stop_reason ev) env) args = (if orderly (stop_reason ev) then exitOK else exitFail)"
      using stopped(1) by (simp add: runWithStop_def with_stop_def rest(1))
    with w stopped(2) select_stop_first [OF st(2)] show ?thesis
      by (simp add: main_def run_def run_until_def rest(1) st(1))
  qed
  then show ?thesis
    using runWithStop_code
    by (auto simp: orderly main_def run_def run_until_def select_stop_none [symmetric] split: option.splits if_splits)
qed

definition sample_run :: run_env where
  "sample_run = \<lparr>re_files = (\<lambda>_. Inl []), re_parse_url = (\<lambda>_. None), re_dur = (\<lambda>_. None), re_serve = sample_stop []\<rparr>"

lemma sample_run_waits: "serve_waits sha256_hex sample_run (''serve'' # serve_args)"
proof -
  have "so_audit serve_ops \<noteq> []" by simp
  then have "Ready True \<in> set (sr_events (cmdServe sha256_hex (\<lambda>_. None) (sample_stop []) serve_args))"
  proof (rule cmdServe_ok [OF serve_args_parse sample_stop_exit [of "\<lambda>_. None" "[]"]], goal_cases)
    case (1 store source fl evs l l2)
    show ?case unfolding 1(7) by simp
  qed
  then show ?thesis by (simp add: serve_waits_def sample_run_def)
qed

theorem process_ends_witness:
  "main sha256_hex sample_run [Signalled SIGTERM] (''egressgate'' # ''serve'' # serve_args) = Exit exitOK
    \<and> main sha256_hex sample_run [] (''egressgate'' # ''serve'' # serve_args) = Serving"
  using process_ends [of sha256_hex sample_run "[Signalled SIGTERM]" _ "''serve'' # serve_args" 0 "Signalled SIGTERM" "[]"]
    process_ends [of sha256_hex sample_run "[]" _ "''serve'' # serve_args"] sample_run_waits
  by simp

text \<open>The stop takes at most five seconds for both servers and five more for the tunnels; the first
  server is told nil exactly if it has no request left within the first five.\<close>

lemma stop_bounded:
  assumes "\<And>idle t u. idle \<in> set [data, admin] \<Longrightarrow> idle t = Some u \<Longrightarrow> t \<le> u"
    and "shutdown now [data, admin] = (t1, oks)" "tunnels_waited t1 done_at = (t2, ok)"
  shows "now \<le> t1 \<and> t1 \<le> now + 5 * second \<and> t1 \<le> t2 \<and> t2 \<le> now + 10 * second
    \<and> (hd oks \<longleftrightarrow> (\<exists>u \<le> now + 5 * second. data now = Some u))"
proof -
  have data: "\<And>u. data now = Some u \<Longrightarrow> now \<le> u" using assms(1) [of data] by simp
  have "now \<le> t1 \<and> t1 \<le> now + 5 * second"
    using shutdown_under_time [of "[data, admin]" now "now + 5 * second"] assms(1,2)
    by (force simp: shutdown_def second_def)
  moreover have "t1 \<le> t2 \<and> t2 \<le> t1 + 5 * second"
    using assms(3) by (auto simp: tunnels_waited_def second_def split: option.splits if_splits)
  moreover have "hd oks \<longleftrightarrow> (\<exists>u \<le> now + 5 * second. data now = Some u)"
    using server_Shutdown_time [of data now "now + 5 * second", OF data] assms(2)
    by (auto simp: shutdown_def second_def split: prod.splits)
  ultimately show ?thesis by (simp add: second_def)
qed

end
