(* ===== verification/Spec2Isabelle.thy ===== *)
theory Spec2Isabelle
  imports PolicyProps AuditProps ProxyProps IdleProps Process
begin

text \<open>
  A model of the egress gate, its proofs, and what they show. The gate is a forward proxy that
  lets a coding agent out to the hosts a policy allows and writes one hash-chained record for
  every request. The model follows the packages under \<open>src/\<close>.

  Parts and how they interact. The proxy's handler (\<open>internal/proxy\<close>) asks an \<open>Evaluator\<close>, the
  policy store (\<open>internal/policy\<close>), about each request, forwards or tunnels it or refuses it, and
  hands a record to an \<open>Auditor\<close>, the log (\<open>internal/audit\<close>), and counts it (\<open>internal/metrics\<close>).
  The admin plane (\<open>internal/adminsrv\<close>) reloads the store through a \<open>Reloader\<close>. The command line
  (\<open>cmd/egressgate\<close>) builds these, recovers an audit log left on disk, runs the two servers, shuts
  them and the live tunnels down, and verifies logs and policies offline. The three interfaces are
  the locales of the theory \<open>Interfaces\<close>, interpreted on the store and the log.

  Theories, by component:
  \<^item> \<open>Prelude\<close>: errors as sums, traversal, bytes. \<open>GoStrings\<close>, \<open>GoNet\<close>, \<open>GoPath\<close>, \<open>GoJson\<close>,
    \<open>GoFlag\<close>, \<open>Sha256\<close>: what the program uses of Go's packages \<open>strings\<close>, \<open>strconv\<close>, \<open>net\<close>,
    \<open>net/url\<close>, \<open>path\<close>, \<open>encoding/json\<close>, \<open>flag\<close> and \<open>crypto/sha256\<close>.
  \<^item> \<open>Policy\<close>, \<open>PolicyProps\<close>: \<open>policy.go\<close>. Validation, as a traversal that stops at the first
    error in the order of the source, and evaluation, whose loop carries the near miss. The
    properties: the first rule that authorises decides, deny by default, what a tunnel is judged
    by, segment boundaries, wildcard labels, what a parsed policy satisfies.
  \<^item> \<open>Store\<close>: \<open>store.go\<close>. A record of the policy in force and its source; loads, reloads and
    evaluations each touch the atomic pointer once, so a concurrent history is a list of them.
  \<^item> \<open>AuditRecord\<close>, \<open>AuditCodec\<close>: the record of \<open>audit.go\<close> and its JSON, with the decoder's
    treatment of unknown keys, repeated keys and invalid UTF-8. \<open>AuditLog\<close>: \<open>New\<close>, \<open>Resume\<close>,
    \<open>Append\<close>, \<open>Head\<close>, \<open>VerifyFrom\<close>; the state of a log is its writer's bytes, its head and its
    number. \<open>AuditChain\<close>, \<open>AuditVerify\<close>: the chain, and the verifier's answer in terms of the
    records a log's lines hold. \<open>AuditHistory\<close>: runs of \<open>Append\<close> whose writes succeed, fail or
    tear. \<open>AuditTamper\<close>, \<open>AuditGaps\<close>, \<open>AuditProps\<close>: what an accepted log is evidence of, with
    the colliding inputs named where a forgery needs a collision, and where it is not.
  \<^item> \<open>ProxyBase\<close>, \<open>Metrics\<close>, \<open>ProxyHttp\<close>, \<open>Tunnel\<close>, \<open>ProxyConnect\<close>, \<open>ProxyProps\<close>: \<open>proxy.go\<close>,
    \<open>connect.go\<close> and \<open>metrics.go\<close>. A handler is a function on the state \<open>proxy\<close>: the log, the
    metrics, and the trace of the effects it had on the world, in order, deferred calls included.
    What the world answers to one request (policy, clock, writer, upstream, dial, hijack, reads)
    is its environment, so every branch of the source is a branch of the function. The properties
    hold for all environments. \<open>Session\<close>: a gate that serves any list of requests, composed with the
    log: what its file holds at the end.
  \<^item> \<open>Inevitable\<close>: the liveness statements. A state is inevitable if every run comes to it, whatever
    may happen besides, as long as a run does not stop while the program has a step that the world
    cannot hold up; proved from an invariant, a measure and such a step.
  \<^item> \<open>Pump\<close>: the goroutines of \<open>pump\<close> as a step relation over the capped copies of \<open>Tunnel\<close>: a read of a
    copy, a write, which its peer may take in parts or not at all, a store, a send, a receive or a
    close is a step, and \<open>Shutdown\<close> may close the connections at any moment. A returned call amounts
    to the sequential function \<open>pump\<close>, by an invariant that keeps each direction where a plain copy of
    its reads would be; once it is under way to its end (\<open>ending\<close>) its return is inevitable, with the
    steps \<open>pump_must\<close> that no peer can hold up, among those of \<open>pump_unfed\<close>, which read nothing more
    from an open connection.
  \<^item> \<open>IdlePump\<close>, \<open>IdleLive\<close>, \<open>IdleProps\<close>: the \<open>idleReader\<close>s of the two copies and the \<open>idleClock\<close> they
    share, under concurrency, inside \<open>Pump\<close>: setting the deadline, the read that blocks, reading the
    time, storing it, and the test after a timeout are each a step, and time passes between any two.
    Such a run is a run of \<open>Pump\<close>, by a simulation, on the bytes its connections gave; when a read
    times out the time in the clock is an idle period back, and how long ago the last byte was is
    bounded by how far a store lagged behind its read; a tunnel that receives nothing more returns
    within one idle period, except where both copies wait in a write, which has no deadline
    (\<open>laden\<close>, \<open>idle_stuck\<close>). The fields \<open>tm_got\<close> (what a connection has given), \<open>tm_at\<close> (when it last gave
    bytes) and \<open>tm_slack\<close> (the longest lag of a store) are there for the statements only; the clock
    of the machine is assumed not to go back.
  \<^item> \<open>Shutdown\<close>: \<open>registerTunnel\<close>, \<open>unregister\<close> and \<open>Handler.Shutdown\<close> as a step relation, one step
    for each critical section or atomic action, for any number of tunnels. An invariant by rule
    induction, a measure that every effective step of a closing gate decreases, and a progress
    lemma give safety and liveness.
  \<^item> \<open>Admin\<close>: \<open>adminsrv.go\<close>, the mux and the four routes over any reloader, with the lemmas on
    what a history of requests keeps proved in the locale and used through the store.
  \<^item> \<open>Handler\<close>: the handlers once more, as programs: trees of atomic actions, whose questions (the
    policy, \<open>isClosing\<close>, \<open>registerTunnel\<close>, the pump) continue with their answer. Run alone a
    program is the handler of \<open>ProxyHttp\<close> and \<open>ProxyConnect\<close>; a type system on programs is the
    protocol they keep (judged before reaching out, one record, a registration released after it).
  \<^item> \<open>System\<close>: the gate with any number of requests in flight, the admin plane and the shutdown, as
    one step relation over the store, the log, the collectors and the table of tunnels. Each atomic
    action of a handler, each admin request and each action of \<open>Handler.Shutdown\<close> is a step; a
    call of \<open>pump\<close> is one step, which answers with any outcome of \<open>Pump\<close>, at any time: which steps
    can be counted on to happen is said in \<open>Settle\<close>. The log's and the
    collectors' methods are atomic in the source, by a mutex or an atomic. The field \<open>g_order\<close>,
    the order of the appends, is there for the statements only. Invariants by rule induction tie
    each request to what its program can do, the tunnels to the requests that hold them, the log to
    the records in their order, and the counters to the updates of the requests.
  \<^item> \<open>Serial\<close>, \<open>Drain\<close>, \<open>Settle\<close>, \<open>SystemProps\<close>: what a concurrent run amounts to. It refines the
    sequential gate of \<open>Session\<close>; its log is sound at every moment; a shutdown that returned nil is
    final; at rest the counters are the counts of the records. \<open>Settle\<close> has what the world may hold up
    (\<open>held_up\<close>: an upstream's answer, a dial, a write to a client, and a call of \<open>pump\<close> until \<open>Shutdown\<close> has
    closed its connections) and what the gate cannot fail to do all the same: everything else of its
    requests, and all of a shutdown.
  \<^item> \<open>Startup\<close>: the functions of \<open>run.go\<close> that recover a log, with every system call that can fail.
    \<open>Cli\<close>, \<open>CliProps\<close>: the subcommands, from their arguments to their exit codes, and the order
    of events of a run of \<open>serve\<close>. The properties tie the two ends together: what \<open>serve\<close> leaves,
    after any crash, is what \<open>verify\<close> accepts.
  \<^item> \<open>Stop\<close>: the concurrent gate inside a run of \<open>serve\<close>: what \<open>http.Server.Shutdown\<close> waits for, what
    can still reach the log when the head is read, the two windows in which it is not final, and the
    run end to end, from the flags to what \<open>verify\<close> says of the file.
  \<^item> \<open>Process\<close>: \<open>main.go\<close>, \<open>signal.go\<close>, the wait of \<open>serve\<close> and its \<open>shutdown\<close>. A run of the process is
    told what happens to it in order (a server returns, a signal comes); it goes on serving or ends
    with one of the four exit codes, and a stop takes at most five seconds for the servers and five for the tunnels. What
    a signal does that the program does not ask for is a crash, as in \<open>Cli\<close>.

  Bounds. Sequence numbers, status codes, byte counts and durations of a record are 64-bit words,
  as in the source, and wrap. Tunnel identifiers are natural numbers, so the model speaks of
  fewer than 2 to the 64 tunnels; the counters of the metrics are integers, exact below 2 to the
  53, the precision of the client's floats. No definition uses fuel: the loops that are not
  structural (the verifier, the backwards search, trimming) terminate by a measure on what is left
  to read.

  Parameters, for code that is not under \<open>src/\<close>: the YAML decoder, the Prometheus client's
  rendering; for the operating system: files, listeners, connections, signals, the clock; and for
  what depends on tables, releases or floating point: Unicode case mapping and quoting beyond
  ASCII, \<open>url.Parse\<close>, \<open>time.ParseDuration\<close>. No property assumes anything of them beyond what its
  statement says. The hash is SHA-256, and the tamper properties name the collision a forgery
  would be; nothing is assumed about its strength.

  Granularity. A read of a request's body or of a connection is not a step of \<open>System\<close>: what the
  upstream answers and what a copy reads is given with the request, so only the order of the
  accesses to what requests share is left to the schedule. The end of an idle period is a read that
  times out: in \<open>IdlePump\<close> by the clock the directions share, in \<open>Tunnel\<close> by the clock as one reader
  sees it, and in \<open>Pump\<close> and \<open>System\<close> as one of the reads. A write of a handler to its client, and in
  \<open>Tunnel\<close> a write of a copy, is what it has done when it returns; that it may not return is said in
  \<open>Pump\<close>, \<open>IdlePump\<close> and \<open>Settle\<close>.

  Not modelled: the log lines on stderr; the wording of what the commands print, of which only the
  kind and the numbers are kept; \<open>http.Server\<close> itself, hence how many requests it runs at once and
  when it stops accepting them, of which only what \<open>Shutdown\<close> answers and how long it takes is used.
\<close>

end
